(* ===== verification/Go_Prelude.thy ===== *)
theory Go_Prelude
  imports Main "HOL-Library.AList" "HOL-Library.Sublist"
begin

text \<open>
  The parts of the Go language and of its standard library that the RUFS sources rely on, and
  the generic lemmas the component theories share.

  A Go \<^verbatim>\<open>map\<close> is an association list with distinct keys (\<open>wf_map\<close>); a \<^verbatim>\<open>range\<close> loop visits it
  in list order. Go leaves the order of a \<^verbatim>\<open>range\<close> loop open: the theorems of the development
  quantify over the lists or speak of \<open>map_of\<close> only, so they hold for every order. A Go string is
  a sequence of bytes, which is what HOL's \<open>char list\<close> is. A run-time panic ends the process;
  a function that may panic returns a value of type \<open>'a go\<close>.
\<close>

named_theorems go_map "lookup in updated association lists"
named_theorems go_string "string functions of the standard library"

section \<open>Outcomes\<close>

datatype 'a go = Return 'a | Panic

fun go_bind :: "'a go \<Rightarrow> ('a \<Rightarrow> 'b go) \<Rightarrow> 'b go" where
  "go_bind (Return x) f = f x"
| "go_bind Panic f = Panic"

lemma go_bind_Return_iff: "go_bind m f = Return y \<longleftrightarrow> (\<exists>x. m = Return x \<and> f x = Return y)"
  by (cases m) auto

lemma go_bind_Panic_iff: "go_bind m f = Panic \<longleftrightarrow> m = Panic \<or> (\<exists>x. m = Return x \<and> f x = Panic)"
  by (cases m) auto

lemma go_bind_cong [fundef_cong]:
  "m = m' \<Longrightarrow> (\<And>x. m' = Return x \<Longrightarrow> f x = g x) \<Longrightarrow> go_bind m f = go_bind m' g"
  by (cases m') auto

lemma not_Panic_iff: "m \<noteq> Panic \<longleftrightarrow> (\<exists>x. m = Return x)"
  by (cases m) auto

text \<open>A \<^verbatim>\<open>range\<close> loop whose body updates a state and may panic.\<close>

fun go_fold :: "('a \<Rightarrow> 's \<Rightarrow> 's go) \<Rightarrow> 'a list \<Rightarrow> 's \<Rightarrow> 's go" where
  "go_fold f [] s = Return s"
| "go_fold f (x # xs) s = go_bind (f x s) (go_fold f xs)"

lemma go_fold_append:
  "go_fold f (xs @ ys) s = go_bind (go_fold f xs s) (go_fold f ys)"
proof (induction xs arbitrary: s)
  case (Cons x xs)
  then show ?case by (cases "f x s") auto
qed simp

text \<open>A property that every step of the loop keeps holds at its end.\<close>

lemma go_fold_inv:
  assumes "go_fold f xs s = Return s'" and "P s"
    and "\<And>x t t'. x \<in> set xs \<Longrightarrow> P t \<Longrightarrow> f x t = Return t' \<Longrightarrow> P t'"
  shows "P s'"
  using assms
proof (induction xs arbitrary: s)
  case (Cons x xs)
  then obtain t where t: "f x s = Return t" and rest: "go_fold f xs t = Return s'"
    by (auto simp: go_bind_Return_iff)
  have "P t" using Cons.prems(2,3) t by auto
  then show ?case using Cons.IH [OF rest] Cons.prems(3) by auto
qed auto


section \<open>Maps\<close>

type_synonym ('k, 'v) gomap = "('k \<times> 'v) list"

abbreviation wf_map :: "('k, 'v) gomap \<Rightarrow> bool" where
  "wf_map m \<equiv> distinct (map fst m)"

declare update_conv' [go_map] delete_conv' [go_map]

lemma map_of_update: "map_of (AList.update k v m) x = (if x = k then Some v else map_of m x)"
  by (simp add: update_conv')

lemma map_of_delete: "map_of (AList.delete k m) x = (if x = k then None else map_of m x)"
  by (simp add: delete_conv')

declare map_of_update [simp] map_of_delete [simp] map_of_eq_Some_iff [simp del]

text \<open>Reading a missing key yields the zero value of the element type.\<close>

definition map_get :: "'v \<Rightarrow> ('k, 'v) gomap \<Rightarrow> 'k \<Rightarrow> 'v" where
  "map_get zero m k = (case map_of m k of None \<Rightarrow> zero | Some v \<Rightarrow> v)"

lemma map_get_update [simp]: "map_get z (AList.update k v m) x = (if x = k then v else map_get z m x)"
  by (simp add: map_get_def)

lemma map_get_delete [simp]: "map_get z (AList.delete k m) x = (if x = k then z else map_get z m x)"
  by (simp add: map_get_def)

lemma map_get_Nil [simp]: "map_get z [] k = z"
  by (simp add: map_get_def)

lemma map_get_Some: "map_of m k = Some v \<Longrightarrow> map_get z m k = v"
  by (simp add: map_get_def)

lemma keys_update [simp]: "fst ` set (AList.update k v m) = insert k (fst ` set m)"
  by (simp add: dom_update)

lemma keys_delete [simp]: "fst ` set (AList.delete k m) = fst ` set m - {k}"
  by (induction m) auto

lemma set_update_subset: "set (AList.update k v m) \<subseteq> insert (k, v) (set m)"
  by (induction m) auto

lemma length_update:
  "length (AList.update k v m) = (if k \<in> fst ` set m then length m else Suc (length m))"
  by (induction m) auto

lemma length_delete:
  "wf_map m \<Longrightarrow> length (AList.delete k m) = (if k \<in> fst ` set m then length m - 1 else length m)"
proof (induction m)
  case (Cons a m)
  show ?case
  proof (cases "fst a = k")
    case True
    with Cons.prems have "k \<notin> fst ` set m" by auto
    then have "AList.delete k m = m" by (simp add: delete_id)
    with True show ?thesis by (cases a) auto
  next
    case False
    then have "length (AList.delete k (a # m)) = Suc (length (AList.delete k m))"
      by (cases a) auto
    moreover have "k \<in> fst ` set m \<Longrightarrow> 0 < length m" by auto
    ultimately show ?thesis using Cons False by auto
  qed
qed simp

lemma wf_map_update [simp]: "wf_map m \<Longrightarrow> wf_map (AList.update k v m)"
  by (rule distinct_update)

lemma wf_map_delete [simp]: "wf_map m \<Longrightarrow> wf_map (AList.delete k m)"
  by (rule distinct_delete)

lemma map_of_None_iff: "map_of m k = None \<longleftrightarrow> k \<notin> fst ` set m"
  by (simp add: map_of_eq_None_iff)

lemma map_of_Some_key: "map_of m k = Some v \<Longrightarrow> k \<in> fst ` set m"
  by (metis map_of_None_iff option.distinct(1))


text \<open>A loop over a map that changes, for each of its keys, one entry of a table.\<close>

lemma fold_pointwise:
  assumes "\<And>p i s. P s \<Longrightarrow> P (f p i s) \<and> get (f p i s) = (get s)(p := g p i (get s p))"
  shows "P s \<Longrightarrow> wf_map xs \<Longrightarrow>
    P (fold (\<lambda>(p, i). f p i) xs s) \<and>
    get (fold (\<lambda>(p, i). f p i) xs s) q = (case map_of xs q of None \<Rightarrow> get s q | Some i \<Rightarrow> g q i (get s q))"
proof (induction xs arbitrary: s)
  case (Cons x xs)
  obtain p i where x: "x = (p, i)" by (cases x)
  have s1: "P (f p i s)" "get (f p i s) = (get s)(p := g p i (get s p))" using assms Cons.prems(1) by auto
  have "map_of xs p = None" using Cons.prems(2) x by (simp add: map_of_None_iff)
  then show ?case using Cons.IH [OF s1(1)] Cons.prems(2) s1(2) x by (auto split: option.split)
qed simp


section \<open>Strings\<close>

abbreviation NUL :: char where "NUL \<equiv> CHR 0x00"

text \<open>\<^verbatim>\<open>strings.Split\<close> and \<^verbatim>\<open>bytes.Split\<close> with a separator of one byte.\<close>

fun splitOn :: "char \<Rightarrow> string \<Rightarrow> string list" where
  "splitOn c [] = [[]]"
| "splitOn c (x # xs) =
     (if x = c then [] # splitOn c xs
      else case splitOn c xs of [] \<Rightarrow> [[x]] | y # ys \<Rightarrow> (x # y) # ys)"

text \<open>\<^verbatim>\<open>strings.Join\<close>.\<close>

fun joinWith :: "string \<Rightarrow> string list \<Rightarrow> string" where
  "joinWith s [] = []"
| "joinWith s [x] = x"
| "joinWith s (x # y # ys) = x @ s @ joinWith s (y # ys)"

text \<open>\<^verbatim>\<open>strings.Trim\<close> with a cutset of one byte, \<^verbatim>\<open>strings.HasPrefix\<close>.\<close>

definition trim :: "char \<Rightarrow> string \<Rightarrow> string" where
  "trim c s = rev (dropWhile (\<lambda>x. x = c) (rev (dropWhile (\<lambda>x. x = c) s)))"

definition hasPrefix :: "string \<Rightarrow> string \<Rightarrow> bool" where
  "hasPrefix s p = (take (length p) s = p)"

lemma splitOn_not_Nil [simp]: "splitOn c s \<noteq> []"
  by (induction s) (auto split: list.splits)

lemma splitOn_no_sep: "c \<notin> set s \<Longrightarrow> splitOn c s = [s]"
  by (induction s) auto

lemma splitOn_append_sep [go_string]:
  "c \<notin> set s \<Longrightarrow> splitOn c (s @ c # t) = s # splitOn c t"
  by (induction s) auto

lemma splitOn_parts: "p \<in> set (splitOn c s) \<Longrightarrow> c \<notin> set p"
proof (induction s arbitrary: p)
  case (Cons x xs)
  obtain y ys where "splitOn c xs = y # ys" by (cases "splitOn c xs") auto
  with Cons show ?case by (auto split: if_splits)
qed simp

lemma splitOn_joinWith [go_string]:
  "xs \<noteq> [] \<Longrightarrow> (\<And>x. x \<in> set xs \<Longrightarrow> c \<notin> set x) \<Longrightarrow> splitOn c (joinWith [c] xs) = xs"
proof (induction "[c]" xs rule: joinWith.induct)
  case (2 x)
  then show ?case by (simp add: splitOn_no_sep)
next
  case (3 x y ys)
  then have "splitOn c (joinWith [c] (y # ys)) = y # ys" by simp
  moreover have "c \<notin> set x" using "3.prems" by simp
  ultimately show ?case by (simp add: splitOn_append_sep)
qed simp

lemma joinWith_Cons: "xs \<noteq> [] \<Longrightarrow> joinWith s (x # xs) = x @ s @ joinWith s xs"
  by (cases xs) auto

lemma joinWith_splitOn [go_string]: "joinWith [c] (splitOn c s) = s"
proof (induction s)
  case (Cons x xs)
  obtain y ys where s: "splitOn c xs = y # ys" by (cases "splitOn c xs") auto
  with Cons have "joinWith [c] (y # ys) = xs" by simp
  then show ?case using s by (cases ys) (auto simp: joinWith_Cons)
qed simp

lemma joinWith_inj:
  assumes "joinWith [c] xs = joinWith [c] ys" and "xs \<noteq> []" and "ys \<noteq> []"
    and "\<And>x. x \<in> set xs \<union> set ys \<Longrightarrow> c \<notin> set x"
  shows "xs = ys"
proof -
  have "xs = splitOn c (joinWith [c] xs)" using assms(2,4) by (simp add: splitOn_joinWith)
  also have "\<dots> = splitOn c (joinWith [c] ys)" by (simp only: assms(1))
  also have "\<dots> = ys" using assms(3,4) by (simp add: splitOn_joinWith)
  finally show ?thesis .
qed

lemma sep_append_inj:
  "c \<notin> set a \<Longrightarrow> c \<notin> set b \<Longrightarrow> a @ c # x = b @ c # y \<longleftrightarrow> a = b \<and> x = y"
proof (induction a arbitrary: b)
  case Nil
  then show ?case by (cases b) auto
next
  case (Cons z a)
  then show ?case by (cases b) auto
qed

lemma trim_last: "trim c s \<noteq> [] \<Longrightarrow> last (trim c s) \<noteq> c"
  using hd_dropWhile [of "\<lambda>x. x = c" "rev (dropWhile (\<lambda>x. x = c) s)"]
  by (auto simp: trim_def last_rev)

lemma trim_id: "s = [] \<or> (hd s \<noteq> c \<and> last s \<noteq> c) \<Longrightarrow> trim c s = s"
proof (cases "s = []")
  case False
  assume "s = [] \<or> (hd s \<noteq> c \<and> last s \<noteq> c)"
  with False have "dropWhile (\<lambda>x. x = c) s = s" and "dropWhile (\<lambda>x. x = c) (rev s) = rev s"
    by (auto simp: dropWhile_eq_self_iff hd_rev)
  then show ?thesis by (simp add: trim_def)
qed (simp add: trim_def)

lemma joinWith_ends:
  assumes "xs \<noteq> []" and "\<And>x. x \<in> set xs \<Longrightarrow> x \<noteq> [] \<and> c \<notin> set x"
  shows "joinWith [c] xs \<noteq> [] \<and> hd (joinWith [c] xs) \<noteq> c \<and> last (joinWith [c] xs) \<noteq> c"
  using assms
proof (induction "[c]" xs rule: joinWith.induct)
  case (2 x)
  then show ?case using hd_in_set [of x] last_in_set [of x] by auto
next
  case (3 x y ys)
  then have "joinWith [c] (y # ys) \<noteq> [] \<and> last (joinWith [c] (y # ys)) \<noteq> c" by simp
  moreover have "x \<noteq> []" "hd x \<noteq> c" using "3.prems"(2) [of x] hd_in_set [of x] by auto
  ultimately show ?case by simp
qed simp

lemma trim_joinWith:
  "(\<And>x. x \<in> set xs \<Longrightarrow> x \<noteq> [] \<and> c \<notin> set x) \<Longrightarrow> trim c (joinWith [c] xs) = joinWith [c] xs"
  using joinWith_ends [of xs c] by (cases "xs = []") (auto intro!: trim_id)


section \<open>Network addresses\<close>

text \<open>\<^verbatim>\<open>net.JoinHostPort\<close>: a host with a colon or a zone is put in brackets.\<close>

definition joinHostPort :: "string \<Rightarrow> string \<Rightarrow> string" where
  "joinHostPort host port =
     (if CHR '':'' \<in> set host \<or> CHR ''%'' \<in> set host then ''['' @ host @ '']:'' @ port
      else host @ '':'' @ port)"

text \<open>
  The host that \<^verbatim>\<open>net.SplitHostPort\<close> returns; it is empty when the function reports an error (no
  port, unbalanced brackets, too many colons).
\<close>

definition splitHost :: "string \<Rightarrow> string" where
  "splitHost hp =
     (if CHR '':'' \<notin> set hp then []
      else
        let host = rev (tl (dropWhile (\<lambda>c. c \<noteq> CHR '':'') (rev hp))) in
        if hp ! 0 = CHR ''['' then
          (if host \<noteq> [] \<and> last host = CHR '']'' \<and> CHR '']'' \<notin> set (butlast (tl host)) \<and>
              CHR ''['' \<notin> set (tl hp) \<and> CHR '']'' \<notin> set (drop (length host) hp)
           then butlast (tl host) else [])
        else if CHR '':'' \<in> set host \<or> CHR ''['' \<in> set hp \<or> CHR '']'' \<in> set hp then []
        else host)"

lemma splitHost_joinHostPort:
  assumes "set host \<inter> set '':[]%'' = {}" and "set port \<inter> set '':[]'' = {}" and "host \<noteq> []"
  shows "splitHost (joinHostPort host port) = host"
proof -
  have "dropWhile (\<lambda>c. c \<noteq> CHR '':'') (rev port @ CHR '':'' # rev host) = CHR '':'' # rev host"
    using assms(2) by (subst dropWhile_append2) auto
  moreover have "host ! 0 \<noteq> CHR ''[''" using assms(1,3) by (cases host) auto
  ultimately show ?thesis using assms by (auto simp: splitHost_def joinHostPort_def nth_append)
qed

section \<open>Hexadecimal\<close>

text \<open>\<^verbatim>\<open>fmt.Sprintf("%x", b)\<close> on a byte slice.\<close>

definition hexDigit :: "nat \<Rightarrow> char" where
  "hexDigit n = ''0123456789abcdef'' ! n"

definition hexBytes :: "string \<Rightarrow> string" where
  "hexBytes s = concat (map (\<lambda>c. [hexDigit (of_char c div 16), hexDigit (of_char c mod 16)]) s)"

lemma hexDigit_inj: "m < 16 \<Longrightarrow> n < 16 \<Longrightarrow> hexDigit m = hexDigit n \<Longrightarrow> m = n"
proof -
  assume mn: "m < 16" "n < 16" and eq: "hexDigit m = hexDigit n"
  have "distinct ''0123456789abcdef''" and "length ''0123456789abcdef'' = 16" by simp_all
  then show ?thesis using mn eq unfolding hexDigit_def by (metis nth_eq_iff_index_eq)
qed

lemma hexBytes_inj: "hexBytes s = hexBytes t \<Longrightarrow> s = t"
proof (induction s arbitrary: t)
  case Nil
  then show ?case by (cases t) (auto simp: hexBytes_def)
next
  case (Cons a s)
  then obtain b t' where t: "t = b # t'" by (cases t) (auto simp: hexBytes_def)
  with Cons.prems have eq: "hexDigit (of_char a div 16) = hexDigit (of_char b div 16)"
    "hexDigit (of_char a mod 16) = hexDigit (of_char b mod 16)" "hexBytes s = hexBytes t'"
    by (auto simp: hexBytes_def)
  have "(of_char c :: nat) div 16 < 16" for c :: char
    by (simp add: less_mult_imp_div_less [of _ 16 16])
  with eq(1,2) have "(of_char a :: nat) div 16 = of_char b div 16" "(of_char a :: nat) mod 16 = of_char b mod 16"
    using hexDigit_inj by (blast, simp add: hexDigit_inj)
  then have "(of_char a :: nat) = of_char b" by (metis div_mult_mod_eq)
  then show ?case using t eq(3) Cons.IH by simp
qed

section \<open>Allocation\<close>

text \<open>The number of bytes that the runtime can allocate for a slice; \<^verbatim>\<open>make\<close> panics beyond it.\<close>

definition maxAlloc :: int where
  "maxAlloc = 2 ^ 48"

end
