(* ===== verification/Rufs_Types.thy ===== *)
theory Rufs_Types
  imports Go_Prelude
begin

text \<open>
  The data that crosses component boundaries: file metadata (\<^verbatim>\<open>common/types.go\<close>), the request and
  reply structures of the two RPC services (\<^verbatim>\<open>types.go\<close>) and the errors of the whole program.
  A \<^verbatim>\<open>time.Time\<close> is the number of nanoseconds since the epoch. A pointer that may be nil is an
  option. An error is a constructor that names the message of the \<^verbatim>\<open>errors.New\<close> or \<^verbatim>\<open>fmt.Errorf\<close>
  call that makes it, with the values the message is formatted from.
\<close>

record FileInfo =
  Size :: int
  Hash :: string
  Mtime :: int

datatype go_error =
    ENOENT
  | TokenInvalid
  | SignFailed go_error
  | ProtocolNotSupported int
  | InvalidCredentials string
  | NoValidCertificate
  | UserDoesNotMatchCertificate
  | ConnectBackFailed string go_error
  | PingFailed string go_error
  | SetFileDenied
  | InvalidPart string
  | GetDirDenied
  | GetOwnersDenied
  | OsError string
  | CouldntFindPeer
  | DidntFindPeer
  | ErrInterrupted
  | FileNotFound
  | FtpFileNotFound
  | NotADirectory
  | FtpReadonly
  | FuseENOENT
  | FuseEPERM
  | FuseENOSYS
  | FuseEINTR
  | IoEOF
  | NetError string
  | DuplicateShares
  | JoinedErrors go_error go_error
  | ClientCertificateNotFound
  | SigninFailed go_error
  | ErrShutdown
  | ReconnectFailed go_error
  | NoModules
  | HashNotFound string

record RegisterRequest =
  rr_User :: string
  rr_Token :: string
  rr_PublicKey :: string

record SigninRequest =
  ProtocolVersion :: int
  si_User :: string
  si_Address :: string

record SetFileRequest =
  sf_Path :: string
  sf_Info :: "FileInfo option"

record GetDirReply =
  Dirs :: "string list"
  Files :: "(string, FileInfo) gomap"

record ReadRequest =
  rd_Hash :: string
  rd_Offset :: int
  rd_Size :: int

text \<open>
  The check on a path component that the master and the in-memory database both make:
  \<^verbatim>\<open>len(p) == 0 || p[0] == '.'\<close>.
\<close>

definition bad_part :: "string \<Rightarrow> bool" where
  "bad_part p = (length p = 0 \<or> p ! 0 = CHR ''.'')"

end
