(* ===== verification/Database_Api.thy ===== *)
theory Database_Api
  imports Rufs_Types
begin

text \<open>
  The interface between the master and its database. The build tags select one of three
  implementations of the type \<^verbatim>\<open>Database\<close>; the master calls \<^verbatim>\<open>SetFile\<close>, \<^verbatim>\<open>PeerDisconnected\<close>,
  \<^verbatim>\<open>GetOwners\<close> and \<^verbatim>\<open>GetDir\<close> only. The record \<open>db_ops\<close> collects these four, so that the model
  of the master takes the database as an argument, as the build does. The locale \<open>database\<close>
  states what the master relies on; each implementation is an interpretation of it.

  An operation returns the new database and an error, if any (\<open>None\<close> is Go's nil), or panics.
\<close>

record 'db db_ops =
  op_SetFile :: "'db \<Rightarrow> string list \<Rightarrow> FileInfo option \<Rightarrow> string \<Rightarrow> ('db \<times> go_error option) go"
  op_PeerDisconnected :: "'db \<Rightarrow> string \<Rightarrow> ('db \<times> go_error option) go"
  op_GetOwners :: "'db \<Rightarrow> string \<Rightarrow> go_error + string list"
  op_GetDir :: "'db \<Rightarrow> string \<Rightarrow> go_error + ((string, FileInfo) gomap \<times> string list)"

locale database =
  fixes ops :: "'db db_ops"
    and invar :: "'db \<Rightarrow> bool"
    and look :: "'db \<Rightarrow> string list \<Rightarrow> FileInfo option"
  assumes publish: "invar d \<Longrightarrow> p \<noteq> [] \<Longrightarrow>
      \<exists>d'. op_SetFile ops d p (Some fi) own = Return (d', None) \<and> look d' p = Some fi"
    and set_invar: "invar d \<Longrightarrow> p \<noteq> [] \<Longrightarrow> op_SetFile ops d p i own = Return (d', e) \<Longrightarrow> invar d'"
    and set_frame: "invar d \<Longrightarrow> p \<noteq> [] \<Longrightarrow> op_SetFile ops d p i own = Return (d', e) \<Longrightarrow> q \<noteq> p \<Longrightarrow>
      look d' q = look d q"
    and set_delete: "invar d \<Longrightarrow> p \<noteq> [] \<Longrightarrow> op_SetFile ops d p None own = Return (d', None) \<Longrightarrow>
      look d' p = None"
    and disc_invar: "invar d \<Longrightarrow> op_PeerDisconnected ops d own = Return (d', e) \<Longrightarrow> invar d'"
    and disc_shrinks: "invar d \<Longrightarrow> op_PeerDisconnected ops d own = Return (d', e) \<Longrightarrow>
      look d' q = look d q \<or> look d' q = None"
begin

text \<open>Publishing a file and then publishing or deleting another one leaves the first in place.\<close>

lemma publish_stays:
  assumes "invar d" and "p \<noteq> []" and "q \<noteq> []" and "q \<noteq> p"
    and "op_SetFile ops d p (Some fi) own = Return (d1, e1)"
    and "op_SetFile ops d1 q i own' = Return (d2, e2)"
  shows "look d2 p = Some fi"
proof -
  have "look d1 p = Some fi" using publish [OF assms(1,2), of fi own] assms(5) by auto
  moreover have "look d2 p = look d1 p"
    using set_frame [OF set_invar [OF assms(1,2,5)] assms(3,6)] assms(4) by auto
  ultimately show ?thesis by simp
qed

end

end
