(* ===== verification/Database_Inmem.thy ===== *)
theory Database_Inmem
  imports Database_Api
begin

text \<open>
  The in-memory database of the master, \<^verbatim>\<open>database_inmem.go\<close>: a tree of directories with the
  published files, and for each content hash the number of files each peer holds with it.

  The Go code follows pointers from the root and keeps the visited directories in \<^verbatim>\<open>trace\<close>. The
  tree has no sharing, so a pointer to a directory is here the path that leads to it: \<^verbatim>\<open>trace[i]\<close>
  is the directory at \<open>take (i + 1) ex\<close>, and an assignment through the pointer is \<open>modifyDir\<close> at
  that path. The mutex makes every operation atomic, so an operation is a function on the database.
\<close>

section \<open>State\<close>

datatype directory =
  Directory (dirs: "(string \<times> directory) list") (files: "(string \<times> FileInfo) list") (refs: int)

record Database =
  fileTree :: directory
  owners :: "(string, (string, int) gomap) gomap"

definition emptyDir :: directory where
  "emptyDir = Directory [] [] 0"

definition newDatabase :: Database where
  "newDatabase = \<lparr>fileTree = emptyDir, owners = []\<rparr>"


section \<open>Walking the tree\<close>

fun subdir :: "directory \<Rightarrow> string list \<Rightarrow> directory option" where
  "subdir t [] = Some t"
| "subdir t (p # ps) = (case map_of (dirs t) p of None \<Rightarrow> None | Some d \<Rightarrow> subdir d ps)"

fun modifyDir :: "string list \<Rightarrow> (directory \<Rightarrow> directory) \<Rightarrow> directory \<Rightarrow> directory" where
  "modifyDir [] f t = f t"
| "modifyDir (p # ps) f t =
     (case map_of (dirs t) p of
        None \<Rightarrow> t
      | Some d \<Rightarrow> Directory (AList.update p (modifyDir ps f d) (dirs t)) (files t) (refs t))"

text \<open>
  The descent loop of \<^verbatim>\<open>setFileLocked\<close>: it enters the directories of the path and creates the
  missing ones, except for a deletion, which returns at the first missing one (\<open>None\<close>). The result
  is the tree with the created directories, and the directory the loop ends in.
\<close>

fun enterDirs :: "bool \<Rightarrow> string list \<Rightarrow> directory \<Rightarrow> (directory \<times> directory) option" where
  "enterDirs deletion [] t = Some (t, t)"
| "enterDirs deletion (p # ps) t =
     (case map_of (dirs t) p of
        Some sd \<Rightarrow>
          (case enterDirs deletion ps sd of
             None \<Rightarrow> None
           | Some (sd', u) \<Rightarrow> Some (Directory (AList.update p sd' (dirs t)) (files t) (refs t), u))
      | None \<Rightarrow>
          if deletion then None
          else (case enterDirs deletion ps emptyDir of
                  None \<Rightarrow> None
                | Some (sd', u) \<Rightarrow>
                    Some (Directory (AList.update p sd' (dirs t)) (files t) (refs t + 1), u)))"

definition decRefs :: "directory \<Rightarrow> directory" where
  "decRefs t = Directory (dirs t) (files t) (refs t - 1)"

definition removeDir :: "string \<Rightarrow> directory \<Rightarrow> directory" where
  "removeDir n t = Directory (AList.delete n (dirs t)) (files t) (refs t)"

definition removeFile :: "string \<Rightarrow> directory \<Rightarrow> directory" where
  "removeFile n t = Directory (dirs t) (AList.delete n (files t)) (refs t)"

definition putFile :: "string \<Rightarrow> FileInfo \<Rightarrow> directory \<Rightarrow> directory" where
  "putFile n fi t =
     Directory (dirs t) (AList.update n fi (files t))
       (if map_of (files t) n = None then refs t + 1 else refs t)"

text \<open>
  The loop that walks \<^verbatim>\<open>trace\<close> after a deletion, with the bounds of the source
  (\<^verbatim>\<open>for i := len(trace) - 1; 0 >= i; i++\<close>). Reading \<^verbatim>\<open>trace\<close> out of range panics.
\<close>

function unwindTrace :: "string list \<Rightarrow> directory \<Rightarrow> int \<Rightarrow> directory go" where
  "unwindTrace ex root i =
     (if 0 \<ge> i then
        if i < 0 \<or> int (length ex - 1) \<le> i then Panic
        else
          let root' = modifyDir (take (nat i + 1) ex) decRefs root in
          case subdir root' (take (nat i + 1) ex) of
            None \<Rightarrow> Panic
          | Some tr \<Rightarrow>
              if refs tr > 0 \<or> i = 1 then Return root'
              else if i - 1 < 0 then Panic
              else unwindTrace ex (modifyDir (take (nat i) ex) (removeDir (ex ! nat i)) root') (i + 1)
      else Return root)"
  by pat_completeness auto
termination
  by (relation "measure (\<lambda>(ex, root, i). nat (1 - i))") auto


section \<open>Owner counts\<close>

text \<open>\<^verbatim>\<open>d.owners[h][owner]--\<close>, and the deletion of a zero count. Assigning into a nil map panics.\<close>

definition dropOwner ::
  "(string, (string, int) gomap) gomap \<Rightarrow> string \<Rightarrow> string \<Rightarrow> (string, (string, int) gomap) gomap go" where
  "dropOwner own h ow =
     (case map_of own h of
        None \<Rightarrow> Panic
      | Some m \<Rightarrow>
          let n = map_get 0 m ow - 1;
              m' = (if n = 0 then AList.delete ow m else AList.update ow n m)
          in Return (AList.update h m' own))"

text \<open>\<^verbatim>\<open>d.owners[fi.Hash][owner]++\<close>, with the inner map created on first use.\<close>

definition addOwner ::
  "(string, (string, int) gomap) gomap \<Rightarrow> string \<Rightarrow> string \<Rightarrow> (string, (string, int) gomap) gomap" where
  "addOwner own h ow =
     (let m = map_get [] own h; n = map_get 0 m ow + 1
      in AList.update h (AList.update ow n m) own)"


section \<open>Operations\<close>

definition setFileLocked ::
  "Database \<Rightarrow> string list \<Rightarrow> FileInfo option \<Rightarrow> string \<Rightarrow> (Database \<times> go_error option) go" where
  "setFileLocked d ex fi owner =
     (if ex = [] then Panic
      else
        let deletion = (fi = None); basename = last ex in
        case enterDirs deletion (butlast ex) (fileTree d) of
          None \<Rightarrow> Return (d, None)
        | Some (root, t) \<Rightarrow>
            go_bind
              (case map_of (files t) basename of
                 Some f \<Rightarrow> dropOwner (owners d) (Hash f) owner
               | None \<Rightarrow> Return (owners d))
              (\<lambda>own.
                 case fi of
                   None \<Rightarrow>
                     (case map_of (files t) basename of
                        Some f \<Rightarrow>
                          go_bind
                            (unwindTrace ex (modifyDir (butlast ex) (removeFile basename) root)
                               (int (length ex - 1) - 1))
                            (\<lambda>root'. Return (\<lparr>fileTree = root', owners = own\<rparr>, None))
                      | None \<Rightarrow> Return (\<lparr>fileTree = root, owners = own\<rparr>, None))
                 | Some info \<Rightarrow>
                     Return (\<lparr>fileTree = modifyDir (butlast ex) (putFile basename info) root,
                              owners = addOwner own (Hash info) owner\<rparr>, None)))"

definition SetFile ::
  "Database \<Rightarrow> string list \<Rightarrow> FileInfo option \<Rightarrow> string \<Rightarrow> (Database \<times> go_error option) go" where
  "SetFile d fnEx fi owner = setFileLocked d fnEx fi owner"

text \<open>The loop of \<^verbatim>\<open>searchAndDestroy\<close> over the files of a directory, with its error accumulation.\<close>

definition addErr :: "go_error option \<Rightarrow> go_error option \<Rightarrow> go_error option" where
  "addErr lastErr err =
     (case err of
        None \<Rightarrow> lastErr
      | Some e \<Rightarrow> (case lastErr of None \<Rightarrow> Some e | Some l \<Rightarrow> Some (JoinedErrors l e)))"

fun destroyFiles ::
  "(string \<times> FileInfo) list \<Rightarrow> string list \<Rightarrow> string list \<Rightarrow> string \<Rightarrow>
   Database \<times> go_error option \<Rightarrow> (Database \<times> go_error option) go" where
  "destroyFiles [] victims parents owner s = Return s"
| "destroyFiles ((fn, fi) # fs) victims parents owner (d, lastErr) =
     (if Hash fi \<in> set victims then
        go_bind (setFileLocked d (parents @ [fn]) None owner)
          (\<lambda>(d', err). destroyFiles fs victims parents owner (d', addErr lastErr err))
      else destroyFiles fs victims parents owner (d, lastErr))"

text \<open>
  The recursion of \<^verbatim>\<open>searchAndDestroy\<close>. Each directory is read when it is reached; the calls made
  before only remove files of directories that were visited already, so its contents are those it
  had when the traversal began. The result of the recursive call is dropped, as in the source.
\<close>

fun searchAndDestroy ::
  "directory \<Rightarrow> string list \<Rightarrow> string list \<Rightarrow> string \<Rightarrow> Database \<Rightarrow> (Database \<times> go_error option) go"
and searchDirs ::
  "(string \<times> directory) list \<Rightarrow> string list \<Rightarrow> string list \<Rightarrow> string \<Rightarrow> Database \<Rightarrow> Database go" where
  "searchAndDestroy (Directory ds fs r) victims parents owner d =
     go_bind (destroyFiles fs victims parents owner (d, None))
       (\<lambda>(d1, lastErr).
          go_bind (searchDirs ds victims parents owner d1) (\<lambda>d2. Return (d2, lastErr)))"
| "searchDirs [] victims parents owner d = Return d"
| "searchDirs ((dn, sub) # ds) victims parents owner d =
     go_bind (searchAndDestroy sub victims (parents @ [dn]) owner d)
       (\<lambda>(d1, err). searchDirs ds victims parents owner d1)"

text \<open>The hashes that only the disconnected peer holds.\<close>

definition disconnectTodo :: "Database \<Rightarrow> string \<Rightarrow> string list" where
  "disconnectTodo d owner =
     map fst (filter (\<lambda>(h, m). map_of m owner \<noteq> None \<and> length m = 1) (owners d))"

definition PeerDisconnected :: "Database \<Rightarrow> string \<Rightarrow> (Database \<times> go_error option) go" where
  "PeerDisconnected d owner = searchAndDestroy (fileTree d) (disconnectTodo d owner) [] owner d"

definition GetOwners :: "Database \<Rightarrow> string \<Rightarrow> go_error + string list" where
  "GetOwners d hash = Inr (map fst (map_get [] (owners d) hash))"

fun getDirWalk :: "directory \<Rightarrow> string list \<Rightarrow> go_error + directory" where
  "getDirWalk t [] = Inr t"
| "getDirWalk t (p # ps) =
     (if bad_part p then Inl (InvalidPart p)
      else case map_of (dirs t) p of Some sd \<Rightarrow> getDirWalk sd ps | None \<Rightarrow> Inl ENOENT)"

definition GetDir :: "Database \<Rightarrow> string \<Rightarrow> go_error + ((string, FileInfo) gomap \<times> string list)" where
  "GetDir d dir =
     (let ex = (if dir = [] then [] else splitOn (CHR ''/'') dir) in
      case getDirWalk (fileTree d) ex of
        Inl e \<Rightarrow> Inl e
      | Inr t \<Rightarrow> Inr (files t, map fst (dirs t)))"

definition inmem_ops :: "Database db_ops" where
  "inmem_ops =
     \<lparr>op_SetFile = SetFile, op_PeerDisconnected = PeerDisconnected,
      op_GetOwners = GetOwners, op_GetDir = GetDir\<rparr>"


section \<open>The file map a tree stands for\<close>

fun lookupFile :: "directory \<Rightarrow> string list \<Rightarrow> FileInfo option" where
  "lookupFile t [] = None"
| "lookupFile t [f] = map_of (files t) f"
| "lookupFile t (p # q # ps) =
     (case map_of (dirs t) p of None \<Rightarrow> None | Some d \<Rightarrow> lookupFile d (q # ps))"

lemma lookupFile_emptyDir [simp]: "lookupFile emptyDir p = None"
  by (cases "(emptyDir, p)" rule: lookupFile.cases) (auto simp: emptyDir_def)

lemma lookupFile_Cons:
  "ps \<noteq> [] \<Longrightarrow>
   lookupFile t (p # ps) = (case map_of (dirs t) p of None \<Rightarrow> None | Some d \<Rightarrow> lookupFile d ps)"
  by (cases ps) auto

lemma lookupFile_subdir:
  "p \<noteq> [] \<Longrightarrow> lookupFile t p =
     (case subdir t (butlast p) of None \<Rightarrow> None | Some d \<Rightarrow> map_of (files d) (last p))"
  by (induction t p rule: lookupFile.induct) (auto split: option.splits)

lemma subdir_modifyDir:
  "subdir t ps = Some u \<Longrightarrow> subdir (modifyDir ps f t) ps = Some (f u)"
  by (induction ps arbitrary: t) (auto split: option.splits)

text \<open>A change to the files of one directory changes the lookups in that directory only.\<close>

lemma lookupFile_modifyDir:
  assumes "subdir t ps = Some u" and "dirs (f u) = dirs u"
  shows "lookupFile (modifyDir ps f t) q =
    (if q \<noteq> [] \<and> butlast q = ps then map_of (files (f u)) (last q) else lookupFile t q)"
  using assms
proof (induction ps arbitrary: t q)
  case Nil
  then show ?case by (cases "(t, q)" rule: lookupFile.cases) auto
next
  case (Cons p ps)
  then obtain d where d: "map_of (dirs t) p = Some d" and u: "subdir d ps = Some u"
    by (auto split: option.splits)
  show ?case
  proof (cases "(t, q)" rule: lookupFile.cases)
    case (3 t' x y ys)
    then show ?thesis using Cons.IH [OF u Cons.prems(2), of "y # ys"] d by auto
  qed (use d in auto)
qed

lemma enterDirs_subdir: "enterDirs del ps t = Some (root, u) \<Longrightarrow> subdir root ps = Some u"
  by (induction ps arbitrary: t root) (auto split: option.splits if_splits)

lemma enterDirs_lookup: "enterDirs del ps t = Some (root, u) \<Longrightarrow> lookupFile root q = lookupFile t q"
proof (induction ps arbitrary: t root q)
  case (Cons p ps)
  show ?case
  proof (cases "(t, q)" rule: lookupFile.cases)
    case (3 t' x y ys)
    then show ?thesis
      using Cons.prems Cons.IH [of emptyDir _ "y # ys"]
      by (cases "map_of (dirs t) p") (auto split: option.splits if_splits dest: Cons.IH)
  qed (use Cons.prems in \<open>auto split: option.splits if_splits\<close>)
qed simp

lemma enterDirs_create: "\<exists>root u. enterDirs False ps t = Some (root, u)"
proof (induction ps arbitrary: t)
  case (Cons p ps)
  from Cons [of emptyDir] Cons show ?case
    by (cases "map_of (dirs t) p") (fastforce split: option.splits)+
qed simp

lemma enterDirs_deletion: "enterDirs True ps t = map_option (\<lambda>u. (t, u)) (subdir t ps)"
proof (induction ps arbitrary: t)
  case (Cons p ps)
  then show ?case by (cases t) (auto split: option.splits simp: update_triv)
qed simp

section \<open>Functional behaviour of SetFile\<close>

text \<open>The count that SetFile takes away before it writes or deletes an entry.\<close>

definition release :: "Database \<Rightarrow> string list \<Rightarrow> string \<Rightarrow> (string, (string, int) gomap) gomap go" where
  "release d ex ow =
     (case lookupFile (fileTree d) ex of
        Some f \<Rightarrow> dropOwner (owners d) (Hash f) ow
      | None \<Rightarrow> Return (owners d))"

declare unwindTrace.simps [simp del]

lemma unwindTrace_eq:
  "unwindTrace ex root i =
     (if 0 < i then Return root
      else if i = 0 \<and> 1 < length ex then
        (let root' = modifyDir [ex ! 0] decRefs root in
         case subdir root' [ex ! 0] of
           None \<Rightarrow> Panic
         | Some tr \<Rightarrow> if 0 < refs tr then Return root' else Panic)
      else Panic)"
proof (cases ex)
  case Nil
  then show ?thesis by (subst unwindTrace.simps) auto
next
  case (Cons x xs)
  then show ?thesis
    by (subst unwindTrace.simps) (auto simp: Let_def split: option.splits)
qed

lemma lookupFile_modifyDir_same:
  assumes "subdir t ps = Some u" and "dirs (f u) = dirs u" and "files (f u) = files u"
  shows "lookupFile (modifyDir ps f t) = lookupFile t"
proof
  fix q
  show "lookupFile (modifyDir ps f t) q = lookupFile t q"
    using lookupFile_modifyDir [of t ps u f q] assms by (auto simp: lookupFile_subdir)
qed

lemma unwindTrace_lookup: "unwindTrace ex root i = Return root' \<Longrightarrow> lookupFile root' = lookupFile root"
proof -
  assume u: "unwindTrace ex root i = Return root'"
  show ?thesis
  proof (cases "0 < i")
    case True
    with u show ?thesis by (simp add: unwindTrace_eq)
  next
    case False
    with u have r: "root' = modifyDir [ex ! 0] decRefs root"
      and s: "subdir root' [ex ! 0] \<noteq> None"
      by (auto simp: unwindTrace_eq Let_def split: if_splits option.splits)
    from s obtain t where "subdir root [ex ! 0] = Some t"
      unfolding r by (auto split: option.splits)
    then show ?thesis
      unfolding r by (rule lookupFile_modifyDir_same) (simp_all add: decRefs_def)
  qed
qed

lemma setFileLocked_put:
  assumes "ex \<noteq> []"
  obtains root where
    "setFileLocked d ex (Some fi) ow =
       go_bind (release d ex ow)
         (\<lambda>own. Return (\<lparr>fileTree = root, owners = addOwner own (Hash fi) ow\<rparr>, None))"
    and "lookupFile root = (lookupFile (fileTree d))(ex \<mapsto> fi)"
proof -
  obtain root t where e: "enterDirs False (butlast ex) (fileTree d) = Some (root, t)"
    using enterDirs_create by blast
  note s = enterDirs_subdir [OF e] and l = enterDirs_lookup [OF e]
  have f: "map_of (files t) (last ex) = lookupFile (fileTree d) ex"
    using s l [of ex] assms by (simp add: lookupFile_subdir)
  have ex_iff: "q \<noteq> [] \<and> butlast q = butlast ex \<Longrightarrow> q = ex \<longleftrightarrow> last q = last ex" for q
    using assms by (metis append_butlast_last_id)
  have "lookupFile (modifyDir (butlast ex) (putFile (last ex) fi) root) q =
      ((lookupFile (fileTree d))(ex \<mapsto> fi)) q" for q
    using s l [of q] ex_iff [of q] assms
    by (auto simp: lookupFile_modifyDir putFile_def lookupFile_subdir)
  then have "lookupFile (modifyDir (butlast ex) (putFile (last ex) fi) root) =
      (lookupFile (fileTree d))(ex \<mapsto> fi)" by blast
  moreover have "setFileLocked d ex (Some fi) ow =
       go_bind (release d ex ow)
         (\<lambda>own. Return (\<lparr>fileTree = modifyDir (butlast ex) (putFile (last ex) fi) root,
                         owners = addOwner own (Hash fi) ow\<rparr>, None))"
    using assms e f by (simp add: setFileLocked_def release_def)
  ultimately show ?thesis using that by blast
qed

lemma setFileLocked_del:
  assumes "setFileLocked d ex None ow = Return (d', e)"
  shows "e = None" and "lookupFile (fileTree d') = (lookupFile (fileTree d))(ex := None)"
    and "release d ex ow = Return (owners d')"
proof -
  from assms have ex: "ex \<noteq> []" by (auto simp: setFileLocked_def)
  have "e = None \<and> lookupFile (fileTree d') = (lookupFile (fileTree d))(ex := None) \<and>
    release d ex ow = Return (owners d')"
  proof (cases "subdir (fileTree d) (butlast ex)")
    case None
    with ex have n: "lookupFile (fileTree d) ex = None" by (simp add: lookupFile_subdir)
    with None assms ex show ?thesis
      by (auto simp: setFileLocked_def enterDirs_deletion release_def)
  next
    case (Some t)
    with ex have f: "lookupFile (fileTree d) ex = map_of (files t) (last ex)"
      by (simp add: lookupFile_subdir)
    have e_iff: "q \<noteq> [] \<and> butlast q = butlast ex \<Longrightarrow> q = ex \<longleftrightarrow> last q = last ex" for q
      using ex by (metis append_butlast_last_id)
    have "lookupFile (modifyDir (butlast ex) (removeFile (last ex)) (fileTree d)) q =
        ((lookupFile (fileTree d))(ex := None)) q" for q
      using Some e_iff [of q] ex
      by (auto simp: lookupFile_modifyDir removeFile_def lookupFile_subdir)
    then have "lookupFile (modifyDir (butlast ex) (removeFile (last ex)) (fileTree d)) =
        (lookupFile (fileTree d))(ex := None)" by blast
    with Some assms ex f show ?thesis
      by (auto simp: setFileLocked_def enterDirs_deletion release_def go_bind_Return_iff
          fun_upd_idem split: option.splits dest!: unwindTrace_lookup)
  qed
  then show "e = None" and "lookupFile (fileTree d') = (lookupFile (fileTree d))(ex := None)"
    and "release d ex ow = Return (owners d')" by auto
qed


section \<open>Deleting a peer's files is a sequence of deletions\<close>

definition delPath :: "string \<Rightarrow> string list \<Rightarrow> Database \<Rightarrow> Database go" where
  "delPath ow p d = go_bind (setFileLocked d p None ow) (\<lambda>(d', e). Return d')"

fun victimPaths :: "directory \<Rightarrow> string list \<Rightarrow> string list \<Rightarrow> string list list"
and victimDirs :: "(string \<times> directory) list \<Rightarrow> string list \<Rightarrow> string list \<Rightarrow> string list list" where
  "victimPaths (Directory ds fs r) vs ps =
     map (\<lambda>(n, fi). ps @ [n]) (filter (\<lambda>(n, fi). Hash fi \<in> set vs) fs) @ victimDirs ds vs ps"
| "victimDirs [] vs ps = []"
| "victimDirs ((n, t) # ds) vs ps = victimPaths t vs (ps @ [n]) @ victimDirs ds vs ps"

lemma setFileLocked_delPath:
  "setFileLocked d p None ow = go_bind (delPath ow p d) (\<lambda>d'. Return (d', None))"
  by (cases "setFileLocked d p None ow") (auto simp: delPath_def dest: setFileLocked_del(1))

lemma delPath_Return: "delPath ow p d = Return d' \<longleftrightarrow> setFileLocked d p None ow = Return (d', None)"
  unfolding setFileLocked_delPath by (cases "delPath ow p d") auto

lemma destroyFiles_fold:
  "destroyFiles fs vs ps ow (d, e) =
     go_bind (go_fold (delPath ow) (map (\<lambda>(n, fi). ps @ [n]) (filter (\<lambda>(n, fi). Hash fi \<in> set vs) fs)) d)
       (\<lambda>d'. Return (d', e))"
proof (induction fs arbitrary: d e)
  case (Cons x fs)
  obtain n fi where x: "x = (n, fi)" by (cases x)
  show ?case
  proof (cases "Hash fi \<in> set vs")
    case True
    with x Cons show ?thesis
      by (cases "delPath ow (ps @ [n]) d") (simp_all add: setFileLocked_delPath addErr_def)
  qed (use x Cons in simp)
qed simp

lemma searchAndDestroy_fold:
  "searchAndDestroy t vs ps ow d =
     go_bind (go_fold (delPath ow) (victimPaths t vs ps) d) (\<lambda>d'. Return (d', None))"
  "searchDirs ds vs ps ow d = go_fold (delPath ow) (victimDirs ds vs ps) d"
proof (induction t vs ps ow d and ds vs ps ow d rule: searchAndDestroy_searchDirs.induct)
  case (1 ds fs r vs ps ow d)
  show ?case
  proof (cases "go_fold (delPath ow)
      (map (\<lambda>(n, fi). ps @ [n]) (filter (\<lambda>(n, fi). Hash fi \<in> set vs) fs)) d")
    case (Return d1)
    have "searchDirs ds vs ps ow d1 = go_fold (delPath ow) (victimDirs ds vs ps) d1"
      by (rule "1.IH" [of "(d1, None)" d1 None]) (simp_all add: destroyFiles_fold Return)
    with Return show ?thesis by (simp add: destroyFiles_fold go_fold_append)
  qed (simp add: destroyFiles_fold go_fold_append)
next
  case (3 n t ds vs ps ow d)
  show ?case
  proof (cases "go_fold (delPath ow) (victimPaths t vs (ps @ [n])) d")
    case (Return d1)
    then have "searchDirs ds vs ps ow d1 = go_fold (delPath ow) (victimDirs ds vs ps) d1"
      by (intro "3.IH"(2) [of "(d1, None)" d1 None]) (simp_all add: "3.IH"(1))
    with Return "3.IH"(1) show ?thesis by (simp add: go_fold_append)
  qed (use "3.IH"(1) in \<open>simp add: go_fold_append\<close>)
qed simp

lemma PeerDisconnected_fold:
  "PeerDisconnected d ow =
     go_bind (go_fold (delPath ow) (victimPaths (fileTree d) (disconnectTodo d ow) []) d)
       (\<lambda>d'. Return (d', None))"
  by (simp add: PeerDisconnected_def searchAndDestroy_fold)

text \<open>The effect of a sequence of deletions on the file map.\<close>

lemma go_fold_delPath_lookup:
  "go_fold (delPath ow) ps d = Return d' \<Longrightarrow>
   lookupFile (fileTree d') q = (if q \<in> set ps then None else lookupFile (fileTree d) q)"
proof (induction ps arbitrary: d)
  case (Cons p ps)
  then obtain d1 where d1: "delPath ow p d = Return d1" and r: "go_fold (delPath ow) ps d1 = Return d'"
    by (auto simp: go_bind_Return_iff)
  have "lookupFile (fileTree d1) = (lookupFile (fileTree d))(p := None)"
    using d1 by (auto simp: delPath_Return dest: setFileLocked_del(2))
  then show ?case using Cons.IH [OF r] by auto
qed simp


section \<open>The interface the master uses\<close>

text \<open>
  Every hash of a published file has an entry in \<^verbatim>\<open>owners\<close>; so the decrement in \<^verbatim>\<open>setFileLocked\<close>
  never writes into a nil map.
\<close>

definition inmem_inv :: "Database \<Rightarrow> bool" where
  "inmem_inv d = (\<forall>p fi. lookupFile (fileTree d) p = Some fi \<longrightarrow> map_of (owners d) (Hash fi) \<noteq> None)"

lemma dropOwner_dom: "dropOwner own h ow = Return own' \<Longrightarrow> fst ` set own' = fst ` set own"
  by (clarsimp simp: dropOwner_def Let_def insert_absorb map_of_Some_key split: option.splits)

lemma addOwner_dom: "fst ` set (addOwner own h ow) = insert h (fst ` set own)"
  by (simp add: addOwner_def Let_def)

lemma dropOwner_total: "map_of own h \<noteq> None \<Longrightarrow> \<exists>own'. dropOwner own h ow = Return own'"
  by (auto simp: dropOwner_def Let_def)

lemma release_total: "inmem_inv d \<Longrightarrow> \<exists>own. release d ex ow = Return own"
  by (auto simp: release_def inmem_inv_def intro: dropOwner_total split: option.splits)

lemma release_dom: "release d ex ow = Return own \<Longrightarrow> fst ` set own = fst ` set (owners d)"
  by (simp add: release_def dropOwner_dom split: option.splits)

lemma inmem_inv_keys:
  "inmem_inv d \<longleftrightarrow> (\<forall>p fi. lookupFile (fileTree d) p = Some fi \<longrightarrow> Hash fi \<in> fst ` set (owners d))"
  by (simp add: inmem_inv_def map_of_None_iff)

lemma setFileLocked_put_ok:
  assumes "inmem_inv d" and "p \<noteq> []"
  obtains d' where "setFileLocked d p (Some fi) ow = Return (d', None)"
    and "lookupFile (fileTree d') = (lookupFile (fileTree d))(p \<mapsto> fi)" and "inmem_inv d'"
proof -
  obtain root where
    s: "setFileLocked d p (Some fi) ow =
       go_bind (release d p ow)
         (\<lambda>own. Return (\<lparr>fileTree = root, owners = addOwner own (Hash fi) ow\<rparr>, None))"
    and l: "lookupFile root = (lookupFile (fileTree d))(p \<mapsto> fi)"
    using setFileLocked_put [OF assms(2)] by blast
  obtain own where own: "release d p ow = Return own" using release_total [OF assms(1)] by blast
  let ?d = "\<lparr>fileTree = root, owners = addOwner own (Hash fi) ow\<rparr>"
  have "inmem_inv ?d"
    using assms(1) release_dom [OF own] by (auto simp: inmem_inv_keys l addOwner_dom)
  then show ?thesis using that [of ?d] s own l by simp
qed

lemma setFileLocked_del_inv:
  "inmem_inv d \<Longrightarrow> setFileLocked d p None ow = Return (d', e) \<Longrightarrow> inmem_inv d'"
  by (frule setFileLocked_del(2), drule setFileLocked_del(3), drule release_dom)
    (auto simp: inmem_inv_keys split: if_splits)

lemma setFileLocked_inv:
  assumes "inmem_inv d" and "p \<noteq> []" and "setFileLocked d p i ow = Return (d', e)"
  shows "inmem_inv d' \<and> lookupFile (fileTree d') = (lookupFile (fileTree d))(p := i)"
proof (cases i)
  case None
  with assms show ?thesis
    by (auto dest: setFileLocked_del(2) setFileLocked_del_inv)
next
  case (Some fi)
  with setFileLocked_put_ok [OF assms(1,2), of fi ow] assms(3) show ?thesis by auto
qed

lemma delPath_inv: "delPath ow p d = Return d' \<Longrightarrow> inmem_inv d \<Longrightarrow> inmem_inv d'"
  by (auto simp: delPath_Return intro: setFileLocked_del_inv)

interpretation inmem: database inmem_ops inmem_inv "\<lambda>d. lookupFile (fileTree d)"
proof unfold_locales
  fix d p fi own
  assume "inmem_inv d" and "(p :: string list) \<noteq> []"
  then show "\<exists>d'. op_SetFile inmem_ops d p (Some fi) own = Return (d', None) \<and>
      lookupFile (fileTree d') p = Some fi"
    by (rule setFileLocked_put_ok [of d p fi own]) (auto simp: inmem_ops_def SetFile_def)
next
  fix d own d' e q
  assume i: "inmem_inv d" and p: "op_PeerDisconnected inmem_ops d own = Return (d', e)"
  then have f: "go_fold (delPath own) (victimPaths (fileTree d) (disconnectTodo d own) []) d = Return d'"
    by (auto simp: inmem_ops_def PeerDisconnected_fold go_bind_Return_iff)
  show "inmem_inv d'" by (rule go_fold_inv [OF f, of inmem_inv]) (auto intro: i delPath_inv)
  show "lookupFile (fileTree d') q = lookupFile (fileTree d) q \<or> lookupFile (fileTree d') q = None"
    using go_fold_delPath_lookup [OF f] by simp
qed (auto simp: inmem_ops_def SetFile_def dest: setFileLocked_inv)


section \<open>The abstract contract: who publishes what\<close>

text \<open>
  The abstract state of the database is a map \<open>pub\<close> from paths to the metadata of the file and the
  peer that published it. \<open>publishes d pub\<close> relates it to the concrete state: the tree holds exactly
  the published files, and the count of a peer for a hash is the number of files with that hash the
  peer published.
\<close>

definition ownerCount :: "(string, (string, int) gomap) gomap \<Rightarrow> string \<Rightarrow> string \<Rightarrow> int" where
  "ownerCount own h ow = map_get 0 (map_get [] own h) ow"

definition owners_wf :: "(string, (string, int) gomap) gomap \<Rightarrow> bool" where
  "owners_wf own =
     (wf_map own \<and> (\<forall>h. wf_map (map_get [] own h) \<and> (\<forall>ow. map_of (map_get [] own h) ow \<noteq> Some 0)))"

definition heldBy :: "(string list \<rightharpoonup> FileInfo \<times> string) \<Rightarrow> string \<Rightarrow> string \<Rightarrow> string list set" where
  "heldBy pub h ow = {p. \<exists>fi. pub p = Some (fi, ow) \<and> Hash fi = h}"

definition publishes :: "Database \<Rightarrow> (string list \<rightharpoonup> FileInfo \<times> string) \<Rightarrow> bool" where
  "publishes d pub \<longleftrightarrow>
     finite (dom pub) \<and> owners_wf (owners d) \<and>
     (\<forall>p. lookupFile (fileTree d) p = map_option fst (pub p)) \<and>
     (\<forall>h ow. ownerCount (owners d) h ow = int (card (heldBy pub h ow)))"

lemma dropOwner_Return:
  "dropOwner own h ow = Return own' \<longleftrightarrow>
     map_of own h \<noteq> None \<and>
     own' = AList.update h
       (if map_get 0 (map_get [] own h) ow = 1 then AList.delete ow (map_get [] own h)
        else AList.update ow (map_get 0 (map_get [] own h) ow - 1) (map_get [] own h)) own"
  by (cases "map_of own h") (auto simp: dropOwner_def Let_def map_get_Some)

lemma ownerCount_dropOwner:
  "dropOwner own h ow = Return own' \<Longrightarrow>
   ownerCount own' h' ow' = ownerCount own h' ow' - (if h' = h \<and> ow' = ow then 1 else 0)"
  by (auto simp: dropOwner_Return ownerCount_def)

lemma ownerCount_addOwner:
  "ownerCount (addOwner own h ow) h' ow' = ownerCount own h' ow' + (if h' = h \<and> ow' = ow then 1 else 0)"
  by (simp add: addOwner_def ownerCount_def Let_def)

lemma owners_wf_dropOwner: "owners_wf own \<Longrightarrow> dropOwner own h ow = Return own' \<Longrightarrow> owners_wf own'"
  by (auto simp: dropOwner_Return owners_wf_def)

lemma owners_wf_addOwner:
  assumes "owners_wf own" and "0 \<le> ownerCount own h ow"
  shows "owners_wf (addOwner own h ow)"
  using assms by (auto simp: addOwner_def owners_wf_def ownerCount_def Let_def)

lemma finite_heldBy: "finite (dom pub) \<Longrightarrow> finite (heldBy pub h ow)"
  by (rule finite_subset [of _ "dom pub"]) (auto simp: heldBy_def)

lemma heldBy_remove:
  "heldBy (pub(p := None)) h ow = heldBy pub h ow - {p}"
  by (auto simp: heldBy_def)

lemma heldBy_put:
  "pub p = None \<Longrightarrow>
   heldBy (pub(p \<mapsto> (fi, ow'))) h ow =
     (if h = Hash fi \<and> ow = ow' then insert p (heldBy pub h ow) else heldBy pub h ow)"
  by (auto simp: heldBy_def)

lemma heldBy_None: "pub p = None \<Longrightarrow> p \<notin> heldBy pub h ow"
  by (simp add: heldBy_def)

lemma heldBy_Some: "pub p = Some (fi, ow') \<Longrightarrow> p \<in> heldBy pub h ow \<longleftrightarrow> Hash fi = h \<and> ow' = ow"
  by (auto simp: heldBy_def)

lemma publishes_owner_listed:
  assumes "publishes d pub" and "pub p = Some (fi, ow)"
  shows "0 < ownerCount (owners d) (Hash fi) ow" and "map_of (owners d) (Hash fi) \<noteq> None"
proof -
  have "p \<in> heldBy pub (Hash fi) ow" using assms(2) by (auto simp: heldBy_def)
  then have "0 < card (heldBy pub (Hash fi) ow)"
    using assms(1) finite_heldBy [of pub] by (auto simp: publishes_def card_gt_0_iff)
  then show "0 < ownerCount (owners d) (Hash fi) ow" using assms(1) by (simp add: publishes_def)
  then show "map_of (owners d) (Hash fi) \<noteq> None" by (cases "map_of (owners d) (Hash fi)") (auto simp: ownerCount_def map_get_def)
qed

lemma publishes_inv: "publishes d pub \<Longrightarrow> inmem_inv d"
  unfolding inmem_inv_def
  using publishes_owner_listed(2) by (fastforce simp: publishes_def)

text \<open>Taking a path out: the counts after \<open>release\<close> are those of the map without the path.\<close>

lemma release_publishes:
  assumes pub: "publishes d pub" and own: "\<forall>fi ow'. pub p = Some (fi, ow') \<longrightarrow> ow' = ow"
    and rel: "release d p ow = Return own"
  shows "owners_wf own" and "ownerCount own h ow'' = int (card (heldBy (pub(p := None)) h ow''))"
proof -
  have fin: "finite (heldBy pub h ow'')" and wf: "owners_wf (owners d)"
    and cnt: "ownerCount (owners d) h ow'' = int (card (heldBy pub h ow''))"
    and look: "lookupFile (fileTree d) p = map_option fst (pub p)"
    using pub finite_heldBy by (auto simp: publishes_def)
  have "owners_wf own \<and> ownerCount own h ow'' = int (card (heldBy (pub(p := None)) h ow''))"
  proof (cases "pub p")
    case None
    then show ?thesis using rel wf cnt look by (simp add: release_def heldBy_remove heldBy_None)
  next
    case (Some x)
    then obtain fi where x: "pub p = Some (fi, ow)" using own by (cases x) auto
    then have drop: "dropOwner (owners d) (Hash fi) ow = Return own"
      using rel look by (simp add: release_def)
    have "0 < card (heldBy pub h ow'')" if "p \<in> heldBy pub h ow''"
      using that fin by (auto simp: card_gt_0_iff)
    then show ?thesis
      using owners_wf_dropOwner [OF wf drop] ownerCount_dropOwner [OF drop] cnt fin heldBy_Some [of pub p, OF x]
      by (auto simp: heldBy_remove card_Diff_singleton_if)
  qed
  then show "owners_wf own" and "ownerCount own h ow'' = int (card (heldBy (pub(p := None)) h ow''))"
    by auto
qed

lemma publishes_delete:
  assumes pub: "publishes d pub" and own: "\<forall>fi ow'. pub p = Some (fi, ow') \<longrightarrow> ow' = ow"
    and set: "setFileLocked d p None ow = Return (d', e)"
  shows "publishes d' (pub(p := None))"
  using pub setFileLocked_del(2) [OF set] release_publishes [OF pub own setFileLocked_del(3) [OF set]]
  by (simp add: publishes_def)

lemma publishes_put:
  assumes pub: "publishes d pub" and own: "\<forall>fi ow'. pub p = Some (fi, ow') \<longrightarrow> ow' = ow"
    and set: "setFileLocked d p (Some fi) ow = Return (d', e)"
  shows "publishes d' (pub(p \<mapsto> (fi, ow)))"
proof -
  have p: "p \<noteq> []" using set by (auto simp: setFileLocked_def)
  obtain root where
    s: "setFileLocked d p (Some fi) ow =
       go_bind (release d p ow)
         (\<lambda>own. Return (\<lparr>fileTree = root, owners = addOwner own (Hash fi) ow\<rparr>, None))"
    and l: "lookupFile root = (lookupFile (fileTree d))(p \<mapsto> fi)"
    using setFileLocked_put [OF p] by blast
  obtain own' where own': "release d p ow = Return own'"
    and d': "d' = \<lparr>fileTree = root, owners = addOwner own' (Hash fi) ow\<rparr>"
    using set s by (auto simp: go_bind_Return_iff)
  let ?pub = "pub(p := None)"
  note r = release_publishes [OF pub own own']
  have fin: "finite (heldBy ?pub h ow'')" for h ow''
    using pub by (intro finite_heldBy) (simp add: publishes_def)
  have "heldBy (pub(p \<mapsto> (fi, ow))) h ow'' =
      (if h = Hash fi \<and> ow'' = ow then insert p (heldBy ?pub h ow'') else heldBy ?pub h ow'')" for h ow''
    using heldBy_put [of ?pub p fi ow h ow''] by simp
  moreover have "p \<notin> heldBy ?pub h ow''" for h ow'' by (simp add: heldBy_None)
  ultimately show ?thesis
    using pub r fin owners_wf_addOwner [of own' "Hash fi" ow]
    by (auto simp: publishes_def d' l ownerCount_addOwner)
qed

lemma ownerCount_listed:
  "owners_wf own \<Longrightarrow> ownerCount own h ow \<noteq> 0 \<longleftrightarrow> ow \<in> fst ` set (map_get [] own h)"
  by (auto simp: ownerCount_def owners_wf_def map_get_def [of 0] map_of_None_iff split: option.splits
      dest: map_of_Some_key)

lemma publishes_GetOwners:
  assumes "publishes d pub"
  obtains os where "GetOwners d h = Inr os" and "distinct os" and "set os = {ow. heldBy pub h ow \<noteq> {}}"
proof
  let ?os = "map fst (map_get [] (owners d) h)"
  show "GetOwners d h = Inr ?os" by (simp add: GetOwners_def)
  show "distinct ?os" using assms by (simp add: publishes_def owners_wf_def)
  have "finite (heldBy pub h ow)" for ow
    using assms by (intro finite_heldBy) (simp add: publishes_def)
  then have "ownerCount (owners d) h ow \<noteq> 0 \<longleftrightarrow> heldBy pub h ow \<noteq> {}" for ow
    using assms by (simp add: publishes_def)
  moreover have "owners_wf (owners d)" using assms by (simp add: publishes_def)
  ultimately have "ow \<in> set ?os \<longleftrightarrow> heldBy pub h ow \<noteq> {}" for ow
    by (simp flip: ownerCount_listed)
  then show "set ?os = {ow. heldBy pub h ow \<noteq> {}}" by blast
qed

lemma publishes_new: "publishes newDatabase Map.empty"
  by (simp add: publishes_def newDatabase_def owners_wf_def ownerCount_def heldBy_def)


section \<open>Well-formed trees\<close>

text \<open>Every map in the tree has distinct keys.\<close>

fun wf_dir :: "directory \<Rightarrow> bool" where
  "wf_dir (Directory ds fs r) = (wf_map ds \<and> wf_map fs \<and> (\<forall>x \<in> set ds. wf_dir (snd x)))"

lemma wf_dirD: "wf_dir t \<Longrightarrow> wf_map (dirs t) \<and> wf_map (files t)"
  by (cases t) auto

lemma wf_dir_child: "wf_dir t \<Longrightarrow> map_of (dirs t) n = Some d \<Longrightarrow> wf_dir d"
  by (cases t) (force dest: map_of_SomeD)

lemma wf_dir_update_child:
  "wf_dir t \<Longrightarrow> wf_dir d \<Longrightarrow> wf_dir (Directory (AList.update n d (dirs t)) (files t) r)"
  using set_update_subset [of n d "dirs t"] by (cases t) auto

lemma wf_dir_emptyDir: "wf_dir emptyDir"
  by (simp add: emptyDir_def)

lemma wf_dir_file_ops:
  "wf_dir t \<Longrightarrow> wf_dir (putFile n fi t)" "wf_dir t \<Longrightarrow> wf_dir (removeFile n t)"
  "wf_dir t \<Longrightarrow> wf_dir (decRefs t)"
  by (cases t; simp add: putFile_def removeFile_def decRefs_def)+

declare wf_dir.simps [simp del]

lemma wf_dir_modifyDir:
  "wf_dir t \<Longrightarrow> (\<And>u. wf_dir u \<Longrightarrow> wf_dir (f u)) \<Longrightarrow> wf_dir (modifyDir ps f t)"
  by (induction ps arbitrary: t)
    (auto split: option.splits intro: wf_dir_update_child dest: wf_dir_child)

lemma wf_dir_enterDirs: "wf_dir t \<Longrightarrow> enterDirs del ps t = Some (root, u) \<Longrightarrow> wf_dir root"
  by (induction ps arbitrary: t root)
    (auto split: option.splits if_splits intro!: wf_dir_update_child intro: wf_dir_emptyDir
       dest: wf_dir_child)

lemma wf_dir_unwindTrace: "unwindTrace ex t i = Return t' \<Longrightarrow> wf_dir t \<Longrightarrow> wf_dir t'"
  by (auto simp: unwindTrace_eq Let_def split: if_splits option.splits
      simp del: modifyDir.simps intro: wf_dir_modifyDir wf_dir_file_ops)

text \<open>The three shapes the tree can have after SetFile returned.\<close>

lemma setFileLocked_treeE:
  assumes "setFileLocked d ex i ow = Return (d', e)"
  obtains (same) "i = None" "fileTree d' = fileTree d"
  | (put) fi root t where "i = Some fi" "enterDirs False (butlast ex) (fileTree d) = Some (root, t)"
      "fileTree d' = modifyDir (butlast ex) (putFile (last ex) fi) root"
  | (del) t where "i = None" "subdir (fileTree d) (butlast ex) = Some t"
      "map_of (files t) (last ex) \<noteq> None"
      "unwindTrace ex (modifyDir (butlast ex) (removeFile (last ex)) (fileTree d))
         (int (length ex - 1) - 1) = Return (fileTree d')"
proof (cases i)
  case None
  with assms show ?thesis
    using same del
    by (cases "subdir (fileTree d) (butlast ex)")
      (auto simp: setFileLocked_def enterDirs_deletion Let_def go_bind_Return_iff
        split: if_splits option.splits)
next
  case (Some fi)
  obtain root t where r: "enterDirs False (butlast ex) (fileTree d) = Some (root, t)"
    using enterDirs_create by blast
  with assms Some show ?thesis
    by (intro put [OF Some r]) (auto simp: setFileLocked_def Let_def go_bind_Return_iff split: if_splits)
qed

lemma wf_dir_setFileLocked:
  assumes "setFileLocked d ex i ow = Return (d', e)" and "wf_dir (fileTree d)"
  shows "wf_dir (fileTree d')"
  using assms(1)
proof (cases rule: setFileLocked_treeE)
  case (put fi root t)
  then show ?thesis
    using wf_dir_enterDirs [OF assms(2)] by (simp add: wf_dir_modifyDir wf_dir_file_ops)
next
  case (del t)
  then show ?thesis
    using assms(2) wf_dir_unwindTrace [OF del(4)] by (simp add: wf_dir_modifyDir wf_dir_file_ops)
qed (use assms(2) in simp)

lemma lookupFile_Some_iff:
  "lookupFile t q = Some fi \<longleftrightarrow>
     (\<exists>n. q = [n] \<and> map_of (files t) n = Some fi) \<or>
     (\<exists>n q' d. q = n # q' \<and> map_of (dirs t) n = Some d \<and> lookupFile d q' = Some fi)"
  by (cases "(t, q)" rule: lookupFile.cases) (auto split: option.splits)

lemma victimPaths_set:
  "wf_dir t \<Longrightarrow> p \<in> set (victimPaths t vs ps) \<longleftrightarrow>
     (\<exists>q fi. p = ps @ q \<and> lookupFile t q = Some fi \<and> Hash fi \<in> set vs)"
  "(\<forall>x \<in> set ds. wf_dir (snd x)) \<Longrightarrow> p \<in> set (victimDirs ds vs ps) \<longleftrightarrow>
     (\<exists>n t q fi. p = ps @ n # q \<and> (n, t) \<in> set ds \<and> lookupFile t q = Some fi \<and> Hash fi \<in> set vs)"
proof (induction t vs ps and ds vs ps rule: victimPaths_victimDirs.induct)
  case (1 ds fs r vs ps)
  then have ds: "map_of ds n = Some t \<longleftrightarrow> (n, t) \<in> set ds"
    and fs: "map_of fs n = Some fi \<longleftrightarrow> (n, fi) \<in> set fs" for n t fi
    by (simp_all add: map_of_eq_Some_iff wf_dir.simps)
  have "p \<in> set (victimDirs ds vs ps) \<longleftrightarrow>
     (\<exists>n t q fi. p = ps @ n # q \<and> (n, t) \<in> set ds \<and> lookupFile t q = Some fi \<and> Hash fi \<in> set vs)"
    using 1 by (simp add: wf_dir.simps)
  then show ?case
    by (subst lookupFile_Some_iff) (auto simp: ds fs image_iff, blast+)
qed auto


section \<open>PeerDisconnected on the abstract state\<close>

text \<open>
  A disconnected peer loses the files whose hash no other peer holds; the files whose hash somebody
  else holds too stay, still counted for the peer that left.
\<close>

definition soleOwner :: "(string list \<rightharpoonup> FileInfo \<times> string) \<Rightarrow> string \<Rightarrow> string \<Rightarrow> bool" where
  "soleOwner pub h ow \<longleftrightarrow> {ow'. heldBy pub h ow' \<noteq> {}} = {ow}"

definition withdraw ::
  "(string list \<rightharpoonup> FileInfo \<times> string) \<Rightarrow> string \<Rightarrow> (string list \<rightharpoonup> FileInfo \<times> string)" where
  "withdraw pub ow p =
     (case pub p of
        None \<Rightarrow> None
      | Some (fi, ow') \<Rightarrow> if soleOwner pub (Hash fi) ow then None else Some (fi, ow'))"

lemma single_key_iff:
  assumes "wf_map m"
  shows "map_of m k \<noteq> None \<and> length m = 1 \<longleftrightarrow> fst ` set m = {k}"
proof
  assume "map_of m k \<noteq> None \<and> length m = 1"
  then show "fst ` set m = {k}" by (auto simp: length_Suc_conv split: if_splits)
next
  assume k: "fst ` set m = {k}"
  have "length m = card (fst ` set m)" using assms by (metis distinct_card length_map set_map)
  with k show "map_of m k \<noteq> None \<and> length m = 1" by (simp only: map_of_None_iff) simp
qed

lemma disconnectTodo_iff:
  assumes "publishes d pub"
  shows "h \<in> set (disconnectTodo d ow) \<longleftrightarrow> soleOwner pub h ow"
proof -
  let ?m = "map_get [] (owners d) h"
  have wf: "wf_map (owners d)" "wf_map ?m" using assms by (auto simp: publishes_def owners_wf_def)
  have "h \<in> set (disconnectTodo d ow) \<longleftrightarrow> (\<exists>m. (h, m) \<in> set (owners d) \<and> map_of m ow \<noteq> None \<and> length m = 1)"
    by (force simp: disconnectTodo_def)
  also have "\<dots> \<longleftrightarrow> (\<exists>m. map_of (owners d) h = Some m \<and> map_of m ow \<noteq> None \<and> length m = 1)"
    by (simp only: map_of_eq_Some_iff [OF wf(1)])
  also have "\<dots> \<longleftrightarrow> map_of ?m ow \<noteq> None \<and> length ?m = 1"
    by (cases "map_of (owners d) h") (simp_all add: map_get_def)
  also have "\<dots> \<longleftrightarrow> fst ` set ?m = {ow}" by (rule single_key_iff [OF wf(2)])
  also have "\<dots> \<longleftrightarrow> soleOwner pub h ow"
    by (rule publishes_GetOwners [OF assms, of h]) (auto simp: GetOwners_def soleOwner_def)
  finally show ?thesis .
qed

lemma go_fold_delPath_publishes:
  assumes "go_fold (delPath ow) ps d = Return d'" and "publishes d pub"
    and "\<forall>p \<in> set ps. \<forall>fi ow'. pub p = Some (fi, ow') \<longrightarrow> ow' = ow"
  shows "publishes d' (\<lambda>p. if p \<in> set ps then None else pub p)"
  using assms
proof (induction ps arbitrary: d pub)
  case (Cons p ps)
  then obtain d1 where d1: "setFileLocked d p None ow = Return (d1, None)"
    and r: "go_fold (delPath ow) ps d1 = Return d'"
    by (auto simp: go_bind_Return_iff delPath_Return)
  have "publishes d1 (pub(p := None))"
    by (rule publishes_delete [OF Cons.prems(2) _ d1]) (use Cons.prems(3) in simp)
  then have "publishes d' (\<lambda>q. if q \<in> set ps then None else (pub(p := None)) q)"
    by (rule Cons.IH [OF r]) (use Cons.prems(3) in auto)
  then show ?case by (rule back_subst [of "publishes d'"]) auto
qed simp

lemma publishes_disconnect:
  assumes pub: "publishes d pub" and wf: "wf_dir (fileTree d)"
    and disc: "PeerDisconnected d ow = Return (d', e)"
  shows "publishes d' (withdraw pub ow)"
proof -
  let ?ps = "victimPaths (fileTree d) (disconnectTodo d ow) []"
  have look: "lookupFile (fileTree d) p = map_option fst (pub p)" for p
    using pub by (simp add: publishes_def)
  have ps: "p \<in> set ?ps \<longleftrightarrow> (\<exists>fi ow'. pub p = Some (fi, ow') \<and> soleOwner pub (Hash fi) ow)" for p
    using victimPaths_set(1) [OF wf, of p] disconnectTodo_iff [OF pub] by (auto simp: look)
  have "ow' = ow" if "pub p = Some (fi, ow')" and "soleOwner pub (Hash fi) ow" for p fi ow'
  proof -
    have "heldBy pub (Hash fi) ow' \<noteq> {}" using that(1) by (auto simp: heldBy_def)
    with that(2) show ?thesis by (auto simp: soleOwner_def)
  qed
  then have "\<forall>p \<in> set ?ps. \<forall>fi ow'. pub p = Some (fi, ow') \<longrightarrow> ow' = ow" by (auto simp: ps)
  moreover have "go_fold (delPath ow) ?ps d = Return d'"
    using disc by (auto simp: PeerDisconnected_fold go_bind_Return_iff)
  ultimately have "publishes d' (\<lambda>p. if p \<in> set ?ps then None else pub p)"
    using go_fold_delPath_publishes [OF _ pub] by blast
  then show ?thesis
    by (rule back_subst [of "publishes d'"]) (auto simp: withdraw_def ps split: option.splits)
qed


section \<open>Reference counts and the panic of a deletion\<close>

text \<open>
  The loop after a deletion runs only for paths of at most two components (its condition is
  \<^verbatim>\<open>0 >= i\<close>), so only the directories right below the root have their count decremented. Their
  counts are exact; \<open>tree_inv\<close> states this together with the shape of the tree.
\<close>

definition exact :: "directory \<Rightarrow> bool" where
  "exact t \<longleftrightarrow> refs t = int (length (dirs t)) + int (length (files t))"

definition tree_inv :: "Database \<Rightarrow> bool" where
  "tree_inv d \<longleftrightarrow> wf_dir (fileTree d) \<and> files (fileTree d) = [] \<and>
     (\<forall>u t. map_of (dirs (fileTree d)) u = Some t \<longrightarrow> exact t)"

lemma exact_emptyDir: "exact emptyDir"
  by (simp add: exact_def emptyDir_def)

lemma enterDirs_exact: "enterDirs del ps t = Some (root, u) \<Longrightarrow> exact t \<Longrightarrow> exact root"
  by (cases ps)
    (auto simp: exact_def length_update map_of_None_iff dest: map_of_Some_key
      split: option.splits if_splits)

lemma enterDirs_exact_children:
  "enterDirs del ps t = Some (root, u) \<Longrightarrow> (\<forall>n d. map_of (dirs t) n = Some d \<longrightarrow> exact d) \<Longrightarrow>
   \<forall>n d. map_of (dirs root) n = Some d \<longrightarrow> exact d"
  by (cases ps) (auto split: option.splits if_splits dest: enterDirs_exact intro: exact_emptyDir)

lemma enterDirs_files: "enterDirs del (p # ps) t = Some (root, u) \<Longrightarrow> files root = files t"
  by (auto split: option.splits if_splits)

lemma exact_modifyDir: "exact (modifyDir (p # ps) f t) = exact t"
  by (auto simp: exact_def length_update dest: map_of_Some_key split: option.splits)

lemma exact_modifyDir_children:
  assumes "\<forall>n d. map_of (dirs t) n = Some d \<longrightarrow> exact d"
    and "\<And>d. map_of (dirs t) p = Some d \<Longrightarrow> exact (modifyDir ps f d)"
  shows "\<forall>n d. map_of (dirs (modifyDir (p # ps) f t)) n = Some d \<longrightarrow> exact d"
  using assms by (auto split: option.splits)

lemma exact_putFile: "exact t \<Longrightarrow> exact (putFile n fi t)"
  by (auto simp: exact_def putFile_def length_update map_of_None_iff dest: map_of_Some_key)


lemma exact_removeFile:
  assumes "exact t" and "wf_map (files t)" and "map_of (files t) n \<noteq> None"
  shows "exact (decRefs (removeFile n t))"
proof -
  have "length (AList.delete n (files t)) = length (files t) - 1" and "0 < length (files t)"
    using assms(2,3) by (auto simp: length_delete map_of_None_iff)
  then show ?thesis using assms(1) by (simp add: exact_def decRefs_def removeFile_def of_nat_diff Suc_leI)
qed

lemma unwindTrace_deep: "2 < length ex \<Longrightarrow> unwindTrace ex root (int (length ex - 1) - 1) = Return root"
  by (simp add: unwindTrace_eq)

lemma modifyDir_twice: "modifyDir [u] g (modifyDir [u] f t) = modifyDir [u] (\<lambda>x. g (f x)) t"
  by (auto split: option.splits)

text \<open>The tree after a deletion that does not panic.\<close>

lemma tree_inv_deletion:
  assumes inv: "tree_inv d" and ex: "ex = u # w # ws" and t: "subdir (fileTree d) (butlast ex) = Some t" "map_of (files t) (last ex) \<noteq> None"
    and ret: "unwindTrace ex (modifyDir (butlast ex) (removeFile (last ex)) (fileTree d)) (int (length ex - 1) - 1) = Return root"
  shows "files root = [] \<and> (\<forall>n t. map_of (dirs root) n = Some t \<longrightarrow> exact t)"
proof (cases ws)
  case Nil
  have inv': "\<forall>n t. map_of (dirs (fileTree d)) n = Some t \<longrightarrow> exact t" "files (fileTree d) = []"
    using inv by (auto simp: tree_inv_def)
  have ex2: "ex = [u, w]" using Nil ex by simp
  then have tu: "map_of (dirs (fileTree d)) u = Some t" using t(1) by (auto split: option.splits)
  have "root = modifyDir [u] (\<lambda>x. decRefs (removeFile w x)) (fileTree d)"
    using ret ex2 by (auto simp: unwindTrace_eq modifyDir_twice Let_def simp del: modifyDir.simps split: option.splits if_splits)
  moreover have "exact (decRefs (removeFile w t))"
    using inv' tu t(2) ex2 inv wf_dirD [of t] wf_dir_child [OF _ tu]
    by (intro exact_removeFile) (auto simp: tree_inv_def)
  ultimately show ?thesis using inv' tu by auto
next
  case (Cons w' ws')
  have inv': "\<forall>n t. map_of (dirs (fileTree d)) n = Some t \<longrightarrow> exact t" "files (fileTree d) = []"
    using inv by (auto simp: tree_inv_def)
  have bl: "butlast ex = u # butlast (w # ws)" using ex by simp
  have r: "root = modifyDir (butlast ex) (removeFile (last ex)) (fileTree d)"
    using ret ex Cons by (simp add: unwindTrace_eq del: modifyDir.simps)
  have "\<forall>n t. map_of (dirs root) n = Some t \<longrightarrow> exact t"
    unfolding r bl using inv' Cons by (intro exact_modifyDir_children) (simp_all add: exact_modifyDir del: modifyDir.simps)
  moreover have "files root = []" using inv' unfolding r bl by (auto split: option.splits)
  ultimately show ?thesis by blast
qed

lemma tree_inv_setFileLocked:
  assumes set: "setFileLocked d ex i ow = Return (d', e)" and len: "2 \<le> length ex" and inv: "tree_inv d"
  shows "tree_inv d'"
proof -
  obtain u w ws where ex: "ex = u # w # ws" using len by (cases ex; cases "tl ex") auto
  then have bl: "butlast ex = u # butlast (w # ws)" by simp
  have wf: "wf_dir (fileTree d')" using set inv by (auto simp: tree_inv_def intro: wf_dir_setFileLocked)
  from set have "files (fileTree d') = [] \<and> (\<forall>n t. map_of (dirs (fileTree d')) n = Some t \<longrightarrow> exact t)"
  proof (cases rule: setFileLocked_treeE)
    case same
    then show ?thesis using inv by (simp add: tree_inv_def)
  next
    case (put fi root t)
    have c: "\<forall>n t. map_of (dirs root) n = Some t \<longrightarrow> exact t"
      using enterDirs_exact_children [OF put(2)] inv by (simp add: tree_inv_def)
    have "\<forall>n t. map_of (dirs (fileTree d')) n = Some t \<longrightarrow> exact t"
      unfolding put(3) bl
    proof (rule exact_modifyDir_children [OF c])
      fix t assume "map_of (dirs root) u = Some t"
      with c have "exact t" by blast
      then show "exact (modifyDir (butlast (w # ws)) (putFile (last ex) fi) t)"
        by (cases ws) (simp_all add: exact_putFile exact_modifyDir del: modifyDir.simps(2))
    qed
    moreover have "files (fileTree d') = []"
      using put(2) inv unfolding put(3) bl
      by (auto simp: tree_inv_def dest: enterDirs_files split: option.splits)
    ultimately show ?thesis by blast
  next
    case (del t)
    show ?thesis by (rule tree_inv_deletion [OF inv ex del(2-4)])
  qed
  with wf show ?thesis by (simp add: tree_inv_def)
qed

lemma tree_inv_new: "tree_inv newDatabase"
  by (simp add: tree_inv_def newDatabase_def wf_dir_emptyDir) (simp add: emptyDir_def)

text \<open>When a deletion panics.\<close>

lemma setFileLocked_del_Panic:
  assumes inv: "tree_inv d" "inmem_inv d" and len: "2 \<le> length ex"
  shows "setFileLocked d ex None ow = Panic \<longleftrightarrow>
    (\<exists>u f fi t. ex = [u, f] \<and> map_of (dirs (fileTree d)) u = Some t \<and> dirs t = [] \<and> files t = [(f, fi)])"
proof -
  obtain u w ws where ex: "ex = u # w # ws" using len by (cases ex; cases "tl ex") auto
  have ne: "ex \<noteq> []" using ex by simp
  obtain own where own: "release d ex ow = Return own" using release_total [OF inv(2)] by blast
  show ?thesis
  proof (cases "subdir (fileTree d) (butlast ex)")
    case None
    with ne have "setFileLocked d ex None ow = Return (d, None)"
      by (simp add: setFileLocked_def enterDirs_deletion)
    with None show ?thesis by auto
  next
    case (Some t)
    then have lk: "lookupFile (fileTree d) ex = map_of (files t) (last ex)"
      using ex by (subst lookupFile_subdir) auto
    have P: "setFileLocked d ex None ow = Panic \<longleftrightarrow>
      map_of (files t) (last ex) \<noteq> None \<and>
      unwindTrace ex (modifyDir (butlast ex) (removeFile (last ex)) (fileTree d)) (int (length ex - 1) - 1) = Panic"
      using Some ne own lk
      by (cases "map_of (files t) (last ex)")
        (simp_all add: setFileLocked_def enterDirs_deletion release_def go_bind_Panic_iff)
    show ?thesis
    proof (cases ws)
      case Nil
      with ex have ex2: "ex = [u, w]" by simp
      then have tu: "map_of (dirs (fileTree d)) u = Some t" using Some by (auto split: option.splits)
      then have t: "exact t" "wf_map (files t)"
        using inv wf_dirD [of t] wf_dir_child [OF _ tu] by (auto simp: tree_inv_def)
      have "unwindTrace ex (modifyDir (butlast ex) (removeFile (last ex)) (fileTree d))
          (int (length ex - 1) - 1) = Panic \<longleftrightarrow> length (dirs t) + length (files t) \<le> 1"
        unfolding ex2 using t tu
        by (auto simp: unwindTrace_eq modifyDir_twice Let_def decRefs_def removeFile_def exact_def)
      then have "setFileLocked d ex None ow = Panic \<longleftrightarrow>
          map_of (files t) w \<noteq> None \<and> length (dirs t) + length (files t) \<le> 1"
        using P ex2 by simp
      also have "\<dots> \<longleftrightarrow> dirs t = [] \<and> (\<exists>fi. files t = [(w, fi)])"
        by (cases "files t"; cases "dirs t") auto
      finally show ?thesis using ex2 tu by auto
    next
      case (Cons w' ws')
      then have "2 < length ex" using ex by simp
      then show ?thesis using P unwindTrace_deep by auto
    qed
  qed
qed

section \<open>Runs of the database against the abstract state\<close>

datatype db_op = OpSet "string list" "FileInfo option" string | OpDisconnect string

fun db_step :: "db_op \<Rightarrow> Database \<Rightarrow> Database go" where
  "db_step (OpSet p i ow) d = go_bind (SetFile d p i ow) (\<lambda>(d', e). Return d')"
| "db_step (OpDisconnect ow) d = go_bind (PeerDisconnected d ow) (\<lambda>(d', e). Return d')"

text \<open>
  The abstract step. The master prefixes every path with the user name, so a path has at least two
  components; a path is written by the peer that published it (\<open>None\<close> marks a step that breaks this).
\<close>

fun spec_step :: "db_op \<Rightarrow> (string list \<rightharpoonup> FileInfo \<times> string) \<Rightarrow> (string list \<rightharpoonup> FileInfo \<times> string) option"
where
  "spec_step (OpSet p i ow) pub =
     (if 2 \<le> length p \<and> (case pub p of None \<Rightarrow> True | Some (fi, ow') \<Rightarrow> ow' = ow)
      then Some (pub(p := map_option (\<lambda>fi. (fi, ow)) i)) else None)"
| "spec_step (OpDisconnect ow) pub = Some (withdraw pub ow)"

fun spec_run :: "db_op list \<Rightarrow> (string list \<rightharpoonup> FileInfo \<times> string) \<Rightarrow> (string list \<rightharpoonup> FileInfo \<times> string) option"
where
  "spec_run [] pub = Some pub"
| "spec_run (x # xs) pub = (case spec_step x pub of None \<Rightarrow> None | Some pub' \<Rightarrow> spec_run xs pub')"

lemma tree_inv_delPath: "delPath ow p d = Return d' \<Longrightarrow> 2 \<le> length p \<Longrightarrow> tree_inv d \<Longrightarrow> tree_inv d'"
  by (auto simp: delPath_Return intro: tree_inv_setFileLocked)

lemma victim_length:
  "tree_inv d \<Longrightarrow> p \<in> set (victimPaths (fileTree d) vs []) \<Longrightarrow> 2 \<le> length p"
proof -
  assume t: "tree_inv d" and p: "p \<in> set (victimPaths (fileTree d) vs [])"
  then obtain fi where "lookupFile (fileTree d) p = Some fi"
    by (auto simp: tree_inv_def victimPaths_set)
  then show ?thesis
    using t by (cases "(fileTree d, p)" rule: lookupFile.cases) (auto simp: tree_inv_def)
qed

lemma tree_inv_disconnect:
  assumes "PeerDisconnected d ow = Return (d', e)" and "tree_inv d"
  shows "tree_inv d'"
proof -
  have "go_fold (delPath ow) (victimPaths (fileTree d) (disconnectTodo d ow) []) d = Return d'"
    using assms(1) by (auto simp: PeerDisconnected_fold go_bind_Return_iff)
  then show ?thesis
    by (rule go_fold_inv [where P = tree_inv])
      (use assms(2) victim_length in \<open>auto intro: tree_inv_delPath\<close>)
qed

lemma step_refines:
  assumes "db_step x d = Return d'" and "spec_step x pub = Some pub'"
    and "publishes d pub" and "tree_inv d"
  shows "publishes d' pub' \<and> tree_inv d'"
proof (cases x)
  case (OpSet p i ow)
  then obtain e where s: "setFileLocked d p i ow = Return (d', e)"
    using assms(1) by (auto simp: SetFile_def go_bind_Return_iff)
  have own: "\<forall>fi ow'. pub p = Some (fi, ow') \<longrightarrow> ow' = ow" and len: "2 \<le> length p"
    and pub': "pub' = pub(p := map_option (\<lambda>fi. (fi, ow)) i)"
    using assms(2) OpSet by (auto split: if_splits)
  have "publishes d' pub'"
    using s publishes_put [OF assms(3) own] publishes_delete [OF assms(3) own]
    by (cases i) (auto simp: pub')
  then show ?thesis using tree_inv_setFileLocked [OF s len assms(4)] by simp
next
  case (OpDisconnect ow)
  then obtain e where s: "PeerDisconnected d ow = Return (d', e)"
    using assms(1) by (auto simp: go_bind_Return_iff)
  then show ?thesis
    using OpDisconnect assms tree_inv_disconnect publishes_disconnect by (auto simp: tree_inv_def)
qed

lemma run_refines:
  "go_fold db_step xs d = Return d' \<Longrightarrow> spec_run xs pub = Some pub' \<Longrightarrow> publishes d pub \<Longrightarrow> tree_inv d \<Longrightarrow>
   publishes d' pub' \<and> tree_inv d'"
proof (induction xs arbitrary: d pub)
  case (Cons x xs)
  then obtain d1 pub1 where "db_step x d = Return d1" "go_fold db_step xs d1 = Return d'"
    "spec_step x pub = Some pub1" "spec_run xs pub1 = Some pub'"
    by (auto simp: go_bind_Return_iff split: option.splits)
  then show ?case using step_refines Cons.IH Cons.prems(3,4) by blast
qed simp


lemma reachable_publishes:
  "go_fold db_step xs newDatabase = Return d \<Longrightarrow> spec_run xs Map.empty = Some pub \<Longrightarrow>
   publishes d pub \<and> tree_inv d"
  using run_refines publishes_new tree_inv_new by blast

lemma getDirWalk_subdir:
  "(\<forall>p \<in> set ps. \<not> bad_part p) \<Longrightarrow>
   getDirWalk t ps = (case subdir t ps of None \<Rightarrow> Inl ENOENT | Some d \<Rightarrow> Inr d)"
  by (induction ps arbitrary: t) (auto split: option.splits)

text \<open>\<^verbatim>\<open>GetDir\<close> on the path of a directory whose components pass the check.\<close>

lemma GetDir_joined:
  assumes "\<forall>p \<in> set ps. \<not> bad_part p \<and> CHR ''/'' \<notin> set p"
  shows "GetDir d (joinWith ''/'' ps) =
    (case subdir (fileTree d) ps of None \<Rightarrow> Inl ENOENT | Some t \<Rightarrow> Inr (files t, map fst (dirs t)))"
proof -
  have "(if joinWith ''/'' ps = [] then [] else splitOn (CHR ''/'') (joinWith ''/'' ps)) = ps"
  proof (cases ps)
    case (Cons p qs)
    then have "p \<noteq> []" using assms by (auto simp: bad_part_def)
    then have "joinWith ''/'' ps \<noteq> []" using Cons by (cases qs) auto
    moreover have "splitOn (CHR ''/'') (joinWith ''/'' ps) = ps"
      by (rule splitOn_joinWith) (use Cons assms in auto)
    ultimately show ?thesis by simp
  qed simp
  then show ?thesis
    using assms by (auto simp: GetDir_def Let_def getDirWalk_subdir split: option.splits)
qed


lemma SetFile_GetDir_lemma:
  assumes "inmem_inv d" and "\<forall>p \<in> set ps. \<not> bad_part p \<and> CHR ''/'' \<notin> set p"
  shows "\<exists>d' fs ds. SetFile d (ps @ [f]) (Some fi) ow = Return (d', None) \<and> inmem_inv d' \<and>
    GetDir d' (joinWith ''/'' ps) = Inr (fs, ds) \<and> map_of fs f = Some fi \<and>
    (\<forall>q. q \<noteq> ps @ [f] \<longrightarrow> lookupFile (fileTree d') q = lookupFile (fileTree d) q)"
proof -
  obtain d' where d': "setFileLocked d (ps @ [f]) (Some fi) ow = Return (d', None)"
    and l: "lookupFile (fileTree d') = (lookupFile (fileTree d))(ps @ [f] \<mapsto> fi)" and i: "inmem_inv d'"
    using setFileLocked_put_ok [OF assms(1), of "ps @ [f]" fi ow] by auto
  from l have "lookupFile (fileTree d') (ps @ [f]) = Some fi" by simp
  then obtain t where "subdir (fileTree d') ps = Some t" and "map_of (files t) f = Some fi"
    by (auto simp: lookupFile_subdir split: option.splits)
  with d' l i assms(2) show ?thesis by (simp add: SetFile_def GetDir_joined)
qed


section \<open>Properties\<close>

text \<open>
  C2. Publishing a file through \<^verbatim>\<open>SetFile\<close> succeeds on every database whose owner table covers the
  published hashes, and the listing \<^verbatim>\<open>GetDir\<close> of its directory then holds the file with exactly the
  metadata that was published; the file at every other path is unchanged.
\<close>

theorem SetFile_GetDir:
  assumes "inmem_inv d" and "\<forall>p \<in> set ps. \<not> bad_part p \<and> CHR ''/'' \<notin> set p"
  shows "\<exists>d' fs ds. SetFile d (ps @ [f]) (Some fi) ow = Return (d', None) \<and> inmem_inv d' \<and>
    GetDir d' (joinWith ''/'' ps) = Inr (fs, ds) \<and> map_of fs f = Some fi \<and>
    (\<forall>q. q \<noteq> ps @ [f] \<longrightarrow> lookupFile (fileTree d') q = lookupFile (fileTree d) q)"
  using SetFile_GetDir_lemma [OF assms] .

theorem SetFile_GetDir_witness:
  "\<exists>d' fs ds. SetFile newDatabase [''alice'', ''docs'', ''a.txt''] (Some \<lparr>Size = 3, Hash = ''h1'', Mtime = 0\<rparr>) ''alice@1.2.3.4:1667''
      = Return (d', None) \<and> inmem_inv d' \<and> GetDir d' ''alice/docs'' = Inr (fs, ds) \<and>
    map_of fs ''a.txt'' = Some \<lparr>Size = 3, Hash = ''h1'', Mtime = 0\<rparr>"
proof -
  have i: "inmem_inv newDatabase" by (simp add: inmem_inv_def newDatabase_def)
  have p: "\<forall>p \<in> set [''alice'', ''docs'']. \<not> bad_part p \<and> CHR ''/'' \<notin> set p"
    by (simp add: bad_part_def)
  show ?thesis
    using SetFile_GetDir [OF i p, of "''a.txt''" "\<lparr>Size = 3, Hash = ''h1'', Mtime = 0\<rparr>"
        "''alice@1.2.3.4:1667''"]
    by auto
qed

text \<open>
  C3. Refinement. After any sequence of \<^verbatim>\<open>SetFile\<close> and \<^verbatim>\<open>PeerDisconnected\<close> calls that do not panic, in
  which paths have at least two components and each path is written only by the peer that published
  it, the tree holds exactly the files of the abstract run, and \<^verbatim>\<open>GetOwners\<close> lists for a hash, without
  repetition, exactly the peers that the abstract run has holding a file with it. In the abstract
  run a disconnect withdraws a peer's files whose hash nobody else holds (\<open>withdraw\<close>); the peer remains
  a holder of the others, as the code has it.
\<close>

theorem inmem_refines:
  assumes "go_fold db_step xs newDatabase = Return d" and "spec_run xs Map.empty = Some pub"
  shows "(\<forall>p. lookupFile (fileTree d) p = map_option fst (pub p)) \<and>
    (\<exists>os. GetOwners d h = Inr os \<and> distinct os \<and>
       set os = {ow. \<exists>p fi. pub p = Some (fi, ow) \<and> Hash fi = h})"
proof -
  have p: "publishes d pub" using reachable_publishes [OF assms] by simp
  have "{ow. heldBy pub h ow \<noteq> {}} = {ow. \<exists>p fi. pub p = Some (fi, ow) \<and> Hash fi = h}"
    by (auto simp: heldBy_def)
  then show ?thesis
    using p by (intro conjI) (auto simp: publishes_def intro: publishes_GetOwners [OF p, of h])
qed

lemma owners_of_two:
  "p \<noteq> q \<Longrightarrow> {ow. \<exists>x fi. ([p \<mapsto> (f1, o1), q \<mapsto> (f2, o2)]) x = Some (fi, ow) \<and> Hash fi = h} =
     (if Hash f1 = h then {o1} else {}) \<union> (if Hash f2 = h then {o2} else {})"
  by (auto split: if_splits)

theorem inmem_refines_witness:
  "\<exists>d os. go_fold db_step
     [OpSet [''al'', ''d'', ''x''] (Some \<lparr>Size = 1, Hash = ''h'', Mtime = 0\<rparr>) ''al@a'',
      OpSet [''bo'', ''d'', ''y''] (Some \<lparr>Size = 1, Hash = ''h'', Mtime = 0\<rparr>) ''bo@b''] newDatabase = Return d \<and>
    GetOwners d ''h'' = Inr os \<and> distinct os \<and> set os = {''al@a'', ''bo@b''}"
proof -
  let ?fi = "\<lparr>Size = 1, Hash = ''h'', Mtime = 0\<rparr>"
  let ?xs = "[OpSet [''al'', ''d'', ''x''] (Some ?fi) ''al@a'', OpSet [''bo'', ''d'', ''y''] (Some ?fi) ''bo@b'']"
  have "go_fold db_step ?xs newDatabase \<noteq> Panic" by code_simp
  then obtain d where d: "go_fold db_step ?xs newDatabase = Return d" by (auto simp: not_Panic_iff)
  have s: "spec_run ?xs Map.empty = Some ([[''al'', ''d'', ''x''] \<mapsto> (?fi, ''al@a''), [''bo'', ''d'', ''y''] \<mapsto> (?fi, ''bo@b'')])"
    by simp
  have "{ow. \<exists>p fi. ([[''al'', ''d'', ''x''] \<mapsto> (?fi, ''al@a''), [''bo'', ''d'', ''y''] \<mapsto> (?fi, ''bo@b'')]) p
      = Some (fi, ow) \<and> Hash fi = ''h''} = {''al@a'', ''bo@b''}"
    by (subst owners_of_two) auto
  with inmem_refines [OF d s, of "''h''"] obtain os
    where "GetOwners d ''h'' = Inr os" and "distinct os" and "set os = {''al@a'', ''bo@b''}"
    by (elim conjE exE) simp
  with d show ?thesis by blast
qed



text \<open>
  C34. A disconnect does not withdraw shared content: when another peer holds a file with the same
  hash, \<^verbatim>\<open>PeerDisconnected\<close> leaves the file of the peer that left in the tree, and \<^verbatim>\<open>GetOwners\<close> still
  lists that peer for the hash.
\<close>

theorem disconnect_keeps_shared_owner:
  assumes "go_fold db_step xs newDatabase = Return d" and "spec_run xs Map.empty = Some pub"
    and "PeerDisconnected d ow = Return (d', e)"
    and "pub p = Some (fi, ow)" and "pub q = Some (fj, ow')" and "ow' \<noteq> ow" and "Hash fj = Hash fi"
  shows "lookupFile (fileTree d') p = Some fi \<and> (\<exists>os. GetOwners d' (Hash fi) = Inr os \<and> ow \<in> set os)"
proof -
  have p: "publishes d pub" and t: "wf_dir (fileTree d)"
    using reachable_publishes [OF assms(1,2)] by (auto simp: tree_inv_def)
  have p': "publishes d' (withdraw pub ow)" by (rule publishes_disconnect [OF p t assms(3)])
  have "\<not> soleOwner pub (Hash fi) ow" using assms(5-7) by (auto simp: soleOwner_def heldBy_def)
  then have w: "withdraw pub ow p = Some (fi, ow)" using assms(4) by (simp add: withdraw_def)
  then have "heldBy (withdraw pub ow) (Hash fi) ow \<noteq> {}" by (auto simp: heldBy_def)
  moreover obtain os where "GetOwners d' (Hash fi) = Inr os"
    and "set os = {ow'. heldBy (withdraw pub ow) (Hash fi) ow' \<noteq> {}}"
    by (rule publishes_GetOwners [OF p'])
  ultimately show ?thesis using p' w by (simp add: publishes_def)
qed

theorem disconnect_keeps_shared_owner_witness:
  "\<exists>d d'. go_fold db_step
     [OpSet [''al'', ''d'', ''x''] (Some \<lparr>Size = 1, Hash = ''h'', Mtime = 0\<rparr>) ''al@a'',
      OpSet [''bo'', ''d'', ''y''] (Some \<lparr>Size = 1, Hash = ''h'', Mtime = 0\<rparr>) ''bo@b''] newDatabase = Return d \<and>
    PeerDisconnected d ''al@a'' = Return (d', None) \<and>
    lookupFile (fileTree d') [''al'', ''d'', ''x''] = Some \<lparr>Size = 1, Hash = ''h'', Mtime = 0\<rparr> \<and>
    (\<exists>os. GetOwners d' ''h'' = Inr os \<and> ''al@a'' \<in> set os)"
proof -
  let ?fi = "\<lparr>Size = 1, Hash = ''h'', Mtime = 0\<rparr>"
  let ?xs = "[OpSet [''al'', ''d'', ''x''] (Some ?fi) ''al@a'', OpSet [''bo'', ''d'', ''y''] (Some ?fi) ''bo@b'']"
  have "go_fold db_step (?xs @ [OpDisconnect ''al@a'']) newDatabase \<noteq> Panic" by code_simp
  then obtain d d' e where d: "go_fold db_step ?xs newDatabase = Return d"
    and d': "PeerDisconnected d ''al@a'' = Return (d', e)"
    by (auto simp: not_Panic_iff go_bind_Return_iff)
  have e: "e = None" using d' by (auto simp: PeerDisconnected_fold go_bind_Return_iff)
  have s: "spec_run ?xs Map.empty = Some ([[''al'', ''d'', ''x''] \<mapsto> (?fi, ''al@a''), [''bo'', ''d'', ''y''] \<mapsto> (?fi, ''bo@b'')])"
    by simp
  show ?thesis
    using disconnect_keeps_shared_owner [OF d s d', of "[''al'', ''d'', ''x'']" ?fi "[''bo'', ''d'', ''y'']" ?fi "''bo@b''"]
      d d' e by auto
qed

text \<open>
  C33. When a deletion crashes the master: in every reachable database, \<^verbatim>\<open>SetFile\<close> with a nil
  \<^verbatim>\<open>FileInfo\<close> panics exactly when the file is the only entry of a directory right below the root.
\<close>

theorem delete_panics_iff:
  assumes "go_fold db_step xs newDatabase = Return d" and "spec_run xs Map.empty = Some pub"
    and "2 \<le> length ex"
  shows "SetFile d ex None ow = Panic \<longleftrightarrow>
    (\<exists>u f fi t. ex = [u, f] \<and> map_of (dirs (fileTree d)) u = Some t \<and> dirs t = [] \<and> files t = [(f, fi)])"
  using reachable_publishes [OF assms(1,2)] assms(3) publishes_inv
  by (auto simp: SetFile_def setFileLocked_del_Panic)

theorem delete_panics_iff_witness:
  "\<exists>d. go_fold db_step [OpSet [''al'', ''x''] (Some \<lparr>Size = 1, Hash = ''h'', Mtime = 0\<rparr>) ''al@a''] newDatabase = Return d \<and>
    SetFile d [''al'', ''x''] None ''al@a'' = Panic"
proof -
  let ?fi = "\<lparr>Size = 1, Hash = ''h'', Mtime = 0\<rparr>"
  let ?xs = "[OpSet [''al'', ''x''] (Some ?fi) ''al@a'']"
  let ?d = "\<lparr>fileTree = Directory [(''al'', Directory [] [(''x'', ?fi)] 1)] [] 1, owners = [(''h'', [(''al@a'', 1)])]\<rparr>"
  have d: "go_fold db_step ?xs newDatabase = Return ?d" by code_simp
  have s: "spec_run ?xs Map.empty = Some ([[''al'', ''x''] \<mapsto> (?fi, ''al@a'')])" by simp
  show ?thesis using delete_panics_iff [OF d s, of "[''al'', ''x'']" "''al@a''"] d by auto
qed

text \<open>
  A client that shares one file at the top of its share crashes the master when it disconnects,
  whatever the names, the metadata and the identity of the peer are.
\<close>

theorem disconnect_of_single_file_panics:
  "go_fold db_step [OpSet [u, f] (Some fi) ow, OpDisconnect ow] newDatabase = Panic"
proof -
  let ?d = "\<lparr>fileTree = Directory [(u, Directory [] [(f, fi)] 1)] [] 1, owners = [(Hash fi, [(ow, 1)])]\<rparr>"
  have "SetFile newDatabase [u, f] (Some fi) ow = Return (?d, None)"
    by (simp add: SetFile_def setFileLocked_def newDatabase_def emptyDir_def addOwner_def putFile_def)
  moreover have "setFileLocked ?d [u, f] None ow = Panic"
    by (simp add: setFileLocked_def enterDirs_deletion dropOwner_def map_get_def unwindTrace_eq
        decRefs_def removeFile_def Let_def)
  moreover have "victimPaths (fileTree ?d) (disconnectTodo ?d ow) [] = [[u, f]]"
    by (simp add: disconnectTodo_def)
  ultimately show ?thesis by (simp add: PeerDisconnected_fold delPath_def)
qed

text \<open>
  A second identity of the same user corrupts the owner table: when a file published under one
  identity is published again with another hash under a second one, the second identity is listed
  as an owner of the first hash, which it never published.
\<close>

theorem second_identity_listed_for_foreign_hash:
  assumes "a \<noteq> b" and "Hash fi \<noteq> Hash fj"
  shows "\<exists>d. go_fold db_step [OpSet [u, f] (Some fi) a, OpSet [u, f] (Some fj) b] newDatabase = Return d \<and>
    GetOwners d (Hash fi) = Inr [a, b] \<and> GetOwners d (Hash fj) = Inr [b]"
  using assms
  by (simp add: SetFile_def setFileLocked_def newDatabase_def emptyDir_def addOwner_def putFile_def
      dropOwner_def map_get_def GetOwners_def)

theorem second_identity_listed_for_foreign_hash_witness:
  "\<exists>d. go_fold db_step [OpSet [''al'', ''x''] (Some \<lparr>Size = 1, Hash = ''h'', Mtime = 0\<rparr>) ''al@a'',
      OpSet [''al'', ''x''] (Some \<lparr>Size = 1, Hash = ''k'', Mtime = 0\<rparr>) ''al@b''] newDatabase = Return d \<and>
    GetOwners d ''h'' = Inr [''al@a'', ''al@b'']"
  using second_identity_listed_for_foreign_hash [of "''al@a''" "''al@b''" "\<lparr>Size = 1, Hash = ''h'', Mtime = 0\<rparr>"
      "\<lparr>Size = 1, Hash = ''k'', Mtime = 0\<rparr>" "''al''" "''x''"]
  by auto

end
