(* ===== verification/Crypto.thy ===== *)
theory Crypto
  imports Rufs_Types
begin

unbundle bit_operations_syntax

text \<open>
  Keys, certificates and tokens, \<^verbatim>\<open>crypto.go\<close>. The cryptographic primitives of the standard library
  (\<^verbatim>\<open>crypto/sha1\<close>, \<^verbatim>\<open>crypto/rsa\<close>, \<^verbatim>\<open>crypto/x509\<close>, \<^verbatim>\<open>encoding/pem\<close>) are the fields of the record
  \<open>crypto_env\<close>, an argument of the definitions; the theorems that rely on a documented property of
  one of them state it as a hypothesis. The files the functions read and write are the argument
  \<open>fs\<close>, a map from path to contents.
\<close>

section \<open>Data\<close>

text \<open>The fields of \<^verbatim>\<open>x509.Certificate\<close> that the templates set. The key usage is a bit mask.\<close>

record cert_template =
  SerialNumber :: int
  CommonName :: string
  Organization :: "string list"
  NotBefore :: int
  NotAfter :: int
  ExtKeyUsageServerAuth :: bool
  ExtKeyUsageClientAuth :: bool
  KeyUsage :: int
  BasicConstraintsValid :: bool
  IsCA :: bool

definition KeyUsageDigitalSignature :: int where "KeyUsageDigitalSignature = 1"
definition KeyUsageKeyEncipherment :: int where "KeyUsageKeyEncipherment = 4"
definition KeyUsageCertSign :: int where "KeyUsageCertSign = 32"

type_synonym filesys = "(string, string) gomap"

text \<open>
  What the environment decides: randomness, the clock, the results of the primitives, and which
  writes fail. \<open>'k\<close> are private keys, \<open>'p\<close> public keys, \<open>'c\<close> parsed certificates.
\<close>

record ('k, 'p, 'c) crypto_env =
  randInt :: "go_error + int"
  timeNow :: int
  addDate :: "int \<Rightarrow> int \<Rightarrow> int \<Rightarrow> int \<Rightarrow> int"
  generateKey :: "go_error + 'k"
  publicKey :: "'k \<Rightarrow> 'p"
  marshalPKCS1 :: "'k \<Rightarrow> string"
  parsePKCS1 :: "string \<Rightarrow> go_error + 'k"
  marshalPKIX :: "'p \<Rightarrow> go_error + string"
  parsePKIX :: "string \<Rightarrow> go_error + 'p"
  selfSign :: "cert_template \<Rightarrow> 'p \<Rightarrow> 'k \<Rightarrow> go_error + string"
  signWith :: "cert_template \<Rightarrow> 'c \<Rightarrow> 'p \<Rightarrow> 'k \<Rightarrow> go_error + string"
  parseCertificate :: "string \<Rightarrow> go_error + 'c"
  pemEncode :: "string \<Rightarrow> string \<Rightarrow> string"
  pemDecode :: "string \<Rightarrow> (string \<times> string) option"
  openErr :: "string \<Rightarrow> go_error option"
  writeErr :: "string \<Rightarrow> go_error option"
  closeErr :: "string \<Rightarrow> go_error option"
  sha1 :: "string \<Rightarrow> string"

record ('k, 'c) MasterVault =
  ca :: 'c
  priv :: 'k


section \<open>Templates and signing\<close>

definition createCertTemplate :: "('k, 'p, 'c) crypto_env \<Rightarrow> bool \<Rightarrow> string \<Rightarrow> cert_template go" where
  "createCertTemplate env isCA name =
     (case randInt env of
        Inl e \<Rightarrow> Panic
      | Inr serial \<Rightarrow>
          let cert = \<lparr>SerialNumber = serial, CommonName = name, Organization = [''RUFS''],
                      NotBefore = timeNow env, NotAfter = addDate env (timeNow env) 10 0 0,
                      ExtKeyUsageServerAuth = True, ExtKeyUsageClientAuth = True,
                      KeyUsage = KeyUsageKeyEncipherment OR KeyUsageDigitalSignature,
                      BasicConstraintsValid = True, IsCA = False\<rparr>
          in Return (if isCA then cert\<lparr>IsCA := True, KeyUsage := KeyUsage cert OR KeyUsageCertSign\<rparr>
                     else cert))"

definition signClient ::
  "('k, 'p, 'c) crypto_env \<Rightarrow> ('k, 'c) MasterVault \<Rightarrow> string \<Rightarrow> string \<Rightarrow> (go_error + string) go" where
  "signClient env mv pub name =
     (case parsePKIX env pub of
        Inl e \<Rightarrow> Return (Inl e)
      | Inr pk \<Rightarrow>
          go_bind (createCertTemplate env False name)
            (\<lambda>t. Return (case signWith env t (ca mv) pk (priv mv) of
                           Inl e \<Rightarrow> Inl e
                         | Inr cert \<Rightarrow> Inr (pemEncode env ''CERTIFICATE'' cert))))"

definition createAuthToken :: "('k, 'p, 'c) crypto_env \<Rightarrow> ('k, 'c) MasterVault \<Rightarrow> string \<Rightarrow> string" where
  "createAuthToken env mv user = hexBytes (sha1 env (user @ [NUL] @ marshalPKCS1 env (priv mv)))"


section \<open>Key files\<close>

text \<open>\<^verbatim>\<open>pemToFile\<close>: exclusive creation, removal of the file when the write or the close fails.\<close>

definition pemToFile ::
  "('k, 'p, 'c) crypto_env \<Rightarrow> filesys \<Rightarrow> string \<Rightarrow> string \<Rightarrow> string \<Rightarrow> filesys \<times> go_error option" where
  "pemToFile env fs fn pemType data =
     (if map_of fs fn \<noteq> None then (fs, Some (OsError ''file exists''))
      else if openErr env fn \<noteq> None then (fs, openErr env fn)
      else case writeErr env fn of
        Some e \<Rightarrow> (AList.delete fn fs, Some e)
      | None \<Rightarrow>
          (case closeErr env fn of
             Some e \<Rightarrow> (AList.delete fn fs, Some e)
           | None \<Rightarrow> (AList.update fn (pemEncode env pemType data) fs, None)))"

definition pemFromFile ::
  "('k, 'p, 'c) crypto_env \<Rightarrow> filesys \<Rightarrow> string \<Rightarrow> string \<Rightarrow> go_error + string" where
  "pemFromFile env fs fn pemType =
     (case map_of fs fn of
        None \<Rightarrow> Inl (OsError ''no such file'')
      | Some data \<Rightarrow>
          (case pemDecode env data of
             None \<Rightarrow> Inl (OsError ''no PEM block found'')
           | Some (ty, bytes) \<Rightarrow>
               if ty \<noteq> pemType then Inl (OsError ''unexpected PEM type'') else Inr bytes))"

definition createKeyPair ::
  "('k, 'p, 'c) crypto_env \<Rightarrow> filesys \<Rightarrow> string \<Rightarrow> filesys \<times> (go_error + 'k)" where
  "createKeyPair env fs fn =
     (case generateKey env of
        Inl e \<Rightarrow> (fs, Inl e)
      | Inr k \<Rightarrow>
          (case pemToFile env fs fn ''RSA PRIVATE KEY'' (marshalPKCS1 env k) of
             (fs', Some e) \<Rightarrow> (fs', Inl e)
           | (fs', None) \<Rightarrow> (fs', Inr k)))"

definition serializePubKey :: "('k, 'p, 'c) crypto_env \<Rightarrow> 'k \<Rightarrow> go_error + string" where
  "serializePubKey env k = marshalPKIX env (publicKey env k)"

text \<open>The names \<^verbatim>\<open>filepath.Join(dir, "ca.key")\<close> and \<^verbatim>\<open>filepath.Join(dir, "ca.crt")\<close> are arguments.\<close>

definition createCA ::
  "('k, 'p, 'c) crypto_env \<Rightarrow> filesys \<Rightarrow> string \<Rightarrow> string \<Rightarrow> string \<Rightarrow> (filesys \<times> go_error option) go" where
  "createCA env fs keyfn crtfn name =
     go_bind (createCertTemplate env True name)
       (\<lambda>t. Return
          (case createKeyPair env fs keyfn of
             (fs1, Inl e) \<Rightarrow> (fs1, Some e)
           | (fs1, Inr k) \<Rightarrow>
               (case selfSign env t (publicKey env k) k of
                  Inl e \<Rightarrow> (AList.delete keyfn fs1, Some e)
                | Inr cert \<Rightarrow>
                    (case pemToFile env fs1 crtfn ''CERTIFICATE'' cert of
                       (fs2, Some e) \<Rightarrow> (AList.delete keyfn fs2, Some e)
                     | (fs2, None) \<Rightarrow> (fs2, None)))))"

definition loadCertificate :: "('k, 'p, 'c) crypto_env \<Rightarrow> filesys \<Rightarrow> string \<Rightarrow> go_error + 'c" where
  "loadCertificate env fs fn =
     (case pemFromFile env fs fn ''CERTIFICATE'' of
        Inl e \<Rightarrow> Inl e
      | Inr bytes \<Rightarrow> parseCertificate env bytes)"

definition loadMasterVault ::
  "('k, 'p, 'c) crypto_env \<Rightarrow> filesys \<Rightarrow> string \<Rightarrow> string \<Rightarrow> go_error + ('k, 'c) MasterVault" where
  "loadMasterVault env fs keyfn crtfn =
     (case loadCertificate env fs crtfn of
        Inl e \<Rightarrow> Inl e
      | Inr c \<Rightarrow>
          (case pemFromFile env fs keyfn ''RSA PRIVATE KEY'' of
             Inl e \<Rightarrow> Inl e
           | Inr bytes \<Rightarrow>
               (case parsePKCS1 env bytes of
                  Inl e \<Rightarrow> Inl e
                | Inr k \<Rightarrow> Inr \<lparr>ca = c, priv = k\<rparr>)))"


section \<open>TLS configuration\<close>

datatype tlsConfigType = TlsConfigMaster | TlsConfigMasterClient | TlsConfigServer | TlsConfigServerClient

datatype client_auth = NoClientCert | VerifyClientCertIfGiven | RequireAndVerifyClientCert

record ('c, 'k) tls_config =
  RootCAs :: "'c list"
  ClientCAs :: "'c list"
  ServerName :: string
  Certificates :: "('c \<times> 'k) list"
  ClientAuth :: client_auth
  PreferServerCipherSuites :: bool

definition getTlsConfig ::
  "tlsConfigType \<Rightarrow> 'c \<Rightarrow> ('c \<times> 'k) option \<Rightarrow> string \<Rightarrow> ('c, 'k) tls_config" where
  "getTlsConfig mode c cert serverName =
     (let cfg = \<lparr>RootCAs = [c], ClientCAs = [c], ServerName = serverName,
                 Certificates = (case cert of None \<Rightarrow> [] | Some x \<Rightarrow> [x]),
                 ClientAuth = NoClientCert, PreferServerCipherSuites = False\<rparr>
      in case mode of
           TlsConfigMaster \<Rightarrow> cfg\<lparr>ClientAuth := VerifyClientCertIfGiven, PreferServerCipherSuites := True\<rparr>
         | TlsConfigMasterClient \<Rightarrow> cfg\<lparr>ClientAuth := VerifyClientCertIfGiven, PreferServerCipherSuites := True\<rparr>
         | TlsConfigServer \<Rightarrow> cfg\<lparr>ClientAuth := RequireAndVerifyClientCert\<rparr>
         | TlsConfigServerClient \<Rightarrow> cfg\<lparr>ClientAuth := RequireAndVerifyClientCert\<rparr>)"

definition getTlsCert :: "('k, 'c) MasterVault \<Rightarrow> 'c \<times> 'k" where
  "getTlsCert mv = (ca mv, priv mv)"


section \<open>Lemmas\<close>

lemma pemToFile_ok:
  "pemToFile env fs fn ty data = (fs', None) \<Longrightarrow>
   map_of fs fn = None \<and> fs' = AList.update fn (pemEncode env ty data) fs"
  by (auto simp: pemToFile_def split: if_splits option.splits)

lemma pemToFile_err:
  "pemToFile env fs fn ty data = (fs', Some e) \<Longrightarrow> map_of fs' = map_of fs"
  by (auto simp: pemToFile_def fun_eq_iff split: if_splits option.splits)

lemma createKeyPair_ok:
  "createKeyPair env fs fn = (fs', Inr k) \<Longrightarrow>
   generateKey env = Inr k \<and> map_of fs fn = None \<and>
   fs' = AList.update fn (pemEncode env ''RSA PRIVATE KEY'' (marshalPKCS1 env k)) fs"
  by (auto simp: createKeyPair_def split: sum.splits prod.splits option.splits dest: pemToFile_ok)

lemma createKeyPair_err: "createKeyPair env fs fn = (fs', Inl e) \<Longrightarrow> map_of fs' = map_of fs"
  by (auto simp: createKeyPair_def split: sum.splits prod.splits option.splits dest: pemToFile_err)

text \<open>The three ways \<^verbatim>\<open>createCA\<close> can end once it has a template.\<close>

lemma createCA_cases:
  assumes "createCA env fs keyfn crtfn name = Return (fs', e)"
  obtains (nokey) e' where "createKeyPair env fs keyfn = (fs', Inl e')" "e = Some e'"
  | (undone) k fs2 e' where "map_of fs keyfn = None" "e = Some e'" "fs' = AList.delete keyfn fs2"
      "map_of fs2 = (map_of fs)(keyfn \<mapsto> pemEncode env ''RSA PRIVATE KEY'' (marshalPKCS1 env k))"
  | (ok) t k cert where "e = None" "generateKey env = Inr k" "map_of fs keyfn = None"
      "createCertTemplate env True name = Return t" "selfSign env t (publicKey env k) k = Inr cert"
      "fs' = AList.update crtfn (pemEncode env ''CERTIFICATE'' cert)
         (AList.update keyfn (pemEncode env ''RSA PRIVATE KEY'' (marshalPKCS1 env k)) fs)"
proof -
  obtain t where t: "createCertTemplate env True name = Return t"
    using assms by (auto simp: createCA_def go_bind_Return_iff)
  obtain fs1 r where r: "createKeyPair env fs keyfn = (fs1, r)" by (cases "createKeyPair env fs keyfn")
  show ?thesis
  proof (cases r)
    case (Inl e')
    then show ?thesis using assms t r nokey by (simp add: createCA_def)
  next
    case (Inr k)
    note kp = createKeyPair_ok [OF r [unfolded Inr]]
    then have fs1: "map_of fs1 = (map_of fs)(keyfn \<mapsto> pemEncode env ''RSA PRIVATE KEY'' (marshalPKCS1 env k))"
      by (simp add: update_conv')
    show ?thesis
    proof (cases "selfSign env t (publicKey env k) k")
      case (Inl e')
      then show ?thesis using assms t r Inr kp fs1 undone [of e' fs1 k] by (simp add: createCA_def)
    next
      case (Inr cert)
      obtain fs2 o2 where p: "pemToFile env fs1 crtfn ''CERTIFICATE'' cert = (fs2, o2)"
        by (cases "pemToFile env fs1 crtfn ''CERTIFICATE'' cert")
      show ?thesis
      proof (cases o2)
        case None
        then show ?thesis
          using assms t r \<open>r = Inr k\<close> Inr p kp pemToFile_ok [of env fs1 crtfn] ok [of k t cert]
          by (simp add: createCA_def)
      next
        case (Some e')
        then show ?thesis
          using assms t r \<open>r = Inr k\<close> Inr p kp fs1 pemToFile_err [of env fs1 crtfn] undone [of e' fs2 k]
          by (simp add: createCA_def)
      qed
    qed
  qed
qed


section \<open>Properties\<close>

text \<open>
  Key generation is all or nothing: when \<^verbatim>\<open>createCA\<close> reports an error, every file is as it was
  (an existing key or certificate is never overwritten or removed); when it reports none, there
  was no key before.
\<close>

theorem createCA_atomic:
  assumes "createCA env fs keyfn crtfn name = Return (fs', e)"
  shows "if e = None then map_of fs keyfn = None \<and> (\<forall>f. f \<noteq> keyfn \<longrightarrow> f \<noteq> crtfn \<longrightarrow> map_of fs' f = map_of fs f)
    else map_of fs' = map_of fs"
  using assms
proof (cases rule: createCA_cases)
  case (nokey e')
  then show ?thesis using createKeyPair_err by auto
next
  case (undone k fs2 e')
  then show ?thesis by (auto simp: fun_eq_iff)
qed auto

text \<open>
  An environment whose primitives are concrete functions, for the witnesses: keys and certificates
  are strings, PEM puts the type and a NUL before the data.
\<close>

definition demo_env :: "(string, string, string) crypto_env" where
  "demo_env =
     \<lparr>randInt = Inr 7, timeNow = 1, addDate = (\<lambda>t y m d. t + y), generateKey = Inr ''K'',
      publicKey = (\<lambda>k. k), marshalPKCS1 = (\<lambda>k. k), parsePKCS1 = Inr, marshalPKIX = Inr,
      parsePKIX = Inr, selfSign = (\<lambda>t p k. Inr (CommonName t)), signWith = (\<lambda>t c p k. Inr (CommonName t)),
      parseCertificate = Inr, pemEncode = (\<lambda>ty b. ty @ NUL # b),
      pemDecode = (\<lambda>s. case splitOn NUL s of ty # r # rs \<Rightarrow> Some (ty, drop (Suc (length ty)) s) | _ \<Rightarrow> None),
      openErr = (\<lambda>f. None), writeErr = (\<lambda>f. None), closeErr = (\<lambda>f. None), sha1 = (\<lambda>s. take 2 s)\<rparr>"

theorem createCA_atomic_witness:
  "\<exists>fs'. createCA demo_env [(''ca.crt'', ''old'')] ''ca.key'' ''ca.crt'' ''rufs-master'' = Return (fs', Some (OsError ''file exists'')) \<and>
    map_of fs' = map_of [(''ca.crt'', ''old'')]"
proof -
  have r: "createCA demo_env [(''ca.crt'', ''old'')] ''ca.key'' ''ca.crt'' ''rufs-master'' =
      Return ([(''ca.crt'', ''old'')], Some (OsError ''file exists''))"
    by code_simp
  show ?thesis using createCA_atomic [OF r] r by simp
qed

text \<open>
  C29. The keys the master generates can be loaded: when \<^verbatim>\<open>createCA\<close> succeeded, \<^verbatim>\<open>loadMasterVault\<close> on
  the same two files succeeds and yields the generated private key. It relies on the documented
  round trips of PEM encoding, PKCS#1 marshalling and certificate creation.
\<close>

theorem createCA_loadMasterVault:
  assumes "createCA env fs keyfn crtfn name = Return (fs', None)" and "keyfn \<noteq> crtfn"
    and pem: "\<forall>ty b. ty \<in> {''CERTIFICATE'', ''RSA PRIVATE KEY''} \<longrightarrow> pemDecode env (pemEncode env ty b) = Some (ty, b)"
    and pkcs1: "\<forall>k. parsePKCS1 env (marshalPKCS1 env k) = Inr k"
    and x509: "\<forall>t p k cert. selfSign env t p k = Inr cert \<longrightarrow> (\<exists>c. parseCertificate env cert = Inr c)"
  shows "\<exists>c k. generateKey env = Inr k \<and> loadMasterVault env fs' keyfn crtfn = Inr \<lparr>ca = c, priv = k\<rparr>"
  using assms(1)
proof (cases rule: createCA_cases)
  case (ok t k cert)
  obtain c where "parseCertificate env cert = Inr c" using x509 ok(5) by blast
  then show ?thesis
    using ok assms(2) pem pkcs1 by (simp add: loadMasterVault_def loadCertificate_def pemFromFile_def)
qed auto

theorem createCA_loadMasterVault_witness:
  "\<exists>fs' c k. createCA demo_env [] ''ca.key'' ''ca.crt'' ''rufs-master'' = Return (fs', None) \<and>
    generateKey demo_env = Inr k \<and> loadMasterVault demo_env fs' ''ca.key'' ''ca.crt'' = Inr \<lparr>ca = c, priv = k\<rparr>"
proof -
  let ?fs = "[(''ca.key'', ''RSA PRIVATE KEY'' @ NUL # ''K''), (''ca.crt'', ''CERTIFICATE'' @ NUL # ''rufs-master'')]"
  have r: "createCA demo_env [] ''ca.key'' ''ca.crt'' ''rufs-master'' = Return (?fs, None)" by code_simp
  have "splitOn NUL (ty @ NUL # b) = ty # splitOn NUL b" if "ty \<in> {''CERTIFICATE'', ''RSA PRIVATE KEY''}" for ty b
    using that by (intro splitOn_append_sep) auto
  then have pem: "\<forall>ty b. ty \<in> {''CERTIFICATE'', ''RSA PRIVATE KEY''} \<longrightarrow>
      pemDecode demo_env (pemEncode demo_env ty b) = Some (ty, b)"
    by (auto simp: demo_env_def split: list.splits)
  have "\<exists>c k. generateKey demo_env = Inr k \<and> loadMasterVault demo_env ?fs ''ca.key'' ''ca.crt'' = Inr \<lparr>ca = c, priv = k\<rparr>"
    by (rule createCA_loadMasterVault [OF r _ pem]) (simp_all add: demo_env_def)
  with r show ?thesis by blast
qed

text \<open>
  Certificates for clients cannot sign: the templates carry the requested name, and the CA flag
  and the certificate-signing bit of the key usage are set exactly for a CA template.
\<close>

theorem createCertTemplate_CA:
  assumes "createCertTemplate env isCA name = Return t"
  shows "CommonName t = name \<and> IsCA t = isCA \<and> bit (KeyUsage t) 5 = isCA \<and>
    ExtKeyUsageServerAuth t \<and> ExtKeyUsageClientAuth t"
  using assms
  by (cases isCA) (auto simp: createCertTemplate_def KeyUsageDigitalSignature_def KeyUsageKeyEncipherment_def
      KeyUsageCertSign_def bit_or_iff split: sum.splits)

theorem createCertTemplate_CA_witness:
  "\<exists>t. createCertTemplate demo_env False ''alice'' = Return t \<and> CommonName t = ''alice'' \<and> \<not> bit (KeyUsage t) 5"
proof -
  obtain t where t: "createCertTemplate demo_env False ''alice'' = Return t"
    by (simp add: createCertTemplate_def demo_env_def)
  show ?thesis using createCertTemplate_CA [OF t] t by auto
qed

text \<open>
  A registration token is bound to its user: two users have the same token under one master key
  only if SHA-1 collides on the two token inputs.
\<close>

theorem createAuthToken_binds_user:
  assumes "createAuthToken env mv u = createAuthToken env mv v" and "u \<noteq> v"
  shows "sha1 env (u @ [NUL] @ marshalPKCS1 env (priv mv)) = sha1 env (v @ [NUL] @ marshalPKCS1 env (priv mv)) \<and>
    u @ [NUL] @ marshalPKCS1 env (priv mv) \<noteq> v @ [NUL] @ marshalPKCS1 env (priv mv)"
  using assms by (auto simp: createAuthToken_def dest: hexBytes_inj)

theorem createAuthToken_binds_user_witness:
  "createAuthToken demo_env \<lparr>ca = ''c'', priv = ''k''\<rparr> ''abx'' = createAuthToken demo_env \<lparr>ca = ''c'', priv = ''k''\<rparr> ''aby'' \<and>
   sha1 demo_env (''abx'' @ [NUL] @ ''k'') = sha1 demo_env (''aby'' @ [NUL] @ ''k'')"
proof -
  have r: "createAuthToken demo_env \<lparr>ca = ''c'', priv = ''k''\<rparr> ''abx'' =
      createAuthToken demo_env \<lparr>ca = ''c'', priv = ''k''\<rparr> ''aby''"
    by (simp add: createAuthToken_def demo_env_def)
  show ?thesis using createAuthToken_binds_user [OF r] r by (simp add: demo_env_def)
qed

end
