(* ===== verification/Master_Service.thy ===== *)
theory Master_Service
  imports Database_Inmem Crypto
begin

text \<open>
  The master, \<^verbatim>\<open>master.go\<close>: the RPC handlers \<^verbatim>\<open>Register\<close>, \<^verbatim>\<open>Signin\<close>, \<^verbatim>\<open>SetFile\<close>, \<^verbatim>\<open>GetDir\<close> and
  \<^verbatim>\<open>GetOwners\<close>, the clean-up \<^verbatim>\<open>Disconnected\<close>, and the accept loop as a step relation on the
  database and the open connections. Each connection has its own \<^verbatim>\<open>Peer\<close>; a handler is one step.

  The database is the argument \<open>ops\<close> (theory \<open>Database_Api\<close>). What the TLS connection reports (the
  common names of the verified chains, the remote address) is the record \<open>tls_conn\<close>; the outcome
  of connecting back to the peer and of pinging it is the record \<open>net_env\<close>.
\<close>

section \<open>State\<close>

record Peer =
  user :: string
  address :: string
  ident :: string

definition emptyPeer :: Peer where
  "emptyPeer = \<lparr>user = [], address = [], ident = []\<rparr>"

record tls_conn =
  verifiedChains :: "string list list"
  remoteAddr :: string

record net_env =
  dialPeer :: "string \<Rightarrow> string \<Rightarrow> go_error option"
  pingPeer :: "string \<Rightarrow> go_error option"

record 'db Master =
  mdb :: 'db
  sessions :: "nat \<rightharpoonup> tls_conn \<times> Peer"


section \<open>Handlers\<close>

definition Register ::
  "('k, 'p, 'c) crypto_env \<Rightarrow> ('k, 'c) MasterVault \<Rightarrow> RegisterRequest \<Rightarrow> (go_error + string) go" where
  "Register env mv q =
     (let token = createAuthToken env mv (rr_User q) in
      if token \<noteq> rr_Token q then Return (Inl TokenInvalid)
      else go_bind (signClient env mv (rr_PublicKey q) (rr_User q))
             (\<lambda>r. Return (case r of Inl e \<Rightarrow> Inl (SignFailed e) | Inr cert \<Rightarrow> Inr cert)))"

text \<open>The address the master connects back to: an address \<^verbatim>\<open>:port\<close> is completed with the remote host.\<close>

definition backAddr :: "tls_conn \<Rightarrow> string \<Rightarrow> string" where
  "backAddr conn addr =
     (if hasPrefix addr '':'' then joinHostPort (splitHost (remoteAddr conn)) (drop 1 addr) else addr)"

definition Signin :: "tls_conn \<Rightarrow> net_env \<Rightarrow> SigninRequest \<Rightarrow> Peer \<Rightarrow> (Peer \<times> go_error option) go" where
  "Signin conn net q p =
     (if ProtocolVersion q \<noteq> 1 then Return (p, Some (ProtocolNotSupported (ProtocolVersion q)))
      else if si_User q = [] then Return (p, Some (InvalidCredentials (si_User q)))
      else
        case verifiedChains conn of
          [] \<Rightarrow> Return (p, Some NoValidCertificate)
        | chain # _ \<Rightarrow>
            (case chain of
               [] \<Rightarrow> Panic
             | leaf # _ \<Rightarrow>
                 if leaf \<noteq> si_User q then Return (p, Some UserDoesNotMatchCertificate)
                 else if si_Address q \<noteq> [] then
                   (let addr = backAddr conn (si_Address q) in
                    case dialPeer net addr (si_User q) of
                      Some e \<Rightarrow> Return (p, Some (ConnectBackFailed addr e))
                    | None \<Rightarrow>
                        (case pingPeer net addr of
                           Some e \<Rightarrow> Return (p, Some (PingFailed addr e))
                         | None \<Rightarrow>
                             Return (p\<lparr>address := addr, ident := si_User q @ ''@'' @ addr,
                                       user := si_User q\<rparr>, None)))
                 else Return (p\<lparr>user := si_User q\<rparr>, None)))"

definition rpc_SetFile ::
  "'db db_ops \<Rightarrow> 'db \<Rightarrow> Peer \<Rightarrow> SetFileRequest \<Rightarrow> ('db \<times> go_error option) go" where
  "rpc_SetFile ops d p q =
     (if address p = [] then Return (d, Some SetFileDenied)
      else
        let ex = user p # splitOn (CHR ''/'') (sf_Path q) in
        case find bad_part ex of
          Some x \<Rightarrow> Return (d, Some (InvalidPart x))
        | None \<Rightarrow> op_SetFile ops d ex (sf_Info q) (ident p))"

definition rpc_GetDir :: "'db db_ops \<Rightarrow> 'db \<Rightarrow> Peer \<Rightarrow> string \<Rightarrow> go_error + GetDirReply" where
  "rpc_GetDir ops d p path =
     (if user p = [] then Inl GetDirDenied
      else case op_GetDir ops d (trim (CHR ''/'') path) of
        Inl e \<Rightarrow> Inl e
      | Inr (fs, ds) \<Rightarrow> Inr \<lparr>Dirs = ds, Files = fs\<rparr>)"

definition rpc_GetOwners :: "'db db_ops \<Rightarrow> 'db \<Rightarrow> Peer \<Rightarrow> string \<Rightarrow> go_error + string list" where
  "rpc_GetOwners ops d p hash =
     (if user p = [] then Inl GetOwnersDenied else op_GetOwners ops d hash)"

definition Disconnected :: "'db db_ops \<Rightarrow> 'db \<Rightarrow> Peer \<Rightarrow> 'db go" where
  "Disconnected ops d p =
     (if address p = [] then Return d
      else go_bind (op_PeerDisconnected ops d (ident p)) (\<lambda>(d', e). Return d'))"


section \<open>The accept loop\<close>

text \<open>
  Steps of the running master. \<open>certified\<close> holds the names the master's CA has issued certificates
  for: the leaf of a chain that TLS verified carries one of them. The read-only handlers do not
  change the state and are not steps.
\<close>

inductive master_step :: "'db db_ops \<Rightarrow> string set \<Rightarrow> 'db Master \<Rightarrow> 'db Master \<Rightarrow> bool"
  for ops :: "'db db_ops" and certified :: "string set" where
  accept: "sessions s c = None \<Longrightarrow> \<forall>ch \<in> set (verifiedChains conn). ch \<noteq> [] \<and> hd ch \<in> certified \<Longrightarrow>
     master_step ops certified s (s\<lparr>sessions := (sessions s)(c \<mapsto> (conn, emptyPeer))\<rparr>)"
| signin: "sessions s c = Some (conn, p) \<Longrightarrow> Signin conn net q p = Return (p', e) \<Longrightarrow>
     master_step ops certified s (s\<lparr>sessions := (sessions s)(c \<mapsto> (conn, p'))\<rparr>)"
| setFile: "sessions s c = Some (conn, p) \<Longrightarrow> rpc_SetFile ops (mdb s) p q = Return (d', e) \<Longrightarrow>
     master_step ops certified s (s\<lparr>mdb := d'\<rparr>)"
| disconnect: "sessions s c = Some (conn, p) \<Longrightarrow> Disconnected ops (mdb s) p = Return d' \<Longrightarrow>
     master_step ops certified s (s\<lparr>mdb := d', sessions := (sessions s)(c := None)\<rparr>)"

inductive master_reach :: "'db db_ops \<Rightarrow> 'db \<Rightarrow> string set \<Rightarrow> 'db Master \<Rightarrow> bool"
  for ops :: "'db db_ops" and db0 :: 'db and certified :: "string set" where
  start: "master_reach ops db0 certified \<lparr>mdb = db0, sessions = Map.empty\<rparr>"
| step: "master_reach ops db0 certified s \<Longrightarrow> master_step ops certified s t \<Longrightarrow> master_reach ops db0 certified t"

inductive_cases master_stepE [consumes 1, case_names accept signin setFile disconnect]:
  "master_step ops certified s t"


section \<open>Sessions\<close>

text \<open>
  A signed-in session carries the name of its certificate, and a session with an address carries
  the identity that is made of the two.
\<close>

definition session_inv :: "string set \<Rightarrow> tls_conn \<times> Peer \<Rightarrow> bool" where
  "session_inv certified = (\<lambda>(conn, p).
     (\<forall>ch \<in> set (verifiedChains conn). ch \<noteq> [] \<and> hd ch \<in> certified) \<and>
     (user p \<noteq> [] \<longrightarrow> verifiedChains conn \<noteq> [] \<and> hd (hd (verifiedChains conn)) = user p) \<and>
     (address p \<noteq> [] \<longrightarrow> user p \<noteq> [] \<and> ident p = user p @ ''@'' @ address p))"

lemma session_inv_certified:
  "session_inv certified (conn, p) \<Longrightarrow> user p \<noteq> [] \<Longrightarrow> user p \<in> certified"
  by (cases "verifiedChains conn") (auto simp: session_inv_def)

text \<open>Signin on every branch: it succeeds exactly under these conditions, and otherwise keeps the peer.\<close>

lemma Signin_ok_iff:
  assumes "\<forall>ch \<in> set (verifiedChains conn). ch \<noteq> []"
  shows "Signin conn net q p = Return (p', None) \<longleftrightarrow>
    ProtocolVersion q = 1 \<and> si_User q \<noteq> [] \<and> verifiedChains conn \<noteq> [] \<and>
    hd (hd (verifiedChains conn)) = si_User q \<and>
    (if si_Address q = [] then p' = p\<lparr>user := si_User q\<rparr>
     else let addr = backAddr conn (si_Address q) in
       dialPeer net addr (si_User q) = None \<and> pingPeer net addr = None \<and>
       p' = \<lparr>user = si_User q, address = addr, ident = si_User q @ ''@'' @ addr\<rparr>)"
  using assms
  by (cases p; cases "verifiedChains conn")
    (auto simp: Signin_def Let_def split: list.splits option.splits if_splits)

lemma Signin_err:
  "Signin conn net q p = Return (p', Some e) \<Longrightarrow> p' = p"
  by (auto simp: Signin_def Let_def split: list.splits option.splits if_splits)

lemma session_inv_Signin:
  assumes "session_inv certified (conn, p)" and "Signin conn net q p = Return (p', e)"
  shows "session_inv certified (conn, p')"
proof (cases e)
  case None
  have "\<forall>ch \<in> set (verifiedChains conn). ch \<noteq> []" using assms(1) by (auto simp: session_inv_def)
  then show ?thesis
    using assms None Signin_ok_iff [of conn net q p p']
    by (auto simp: session_inv_def Let_def split: if_splits)
next
  case (Some x)
  then show ?thesis using assms Signin_err by blast
qed

lemma session_inv_empty:
  "\<forall>ch \<in> set (verifiedChains conn). ch \<noteq> [] \<and> hd ch \<in> certified \<Longrightarrow> session_inv certified (conn, emptyPeer)"
  by (simp add: session_inv_def emptyPeer_def)

lemma reach_session_inv:
  "master_reach ops db0 certified s \<Longrightarrow> sessions s c = Some x \<Longrightarrow> session_inv certified x"
proof (induction arbitrary: c x rule: master_reach.induct)
  case (step s t)
  from step.hyps(2) show ?case
  proof (cases rule: master_stepE)
    case (accept c' conn)
    then show ?thesis using step session_inv_empty by (auto split: if_splits)
  next
    case (signin c' conn p net q p' e)
    then show ?thesis
      using step.IH [OF signin(2)] step.IH step.prems session_inv_Signin [OF _ signin(3)]
      by (auto split: if_splits)
  qed (use step in \<open>auto split: if_splits\<close>)
qed simp


section \<open>The master over any database\<close>

definition good_path :: "string set \<Rightarrow> string list \<Rightarrow> bool" where
  "good_path certified p \<longleftrightarrow> 2 \<le> length p \<and> hd p \<in> certified \<and> (\<forall>x \<in> set p. \<not> bad_part x)"

lemma find_None: "find P xs = None \<longleftrightarrow> (\<forall>x \<in> set xs. \<not> P x)"
  by (induction xs) auto

text \<open>What a SetFile request that reached the database looks like.\<close>

lemma rpc_SetFile_cases:
  assumes "rpc_SetFile ops d p q = Return (d', e)"
  obtains (denied) "d' = d" "e \<noteq> None"
  | (stored) ex where "address p \<noteq> []" "ex = user p # splitOn (CHR ''/'') (sf_Path q)"
      "\<forall>x \<in> set ex. \<not> bad_part x" "op_SetFile ops d ex (sf_Info q) (ident p) = Return (d', e)"
  using assms by (auto simp: rpc_SetFile_def Let_def find_None split: if_splits option.splits)

context database
begin

lemma setFile_frame:
  assumes "invar d" and "rpc_SetFile ops d p q = Return (d', e)"
  shows "invar d'" and "hd r \<noteq> user p \<Longrightarrow> look d' r = look d r"
proof -
  have "invar d' \<and> (hd r \<noteq> user p \<longrightarrow> look d' r = look d r)"
    using assms(2)
  proof (cases rule: rpc_SetFile_cases)
    case (stored ex)
    then have ex: "ex \<noteq> []" and hd: "hd r \<noteq> user p \<longrightarrow> r \<noteq> ex" by auto
    then show ?thesis using set_invar [OF assms(1) ex stored(4)] set_frame [OF assms(1) ex stored(4)] by blast
  qed (use assms(1) in simp)
  then show "invar d'" and "hd r \<noteq> user p \<Longrightarrow> look d' r = look d r" by auto
qed

lemma setFile_good:
  assumes "invar d" and "rpc_SetFile ops d p q = Return (d', e)" and "session_inv certified (conn, p)"
    and "\<forall>r. look d r \<noteq> None \<longrightarrow> good_path certified r"
  shows "\<forall>r. look d' r \<noteq> None \<longrightarrow> good_path certified r"
  using assms(2)
proof (cases rule: rpc_SetFile_cases)
  case (stored ex)
  have "user p \<in> certified"
    using assms(3) stored(1) session_inv_certified [of certified conn p] by (auto simp: session_inv_def)
  moreover have "2 \<le> length ex" using stored(2) by (simp add: Suc_le_eq)
  ultimately have "good_path certified ex" using stored(2,3) by (auto simp: good_path_def)
  moreover have "r \<noteq> ex \<Longrightarrow> look d' r = look d r" for r
    using set_frame [OF assms(1) _ stored(4)] stored(2) by blast
  ultimately show ?thesis using assms(4) by metis
qed (use assms(4) in simp)

lemma Disconnected_frame:
  assumes "invar d" and "Disconnected ops d p = Return d'"
  shows "invar d'" and "look d' r = look d r \<or> look d' r = None"
proof -
  have "invar d' \<and> (look d' r = look d r \<or> look d' r = None)"
  proof (cases "address p = []")
    case True
    then show ?thesis using assms by (simp add: Disconnected_def)
  next
    case False
    then obtain e where e: "op_PeerDisconnected ops d (ident p) = Return (d', e)"
      using assms(2) by (auto simp: Disconnected_def go_bind_Return_iff)
    show ?thesis using disc_invar [OF assms(1) e] disc_shrinks [OF assms(1) e, of r] by blast
  qed
  then show "invar d'" and "look d' r = look d r \<or> look d' r = None" by auto
qed

text \<open>The invariant of the running master.\<close>

lemma reach_inv:
  assumes "master_reach ops db0 certified s" and "invar db0" and "\<forall>r. look db0 r = None"
  shows "invar (mdb s) \<and> (\<forall>r. look (mdb s) r \<noteq> None \<longrightarrow> good_path certified r)"
  using assms(1)
proof (induction rule: master_reach.induct)
  case start
  then show ?case using assms(2,3) by simp
next
  case (step s t)
  note sess = reach_session_inv [OF step.hyps(1)]
  from step.hyps(2) show ?case
  proof (cases rule: master_stepE)
    case (setFile c conn p q d' e)
    then show ?thesis
      using step.IH setFile_frame(1) [OF _ setFile(3)] setFile_good [OF _ setFile(3) sess [OF setFile(2)]]
      by simp
  next
    case (disconnect c conn p d')
    have inv: "invar (mdb s)" using step.IH by blast
    have "look d' r \<noteq> None \<Longrightarrow> look (mdb s) r \<noteq> None" for r
      using Disconnected_frame(2) [OF inv disconnect(3), of r] by auto
    then show ?thesis
      using step.IH Disconnected_frame(1) [OF inv disconnect(3)] disconnect(1) by simp
  qed (use step.IH in simp_all)
qed

end


section \<open>Properties\<close>

lemma inmem_reach_inv:
  assumes "master_reach inmem_ops newDatabase certified s"
  shows "inmem_inv (mdb s) \<and> (\<forall>r. lookupFile (fileTree (mdb s)) r \<noteq> None \<longrightarrow> good_path certified r)"
  using inmem.reach_inv [OF assms] by (simp add: inmem_inv_def newDatabase_def)

text \<open>A run used by the witnesses: one client signs in with an address, and publishes a file.\<close>

definition demo_conn :: tls_conn where
  "demo_conn = \<lparr>verifiedChains = [[''al'', ''rufs-master'']], remoteAddr = ''1.2.3.4:999''\<rparr>"

definition demo_net :: net_env where
  "demo_net = \<lparr>dialPeer = (\<lambda>a n. None), pingPeer = (\<lambda>a. None)\<rparr>"

definition demo_peer :: Peer where
  "demo_peer = \<lparr>user = ''al'', address = ''1.2.3.4:1667'', ident = ''al@1.2.3.4:1667''\<rparr>"

definition demo_info :: FileInfo where
  "demo_info = \<lparr>Size = 3, Hash = ''h1'', Mtime = 0\<rparr>"

definition demo_db :: Database where
  "demo_db = \<lparr>fileTree = Directory [(''al'', Directory [(''d'', Directory [] [(''x'', demo_info)] 1)] [] 1)] [] 1,
     owners = [(''h1'', [(''al@1.2.3.4:1667'', 1)])]\<rparr>"

lemma demo_signin:
  "Signin demo_conn demo_net \<lparr>ProtocolVersion = 1, si_User = ''al'', si_Address = '':1667''\<rparr> emptyPeer =
     Return (demo_peer, None)"
  by code_simp

lemma demo_setfile:
  "rpc_SetFile inmem_ops newDatabase demo_peer \<lparr>sf_Path = ''d/x'', sf_Info = Some demo_info\<rparr> =
     Return (demo_db, None)"
  by code_simp

lemma demo_reach0:
  "master_reach inmem_ops newDatabase {''al''} \<lparr>mdb = newDatabase, sessions = [0 \<mapsto> (demo_conn, demo_peer)]\<rparr>"
proof -
  let ?s0 = "\<lparr>mdb = newDatabase, sessions = Map.empty\<rparr>"
  have "master_step inmem_ops {''al''} ?s0 (?s0\<lparr>sessions := (sessions ?s0)(0 \<mapsto> (demo_conn, emptyPeer))\<rparr>)"
    by (rule master_step.accept) (auto simp: demo_conn_def)
  then have r1: "master_reach inmem_ops newDatabase {''al''} \<lparr>mdb = newDatabase, sessions = [0 \<mapsto> (demo_conn, emptyPeer)]\<rparr>"
    by (intro master_reach.step [OF master_reach.start]) simp
  show ?thesis
    using master_reach.step [OF r1 master_step.signin [OF _ demo_signin, of _ 0]] by simp
qed

lemma demo_reach1:
  "master_reach inmem_ops newDatabase {''al''} \<lparr>mdb = demo_db, sessions = [0 \<mapsto> (demo_conn, demo_peer)]\<rparr>"
  using master_reach.step [OF demo_reach0 master_step.setFile [of _ 0 demo_conn demo_peer]] demo_setfile
  by simp

text \<open>
  C16. In every reachable state of the master, every file of the database lies below a directory named
  after a user the CA certified, and no component of its path is empty or starts with a dot.
\<close>

theorem master_stored_paths:
  assumes "master_reach inmem_ops newDatabase certified s" and "lookupFile (fileTree (mdb s)) p = Some fi"
  shows "\<exists>u rest. p = u # rest \<and> u \<in> certified \<and> rest \<noteq> [] \<and> (\<forall>x \<in> set p. \<not> bad_part x)"
proof -
  have "good_path certified p" using inmem_reach_inv [OF assms(1)] assms(2) by simp
  then show ?thesis by (cases p) (auto simp: good_path_def)
qed

theorem master_stored_paths_witness:
  "master_reach inmem_ops newDatabase {''al''} \<lparr>mdb = demo_db, sessions = [0 \<mapsto> (demo_conn, demo_peer)]\<rparr> \<and>
   lookupFile (fileTree demo_db) [''al'', ''d'', ''x''] = Some demo_info \<and>
   (\<exists>u rest. [''al'', ''d'', ''x''] = u # rest \<and> u \<in> {''al''} \<and> rest \<noteq> [] \<and>
      (\<forall>x \<in> set [''al'', ''d'', ''x'']. \<not> bad_part x))"
proof -
  have l: "lookupFile (fileTree (mdb \<lparr>mdb = demo_db, sessions = [0 \<mapsto> (demo_conn, demo_peer)]\<rparr>))
      [''al'', ''d'', ''x''] = Some demo_info"
    by (simp add: demo_db_def)
  show ?thesis using master_stored_paths [OF demo_reach1 l] demo_reach1 l by simp
qed

text \<open>
  C18. Users are isolated from each other: a \<^verbatim>\<open>SetFile\<close> request changes files only below the directory
  named by the certificate of the connection it arrived on.
\<close>

theorem SetFile_isolated:
  assumes "master_reach inmem_ops newDatabase certified s" and "sessions s c = Some (conn, p)"
    and "rpc_SetFile inmem_ops (mdb s) p q = Return (d', e)"
    and "lookupFile (fileTree d') r \<noteq> lookupFile (fileTree (mdb s)) r"
  shows "verifiedChains conn \<noteq> [] \<and> hd r = hd (hd (verifiedChains conn))"
proof -
  have inv: "inmem_inv (mdb s)" using inmem_reach_inv [OF assms(1)] by simp
  have "hd r = user p" using inmem.setFile_frame(2) [OF inv assms(3), of r] assms(4) by blast
  moreover have "address p \<noteq> []" using assms(3,4) by (auto simp: rpc_SetFile_def)
  ultimately show ?thesis
    using reach_session_inv [OF assms(1,2)] by (auto simp: session_inv_def)
qed

theorem SetFile_isolated_witness:
  "rpc_SetFile inmem_ops newDatabase demo_peer \<lparr>sf_Path = ''d/x'', sf_Info = Some demo_info\<rparr> = Return (demo_db, None) \<and>
   lookupFile (fileTree demo_db) [''al'', ''d'', ''x''] \<noteq> lookupFile (fileTree newDatabase) [''al'', ''d'', ''x''] \<and>
   hd [''al'', ''d'', ''x''] = hd (hd (verifiedChains demo_conn))"
proof -
  let ?s = "\<lparr>mdb = newDatabase, sessions = [0 \<mapsto> (demo_conn, demo_peer)]\<rparr>"
  have s: "sessions ?s 0 = Some (demo_conn, demo_peer)" by simp
  have f: "rpc_SetFile inmem_ops (mdb ?s) demo_peer \<lparr>sf_Path = ''d/x'', sf_Info = Some demo_info\<rparr> = Return (demo_db, None)"
    using demo_setfile by simp
  have l: "lookupFile (fileTree demo_db) [''al'', ''d'', ''x''] \<noteq> lookupFile (fileTree (mdb ?s)) [''al'', ''d'', ''x'']"
    by (simp add: demo_db_def newDatabase_def emptyDir_def)
  show ?thesis using SetFile_isolated [OF demo_reach0 s f l] f l by simp
qed

text \<open>
  C19. In every reachable state, a connection that has not signed in (its session has no user name), or
  that has no verified certificate, is refused: its \<^verbatim>\<open>SetFile\<close>, \<^verbatim>\<open>GetDir\<close> and \<^verbatim>\<open>GetOwners\<close> requests are
  denied and its disconnect changes nothing; and without a verified certificate it cannot sign in
  either. (\<^verbatim>\<open>Register\<close> needs no sign-in: it is guarded by the token.)
\<close>

theorem unauthenticated_denied:
  assumes "master_reach ops db0 certified s" and "sessions s c = Some (conn, p)"
    and "user p = [] \<or> verifiedChains conn = []"
  shows "rpc_SetFile ops d p q = Return (d, Some SetFileDenied) \<and> rpc_GetDir ops d p path = Inl GetDirDenied \<and>
    rpc_GetOwners ops d p hash = Inl GetOwnersDenied \<and> Disconnected ops d p = Return d \<and>
    (verifiedChains conn = [] \<longrightarrow> (\<exists>e. Signin conn net r p = Return (p, Some e)))"
  using reach_session_inv [OF assms(1,2)] assms(3)
  by (auto simp: session_inv_def rpc_SetFile_def rpc_GetDir_def rpc_GetOwners_def Disconnected_def Signin_def)

theorem unauthenticated_denied_witness:
  "\<exists>s. master_reach inmem_ops newDatabase {} s \<and>
     sessions s 0 = Some (\<lparr>verifiedChains = [], remoteAddr = ''1.2.3.4:5''\<rparr>, emptyPeer) \<and>
     rpc_GetDir inmem_ops newDatabase emptyPeer ''al'' = Inl GetDirDenied"
proof -
  let ?conn = "\<lparr>verifiedChains = [], remoteAddr = ''1.2.3.4:5''\<rparr>"
  let ?init = "\<lparr>mdb = newDatabase, sessions = Map.empty\<rparr>"
  let ?s = "?init\<lparr>sessions := (sessions ?init)(0 \<mapsto> (?conn, emptyPeer))\<rparr>"
  have "master_step inmem_ops {} ?init ?s" by (rule master_step.accept) simp_all
  then have r: "master_reach inmem_ops newDatabase {} ?s" by (rule master_reach.step [OF master_reach.start])
  have s: "sessions ?s 0 = Some (?conn, emptyPeer)" by simp
  show ?thesis
    using unauthenticated_denied [OF r s, of newDatabase _ "''al''"] r s by auto
qed

text \<open>
  C17. A signed-in session acts under the name of its certificate, and a session that may publish has
  the identity \<^verbatim>\<open>user@address\<close>, in every reachable state of the master.
\<close>

theorem session_identity:
  assumes "master_reach ops db0 certified s" and "sessions s c = Some (conn, p)" and "user p \<noteq> []"
  shows "user p \<in> certified \<and> hd (hd (verifiedChains conn)) = user p \<and>
    (if address p = [] then True else ident p = user p @ ''@'' @ address p)"
  using reach_session_inv [OF assms(1,2)] session_inv_certified assms(3) by (auto simp: session_inv_def)

theorem session_identity_witness:
  "user demo_peer \<in> {''al''} \<and> hd (hd (verifiedChains demo_conn)) = user demo_peer \<and>
   ident demo_peer = user demo_peer @ ''@'' @ address demo_peer"
  using session_identity [OF demo_reach0, of 0 demo_conn demo_peer] by (simp add: demo_peer_def)

text \<open>What a publication does to a database: the request succeeds and a listing holds the file.\<close>

lemma publish_listed:
  assumes inv: "inmem_inv d" and "address p1 \<noteq> []" and "user p2 \<noteq> []"
    and clean: "\<forall>x \<in> set (user p1 # ps @ [f]). \<not> bad_part x \<and> CHR ''/'' \<notin> set x"
  shows "\<exists>d' fs ds.
    rpc_SetFile inmem_ops d p1 \<lparr>sf_Path = joinWith ''/'' (ps @ [f]), sf_Info = Some fi\<rparr> = Return (d', None) \<and>
    SetFile d (user p1 # ps @ [f]) (Some fi) (ident p1) = Return (d', None) \<and>
    rpc_GetDir inmem_ops d' p2 (joinWith ''/'' (user p1 # ps)) = Inr \<lparr>Dirs = ds, Files = fs\<rparr> \<and>
    map_of fs f = Some fi"
proof -
  have split: "splitOn (CHR ''/'') (joinWith ''/'' (ps @ [f])) = ps @ [f]"
    by (rule splitOn_joinWith) (use clean in auto)
  have "\<forall>x \<in> set (user p1 # ps). \<not> bad_part x \<and> CHR ''/'' \<notin> set x" using clean by auto
  from SetFile_GetDir_lemma [OF inv this, of f fi "ident p1"] obtain d' fs ds
    where s: "SetFile d (user p1 # ps @ [f]) (Some fi) (ident p1) = Return (d', None)"
      and g: "GetDir d' (joinWith ''/'' (user p1 # ps)) = Inr (fs, ds)" and m: "map_of fs f = Some fi"
    by auto
  have "find bad_part (user p1 # ps @ [f]) = None" using clean by (simp add: find_None)
  then have "rpc_SetFile inmem_ops d p1 \<lparr>sf_Path = joinWith ''/'' (ps @ [f]), sf_Info = Some fi\<rparr> = Return (d', None)"
    using assms(2) s split by (simp add: rpc_SetFile_def inmem_ops_def)
  moreover have "trim (CHR ''/'') (joinWith ''/'' (user p1 # ps)) = joinWith ''/'' (user p1 # ps)"
    by (rule trim_joinWith) (use clean in \<open>auto simp: bad_part_def\<close>)
  ultimately show ?thesis using assms(3) s g m by (simp add: rpc_GetDir_def inmem_ops_def)
qed

text \<open>
  C7. What one peer publishes another one sees: when a signed-in session with an address publishes
  a file under a clean relative path, the request succeeds, and any other signed-in session that
  asks for the directory (the user name followed by the directory part) gets the file with the
  same metadata.
\<close>

theorem publish_visible:
  assumes reach: "master_reach inmem_ops newDatabase certified s"
    and p1: "sessions s c1 = Some (conn1, p1)" "address p1 \<noteq> []"
    and p2: "sessions s c2 = Some (conn2, p2)" "user p2 \<noteq> []"
    and clean: "\<forall>x \<in> set (user p1 # ps @ [f]). \<not> bad_part x \<and> CHR ''/'' \<notin> set x"
  shows "\<exists>d' fs ds.
    rpc_SetFile inmem_ops (mdb s) p1 \<lparr>sf_Path = joinWith ''/'' (ps @ [f]), sf_Info = Some fi\<rparr> = Return (d', None) \<and>
    rpc_GetDir inmem_ops d' p2 (joinWith ''/'' (user p1 # ps)) = Inr \<lparr>Dirs = ds, Files = fs\<rparr> \<and>
    map_of fs f = Some fi"
  using publish_listed [OF conjunct1 [OF inmem_reach_inv [OF reach]] p1(2) p2(2) clean] by blast

theorem publish_visible_witness:
  "\<exists>d' fs ds.
    rpc_SetFile inmem_ops newDatabase demo_peer \<lparr>sf_Path = ''d/x'', sf_Info = Some demo_info\<rparr> = Return (d', None) \<and>
    rpc_GetDir inmem_ops d' demo_peer ''al/d'' = Inr \<lparr>Dirs = ds, Files = fs\<rparr> \<and> map_of fs ''x'' = Some demo_info"
  using publish_visible [OF demo_reach0, of 0 demo_conn demo_peer 0 demo_conn demo_peer "[''d'']" "''x''" demo_info]
  by (simp add: demo_peer_def bad_part_def)

text \<open>
  C20. A certificate is issued only against the token of the user it names: \<^verbatim>\<open>Register\<close> returns one
  only if the request carries \<^verbatim>\<open>createAuthToken\<close> of the user, and what is signed is a template
  with that user as its name and without signing rights.
\<close>

theorem Register_requires_token:
  assumes "Register env mv q = Return (Inr cert)"
  shows "rr_Token q = createAuthToken env mv (rr_User q) \<and>
    (\<exists>t pk der. parsePKIX env (rr_PublicKey q) = Inr pk \<and> signWith env t (ca mv) pk (priv mv) = Inr der \<and>
       cert = pemEncode env ''CERTIFICATE'' der \<and> CommonName t = rr_User q \<and> \<not> IsCA t)"
proof -
  from assms obtain r where tok: "rr_Token q = createAuthToken env mv (rr_User q)"
    and r: "signClient env mv (rr_PublicKey q) (rr_User q) = Return r"
      "(case r of Inl e \<Rightarrow> Inl (SignFailed e) | Inr c \<Rightarrow> Inr c) = Inr cert"
    by (auto simp: Register_def Let_def go_bind_Return_iff split: if_splits)
  then have sign: "signClient env mv (rr_PublicKey q) (rr_User q) = Return (Inr cert)"
    by (cases r) auto
  then obtain pk where pk: "parsePKIX env (rr_PublicKey q) = Inr pk"
    by (cases "parsePKIX env (rr_PublicKey q)") (auto simp: signClient_def)
  with sign obtain t where t: "createCertTemplate env False (rr_User q) = Return t"
    by (cases "createCertTemplate env False (rr_User q)") (auto simp: signClient_def)
  from pk t sign obtain der where "signWith env t (ca mv) pk (priv mv) = Inr der"
    and "cert = pemEncode env ''CERTIFICATE'' der"
    by (cases "signWith env t (ca mv) pk (priv mv)") (auto simp: signClient_def)
  moreover have "CommonName t = rr_User q \<and> \<not> IsCA t"
    using t by (auto simp: createCertTemplate_def Let_def split: sum.splits)
  ultimately show ?thesis using tok pk by blast
qed

theorem Register_requires_token_witness:
  "\<exists>cert. Register demo_env \<lparr>ca = ''c'', priv = ''k''\<rparr>
     \<lparr>rr_User = ''al'', rr_Token = ''616c'', rr_PublicKey = ''P''\<rparr> = Return (Inr cert) \<and>
   ''616c'' = createAuthToken demo_env \<lparr>ca = ''c'', priv = ''k''\<rparr> ''al''"
proof -
  have r: "Register demo_env \<lparr>ca = ''c'', priv = ''k''\<rparr>
     \<lparr>rr_User = ''al'', rr_Token = ''616c'', rr_PublicKey = ''P''\<rparr> = Return (Inr (''CERTIFICATE'' @ NUL # ''al''))"
    by code_simp
  show ?thesis using Register_requires_token [OF r] r by auto
qed

text \<open>
  Signing in a second time under another address orphans what was published before: the
  disconnect cleans up the second identity only, so the file stays in the tree and \<^verbatim>\<open>GetOwners\<close>
  still lists the first identity.
\<close>

theorem resignin_orphans_files:
  assumes "verifiedChains conn = [u # rest]" and "u \<noteq> []" and "a \<noteq> b"
    and "a = backAddr conn x" and "b = backAddr conn y" and "x \<noteq> []" and "y \<noteq> []" and "a \<noteq> []" and "b \<noteq> []"
    and "\<forall>z. dialPeer net z u = None \<and> pingPeer net z = None"
    and "\<not> bad_part u" and "\<not> bad_part f" and "CHR ''/'' \<notin> set f"
  shows "\<exists>p1 d1 p2.
    Signin conn net \<lparr>ProtocolVersion = 1, si_User = u, si_Address = x\<rparr> emptyPeer = Return (p1, None) \<and>
    rpc_SetFile inmem_ops newDatabase p1 \<lparr>sf_Path = f, sf_Info = Some fi\<rparr> = Return (d1, None) \<and>
    Signin conn net \<lparr>ProtocolVersion = 1, si_User = u, si_Address = y\<rparr> p1 = Return (p2, None) \<and>
    Disconnected inmem_ops d1 p2 = Return d1 \<and>
    lookupFile (fileTree d1) [u, f] = Some fi \<and> GetOwners d1 (Hash fi) = Inr [u @ ''@'' @ a]"
proof -
  let ?pa = "\<lparr>user = u, address = a, ident = u @ ''@'' @ a\<rparr>"
  let ?pb = "\<lparr>user = u, address = b, ident = u @ ''@'' @ b\<rparr>"
  let ?da = "\<lparr>fileTree = Directory [(u, Directory [] [(f, fi)] 1)] [] 1, owners = [(Hash fi, [(u @ ''@'' @ a, 1)])]\<rparr>"
  have "Signin conn net \<lparr>ProtocolVersion = 1, si_User = u, si_Address = x\<rparr> emptyPeer = Return (?pa, None)"
    using assms by (simp add: Signin_def emptyPeer_def Let_def)
  moreover have "rpc_SetFile inmem_ops newDatabase ?pa \<lparr>sf_Path = f, sf_Info = Some fi\<rparr> = Return (?da, None)"
    using assms(8,11,12,13)
    by (simp add: rpc_SetFile_def splitOn_no_sep inmem_ops_def SetFile_def setFileLocked_def newDatabase_def
        emptyDir_def addOwner_def putFile_def)
  moreover have "Signin conn net \<lparr>ProtocolVersion = 1, si_User = u, si_Address = y\<rparr> ?pa = Return (?pb, None)"
    using assms by (simp add: Signin_def Let_def)
  moreover have "Disconnected inmem_ops ?da ?pb = Return ?da"
    using assms(3,9)
    by (simp add: Disconnected_def inmem_ops_def PeerDisconnected_fold disconnectTodo_def)
  ultimately show ?thesis
    by - (rule exI [of _ ?pa], rule exI [of _ ?da], rule exI [of _ ?pb],
        simp add: GetOwners_def map_get_def)
qed

theorem resignin_orphans_files_witness:
  "\<exists>p1 d1 p2.
    Signin demo_conn demo_net \<lparr>ProtocolVersion = 1, si_User = ''al'', si_Address = '':1667''\<rparr> emptyPeer = Return (p1, None) \<and>
    rpc_SetFile inmem_ops newDatabase p1 \<lparr>sf_Path = ''x'', sf_Info = Some demo_info\<rparr> = Return (d1, None) \<and>
    Signin demo_conn demo_net \<lparr>ProtocolVersion = 1, si_User = ''al'', si_Address = '':1668''\<rparr> p1 = Return (p2, None) \<and>
    Disconnected inmem_ops d1 p2 = Return d1 \<and> lookupFile (fileTree d1) [''al'', ''x''] = Some demo_info \<and>
    GetOwners d1 (Hash demo_info) = Inr [''al'' @ ''@'' @ ''1.2.3.4:1667'']"
proof -
  have a: "''1.2.3.4:1667'' = backAddr demo_conn '':1667''" and b: "''1.2.3.4:1668'' = backAddr demo_conn '':1668''"
    by code_simp+
  show ?thesis
    by (rule resignin_orphans_files [OF _ _ _ a b])
      (simp_all add: demo_conn_def demo_net_def bad_part_def)
qed

end
