(* ===== verification/Go_Path.thy ===== *)
theory Go_Path
  imports Go_Prelude
begin

text \<open>
  The functions of \<^verbatim>\<open>path/filepath\<close> and \<^verbatim>\<open>path\<close> (on a Unix system) that the sources use: \<^verbatim>\<open>Clean\<close>,
  \<^verbatim>\<open>Join\<close>, \<^verbatim>\<open>Split\<close>, \<^verbatim>\<open>Base\<close>.
\<close>

abbreviation SLASH :: char where "SLASH \<equiv> CHR ''/''"

text \<open>\<^verbatim>\<open>Clean\<close> on the components; \<open>out\<close> holds the kept components in reverse order.\<close>

fun cleanParts :: "bool \<Rightarrow> string list \<Rightarrow> string list \<Rightarrow> string list" where
  "cleanParts rooted out [] = rev out"
| "cleanParts rooted out (p # ps) =
     (if p = [] \<or> p = ''.'' then cleanParts rooted out ps
      else if p = ''..'' then
        (case out of
           [] \<Rightarrow> cleanParts rooted (if rooted then [] else [''..'']) ps
         | x # xs \<Rightarrow> cleanParts rooted (if x = ''..'' then ''..'' # out else xs) ps)
      else cleanParts rooted (p # out) ps)"

definition cleanPath :: "string \<Rightarrow> string" where
  "cleanPath path =
     (if path = [] then ''.''
      else
        let rooted = (path ! 0 = SLASH); s = joinWith ''/'' (cleanParts rooted [] (splitOn SLASH path))
        in if rooted then SLASH # s else if s = [] then ''.'' else s)"

definition joinPath :: "string list \<Rightarrow> string" where
  "joinPath es =
     (let r = dropWhile (\<lambda>e. e = []) es in if r = [] then [] else cleanPath (joinWith ''/'' r))"

text \<open>\<^verbatim>\<open>Split\<close>: the part up to the last slash, and the rest.\<close>

definition splitPath :: "string \<Rightarrow> string \<times> string" where
  "splitPath p =
     (let f = rev (takeWhile (\<lambda>c. c \<noteq> SLASH) (rev p)) in (take (length p - length f) p, f))"

definition basePath :: "string \<Rightarrow> string" where
  "basePath p =
     (if p = [] then ''.''
      else
        let q = rev (dropWhile (\<lambda>c. c = SLASH) (rev p)) in
        if q = [] then ''/'' else rev (takeWhile (\<lambda>c. c \<noteq> SLASH) (rev q)))"

text \<open>
  \<^verbatim>\<open>Rel\<close>: the components of the cleaned paths, less their common prefix; \<open>None\<close> where the
  target cannot be made relative to the base.
\<close>

definition isAbs :: "string \<Rightarrow> bool" where
  "isAbs p \<longleftrightarrow> p \<noteq> [] \<and> p ! 0 = SLASH"

definition pathParts :: "string \<Rightarrow> string list" where
  "pathParts p = cleanParts (isAbs p) [] (splitOn SLASH p)"

fun stripCommon :: "string list \<Rightarrow> string list \<Rightarrow> string list \<times> string list" where
  "stripCommon (b # bs) (t # ts) = (if b = t then stripCommon bs ts else (b # bs, t # ts))"
| "stripCommon bs ts = (bs, ts)"

definition relPath :: "string \<Rightarrow> string \<Rightarrow> string option" where
  "relPath base targ =
     (if isAbs base \<noteq> isAbs targ then None
      else case stripCommon (pathParts base) (pathParts targ) of
        ([], []) \<Rightarrow> Some ''.''
      | ([], ts) \<Rightarrow> Some (joinWith ''/'' ts)
      | (b # bs, ts) \<Rightarrow>
          if b = ''..'' then None
          else Some (joinWith ''/'' (replicate (Suc (length bs)) ''..'' @ ts)))"


section \<open>Lemmas\<close>

definition plain_part :: "string \<Rightarrow> bool" where
  "plain_part x \<longleftrightarrow> x \<noteq> [] \<and> x \<noteq> ''.'' \<and> x \<noteq> ''..'' \<and> SLASH \<notin> set x"

lemma cleanParts_plain:
  "\<forall>x \<in> set ps. plain_part x \<Longrightarrow> cleanParts rooted out ps = rev out @ ps"
  by (induction ps arbitrary: out) (auto simp: plain_part_def)

text \<open>A path of plain components is clean already.\<close>

lemma cleanPath_plain:
  assumes "ps \<noteq> []" and "\<forall>x \<in> set ps. plain_part x"
  shows "cleanPath (joinWith ''/'' ps) = joinWith ''/'' ps"
proof -
  have ends: "joinWith ''/'' ps \<noteq> [] \<and> hd (joinWith ''/'' ps) \<noteq> SLASH"
    using joinWith_ends [of ps SLASH] assms by (auto simp: plain_part_def)
  have "splitOn SLASH (joinWith ''/'' ps) = ps"
    by (rule splitOn_joinWith) (use assms in \<open>auto simp: plain_part_def\<close>)
  moreover have "joinWith ''/'' ps ! 0 \<noteq> SLASH" using ends hd_conv_nth by metis
  ultimately show ?thesis
    using ends assms(2) by (simp add: cleanPath_def cleanParts_plain Let_def)
qed

lemma joinPath_plain:
  assumes "ps \<noteq> []" and "\<forall>x \<in> set ps. plain_part x" and "share = [] \<or> plain_part share"
  shows "joinPath [share, joinWith ''/'' ps] = joinWith ''/'' (if share = [] then ps else share # ps)"
proof -
  have ne: "joinWith ''/'' ps \<noteq> []" using joinWith_ends [of ps SLASH] assms by (auto simp: plain_part_def)
  show ?thesis
  proof (cases "share = []")
    case True
    then show ?thesis using ne cleanPath_plain assms by (simp add: joinPath_def)
  next
    case False
    then have "joinWith ''/'' [share, joinWith ''/'' ps] = joinWith ''/'' (share # ps)"
      using assms(1) by (simp add: joinWith_Cons)
    moreover have "cleanPath (joinWith ''/'' (share # ps)) = joinWith ''/'' (share # ps)"
      by (rule cleanPath_plain) (use assms False in auto)
    ultimately show ?thesis using False by (simp add: joinPath_def)
  qed
qed

lemma joinWith_snoc: "xs \<noteq> [] \<Longrightarrow> joinWith s (xs @ [x]) = joinWith s xs @ s @ x"
  by (induction s xs rule: joinWith.induct) auto

text \<open>The component after the last slash, which \<^verbatim>\<open>Split\<close> and \<^verbatim>\<open>Base\<close> both cut off.\<close>

definition lastPart :: "string \<Rightarrow> string" where
  "lastPart p = rev (takeWhile (\<lambda>c. c \<noteq> SLASH) (rev p))"

lemma lastPart_simps:
  "SLASH \<notin> set f \<Longrightarrow> lastPart (d @ SLASH # f) = f"
  "SLASH \<notin> set f \<Longrightarrow> lastPart f = f"
proof -
  assume f: "SLASH \<notin> set f"
  then have all: "x \<in> set (rev f) \<Longrightarrow> x \<noteq> SLASH" for x by auto
  have "takeWhile (\<lambda>c. c \<noteq> SLASH) (rev f @ SLASH # rev d) = rev f @ takeWhile (\<lambda>c. c \<noteq> SLASH) (SLASH # rev d)"
    by (rule takeWhile_append2) (rule all)
  then show "lastPart (d @ SLASH # f) = f" unfolding lastPart_def by (simp del: takeWhile_append)
  have "takeWhile (\<lambda>c. c \<noteq> SLASH) (rev f) = rev f" using all by (simp only: takeWhile_eq_all_conv) blast
  then show "lastPart f = f" by (simp only: lastPart_def rev_rev_ident)
qed

lemma splitPath_append: "SLASH \<notin> set f \<Longrightarrow> splitPath (d @ SLASH # f) = (d @ ''/'', f)"
  by (simp add: splitPath_def lastPart_def [symmetric] lastPart_simps del: rev_append rev.simps)

lemma splitPath_plain: "SLASH \<notin> set f \<Longrightarrow> splitPath f = ([], f)"
  by (simp add: splitPath_def lastPart_def [symmetric] lastPart_simps)

lemma splitPath_joined:
  assumes "xs \<noteq> []" and "SLASH \<notin> set f"
  shows "splitPath (joinWith ''/'' (xs @ [f])) = (joinWith ''/'' xs @ ''/'', f)"
  using splitPath_append [OF assms(2)] assms(1) by (simp add: joinWith_snoc)

lemma strip_slashes:
  assumes "SLASH \<notin> set f" and "f \<noteq> []"
  shows "rev (dropWhile (\<lambda>c. c = SLASH) (rev (d @ f))) = d @ f"
  using assms by (cases f rule: rev_cases) auto

lemma basePath_append: "SLASH \<notin> set f \<Longrightarrow> f \<noteq> [] \<Longrightarrow> basePath (d @ SLASH # f) = f"
  using strip_slashes [of f "d @ [SLASH]"]
  by (simp add: basePath_def lastPart_def [symmetric] lastPart_simps del: rev_append rev.simps)

lemma basePath_plain: "SLASH \<notin> set f \<Longrightarrow> f \<noteq> [] \<Longrightarrow> basePath f = f"
  using strip_slashes [of f "[]"]
  by (simp add: basePath_def lastPart_def [symmetric] lastPart_simps)


section \<open>Cleaning twice, and relative paths\<close>

text \<open>The component lists (reversed) that \<^verbatim>\<open>Clean\<close> produces.\<close>

fun normalOut :: "bool \<Rightarrow> string list \<Rightarrow> bool" where
  "normalOut r [] = True"
| "normalOut r (x # xs) =
     (x \<noteq> [] \<and> x \<noteq> ''.'' \<and> SLASH \<notin> set x \<and> (x = ''..'' \<longrightarrow> \<not> r \<and> (xs = [] \<or> hd xs = ''..'')) \<and> normalOut r xs)"

lemma normalOut_appendD: "normalOut r (xs @ ys) \<Longrightarrow> normalOut r ys"
  by (induction xs) auto

lemma normalOut_parts: "normalOut r xs \<Longrightarrow> x \<in> set xs \<Longrightarrow> x \<noteq> [] \<and> SLASH \<notin> set x"
  by (induction xs) auto

lemma cleanParts_normal:
  "normalOut r out \<Longrightarrow> \<forall>x \<in> set ps. SLASH \<notin> set x \<Longrightarrow> normalOut r (rev (cleanParts r out ps))"
  by (induction r out ps rule: cleanParts.induct) (auto split: list.splits)

lemma cleanParts_normal_id: "normalOut r (rev qs @ out) \<Longrightarrow> cleanParts r out qs = rev out @ qs"
proof (induction qs arbitrary: out)
  case (Cons q qs)
  then have n: "normalOut r (rev qs @ q # out)" by simp
  then have q: "normalOut r (q # out)" by (rule normalOut_appendD)
  have "cleanParts r out (q # qs) = cleanParts r (q # out) qs"
    using q by (cases out) auto
  then show ?case using Cons.IH [OF n] by simp
qed simp

lemma cleanParts_append:
  "cleanParts r out (ps @ qs) = cleanParts r (rev (cleanParts r out ps)) qs"
  by (induction r out ps rule: cleanParts.induct) (auto split: list.splits)

lemma splitOn_snoc: "c \<notin> set n \<Longrightarrow> splitOn c (p @ c # n) = splitOn c p @ [n]"
  by (induction p) (auto simp: splitOn_no_sep split: list.splits)

lemma splitOn_slash_free: "x \<in> set (splitOn SLASH p) \<Longrightarrow> SLASH \<notin> set x"
  using splitOn_parts by fastforce

lemma pathParts_normal: "normalOut (isAbs p) (rev (pathParts p))"
  unfolding pathParts_def by (rule cleanParts_normal) (auto dest: splitOn_slash_free)

lemma cleanPath_parts:
  "cleanPath p = (if isAbs p then SLASH # joinWith ''/'' (pathParts p)
     else if pathParts p = [] then ''.'' else joinWith ''/'' (pathParts p))"
  (is "_ = ?r")
proof (cases "p = []")
  case True
  then show ?thesis by (simp add: cleanPath_def isAbs_def pathParts_def)
next
  case False
  have "joinWith ''/'' (pathParts p) = [] \<longleftrightarrow> pathParts p = []"
    using joinWith_ends [of "pathParts p" SLASH] normalOut_parts [OF pathParts_normal [of p]] by auto
  then show ?thesis
    using False by (cases "p ! 0 = SLASH") (simp_all add: cleanPath_def isAbs_def pathParts_def Let_def)
qed

lemma isAbs_cleanPath [simp]: "isAbs (cleanPath p) = isAbs p"
  and pathParts_cleanPath [simp]: "pathParts (cleanPath p) = pathParts p"
proof -
  let ?ps = "pathParts p"
  have free: "\<forall>x \<in> set ?ps. x \<noteq> [] \<and> SLASH \<notin> set x"
    using normalOut_parts [OF pathParts_normal [of p]] by auto
  have id: "cleanParts (isAbs p) [] ?ps = ?ps"
    using cleanParts_normal_id [of "isAbs p" ?ps "[]"] pathParts_normal by simp
  have split: "splitOn SLASH (joinWith ''/'' ?ps) = ?ps" if "?ps \<noteq> []"
    by (rule splitOn_joinWith) (use free that in auto)
  have ends: "joinWith ''/'' ?ps \<noteq> [] \<and> joinWith ''/'' ?ps ! 0 \<noteq> SLASH" if "?ps \<noteq> []"
    using joinWith_ends [of ?ps SLASH] free that hd_conv_nth by (metis (no_types, lifting))
  show a: "isAbs (cleanPath p) = isAbs p"
    using ends by (auto simp: cleanPath_parts isAbs_def)
  show "pathParts (cleanPath p) = ?ps"
  proof (cases "?ps = []")
    case True
    then show ?thesis using a by (simp add: pathParts_def [of "cleanPath p"]) (simp add: cleanPath_parts True)
  next
    case False
    then show ?thesis using a split id
      by (cases "isAbs p") (simp_all add: pathParts_def [of "cleanPath p"], simp_all add: cleanPath_parts)
  qed
qed

text \<open>Joining a plain name to a path appends it to the components.\<close>

lemma joinPath_parts:
  assumes "p \<noteq> []" and "plain_part n"
  shows "pathParts (joinPath [p, n]) = pathParts p @ [n]" and "isAbs (joinPath [p, n]) = isAbs p"
    and "joinPath [p, n] \<noteq> []"
proof -
  have n: "n \<noteq> []" "SLASH \<notin> set n" "n \<noteq> ''.''" "n \<noteq> ''..''" using assms(2) by (auto simp: plain_part_def)
  have j: "joinPath [p, n] = cleanPath (p @ SLASH # n)" using assms by (simp add: joinPath_def)
  have ab: "isAbs (p @ SLASH # n) = isAbs p" using assms(1) by (cases p) (auto simp: isAbs_def)
  have "splitOn SLASH (p @ SLASH # n) = splitOn SLASH p @ [n]"
    using splitOn_snoc [OF n(2)] by simp
  then show "pathParts (joinPath [p, n]) = pathParts p @ [n]"
    using n by (simp add: j) (simp add: pathParts_def ab cleanParts_append)
  show "isAbs (joinPath [p, n]) = isAbs p" by (simp add: j ab)
  show "joinPath [p, n] \<noteq> []"
    using \<open>pathParts (joinPath [p, n]) = _\<close> by (auto simp: pathParts_def isAbs_def)
qed

lemma stripCommon_prefix: "stripCommon bs (bs @ ts) = ([], ts)"
  by (induction bs) (cases ts; simp)+

lemma relPath_under:
  assumes "isAbs t = isAbs b" and "pathParts t = pathParts b @ ns"
  shows "relPath b t = Some (if ns = [] then ''.'' else joinWith ''/'' ns)"
  using assms by (auto simp: relPath_def stripCommon_prefix split: list.splits)

end
