(* ===== verification/File_Scanner.thy ===== *)
theory File_Scanner
  imports Rufs_Types Go_Path "HOL-Library.Multiset"
begin

text \<open>
  The scanner of a shared directory, \<^verbatim>\<open>filescanner/filescanner.go\<close>, with \<^verbatim>\<open>common/hash.go\<close>.

  The directory tree at the time of a pass is a value of type \<open>fs_node\<close>: what \<^verbatim>\<open>Lstat\<close> and
  \<^verbatim>\<open>readDirNames\<close> answer for each path below the base directory, a directory's entries in the order
  \<^verbatim>\<open>readDirNames\<close> returns them. \<open>walk\<close> is \<^verbatim>\<open>filepath.Walk\<close>. The bytes a file yields when it is
  hashed come from a separate argument, since the file may change between \<^verbatim>\<open>Lstat\<close> and \<^verbatim>\<open>Open\<close>.

  A listener's callback changes a state \<open>'w\<close> of the program around the scanner, which also knows
  the contexts that are cancelled. The hash cache on disk is a map from file name to contents; what
  the \<^verbatim>\<open>gob\<close> and \<^verbatim>\<open>gzip\<close> encoders wrote is the value they encoded, a file cut short is \<open>Junk\<close>.
\<close>

section \<open>Walking a directory tree\<close>

record os_info =
  fi_Size :: int
  fi_ModTime :: int

datatype fs_node =
    LstatFails
  | RegularFile os_info
  | OtherFile
  | UnreadableDir
  | Directory "(string \<times> fs_node) list"

datatype walk_info = NoInfo | DirInfo | OtherInfo | RegInfo os_info

datatype walk_err = WalkNil | SkipDir

type_synonym 's walk_fn = "string \<Rightarrow> walk_info \<Rightarrow> bool \<Rightarrow> 's \<Rightarrow> (walk_err \<times> 's) go"

fun isDirNode :: "fs_node \<Rightarrow> bool" where
  "isDirNode UnreadableDir = True"
| "isDirNode (Directory es) = True"
| "isDirNode n = False"

text \<open>
  The third argument of the callback says whether an error was passed to it. An error other than
  \<^verbatim>\<open>SkipDir\<close> is not modelled, as the only callback of the program never returns one.
\<close>

fun walk :: "'s walk_fn \<Rightarrow> string \<Rightarrow> fs_node \<Rightarrow> 's \<Rightarrow> (walk_err \<times> 's) go"
  and walkNames :: "'s walk_fn \<Rightarrow> string \<Rightarrow> (string \<times> fs_node) list \<Rightarrow> 's \<Rightarrow> (walk_err \<times> 's) go"
where
  "walk f path LstatFails s = f path NoInfo True s"
| "walk f path (RegularFile i) s = f path (RegInfo i) False s"
| "walk f path OtherFile s = f path OtherInfo False s"
| "walk f path UnreadableDir s = f path DirInfo True s"
| "walk f path (Directory es) s =
     go_bind (f path DirInfo False s)
       (\<lambda>(r, s). if r \<noteq> WalkNil then Return (r, s) else walkNames f path es s)"
| "walkNames f path [] s = Return (WalkNil, s)"
| "walkNames f path ((name, n) # es) s =
     go_bind (walk f (joinPath [path, name]) n s)
       (\<lambda>(r, s). if r \<noteq> WalkNil \<and> \<not> (n = LstatFails \<or> isDirNode n) then Return (r, s)
                 else walkNames f path es s)"

definition filepath_Walk :: "'s walk_fn \<Rightarrow> string \<Rightarrow> fs_node \<Rightarrow> 's \<Rightarrow> (walk_err \<times> 's) go" where
  "filepath_Walk f root n s = go_bind (walk f root n s) (\<lambda>(r, s). Return (WalkNil, s))"

definition scanCallback :: "string \<Rightarrow> (string \<Rightarrow> os_info \<Rightarrow> 's \<Rightarrow> 's) \<Rightarrow> 's walk_fn" where
  "scanCallback baseDir callback path info err s =
     (if err then Return (WalkNil, s)
      else case relPath baseDir path of
        None \<Rightarrow> Panic
      | Some rel \<Rightarrow>
          let base = basePath rel in
          if base ! 0 = CHR ''.'' \<and> base \<noteq> ''.'' \<and> base \<noteq> ''..'' then
            Return (if info = DirInfo then SkipDir else WalkNil, s)
          else case info of
            RegInfo i \<Rightarrow> Return (WalkNil, callback rel i s)
          | _ \<Rightarrow> Return (WalkNil, s))"

definition scanFilesystem ::
  "string \<Rightarrow> fs_node \<Rightarrow> (string \<Rightarrow> os_info \<Rightarrow> 's \<Rightarrow> 's) \<Rightarrow> 's \<Rightarrow> (walk_err \<times> 's) go"
where
  "scanFilesystem baseDir tree callback s = filepath_Walk (scanCallback baseDir callback) baseDir tree s"

definition scanFilesystemAndReportMissing ::
  "string \<Rightarrow> fs_node \<Rightarrow> string list \<Rightarrow> (string \<Rightarrow> os_info \<Rightarrow> 's \<Rightarrow> 's) \<Rightarrow> 's
     \<Rightarrow> ((string list \<times> walk_err) \<times> 's) go"
where
  "scanFilesystemAndReportMissing baseDir tree missing callback s =
     go_bind (scanFilesystem baseDir tree
                (\<lambda>path info (miss, s). (removeAll path miss, callback path info s)) (missing, s))
       (\<lambda>(err, miss, s). Return ((miss, err), s))"


section \<open>The scanner\<close>

text \<open>
  A \<^verbatim>\<open>*common.FileInfo\<close> handed to a callback: the value it points to at the time of the call, and the values
  that the variable takes later, in order. A pointer to a variable that nobody else writes has none;
  \<^verbatim>\<open>ContinuousExport\<close> passes the address of its loop variable, which (before Go 1.22) is one variable for
  all iterations. A callback that keeps the pointer can read any of these values.
\<close>

datatype info_ptr = InfoPtr (pointee: FileInfo) (overwrites: "FileInfo list")

definition fresh :: "FileInfo \<Rightarrow> info_ptr" where
  "fresh f = InfoPtr f []"

type_synonym 'w export_callback =
  "nat \<Rightarrow> string \<Rightarrow> info_ptr option \<Rightarrow> FileInfo option \<Rightarrow> 'w \<Rightarrow> 'w"

record 'w listener =
  callback :: "'w export_callback"
  ctx :: nat

record 'w Scanner =
  baseDir :: string
  cacheDir :: string
  fileCache :: "(string, FileInfo) gomap"
  listeners :: "'w listener list"

text \<open>The contents of a file in the cache directory.\<close>

datatype blob = GobGz "(string, FileInfo) gomap" | Junk

text \<open>The scanner with the cache directory and the program around it.\<close>

record 'w sys =
  sc :: "'w Scanner"
  files :: "(string, blob) gomap"
  world :: 'w

text \<open>
  What the operating system answers: which contexts are cancelled, whether creating, encoding,
  closing and renaming the hash cache fails, and the digest function. \<open>snapshot\<close> is the shared
  directory during one pass; \<open>osOpen\<close> yields the bytes a file is read as, with the error that ended
  the copy, if any.
\<close>

record 'w scan_env =
  isDone :: "'w \<Rightarrow> nat \<Rightarrow> bool"
  sha1sum :: "string \<Rightarrow> string"
  createErr :: "go_error option"
  encodeErr :: "go_error option"
  closeFails :: bool
  renameErr :: "go_error option"

record snapshot =
  tree :: fs_node
  osOpen :: "string \<Rightarrow> go_error + (string \<times> go_error option)"

definition zeroInfo :: FileInfo where
  "zeroInfo = \<lparr>Size = 0, Hash = [], Mtime = 0\<rparr>"

definition HashFile :: "(string \<Rightarrow> string) \<Rightarrow> (string \<Rightarrow> go_error + (string \<times> go_error option)) \<Rightarrow> string \<Rightarrow> go_error + string" where
  "HashFile h opn fn =
     (case opn fn of
        Inl e \<Rightarrow> Inl e
      | Inr (bytes, Some e) \<Rightarrow> Inl e
      | Inr (bytes, None) \<Rightarrow> Inr (hexBytes (h bytes)))"

definition New :: "string \<Rightarrow> string \<Rightarrow> 'w Scanner" where
  "New base cdir = \<lparr>baseDir = base, cacheDir = cdir, fileCache = [], listeners = []\<rparr>"

definition cacheFileName :: "'w Scanner \<Rightarrow> string" where
  "cacheFileName m =
     joinPath [cacheDir m, ''hashcache-'' @ map (\<lambda>c. if c = CHR ''/'' then CHR ''-'' else c) (baseDir m) @ ''.dat'']"

definition readHashCache :: "(string, blob) gomap \<Rightarrow> 'w Scanner \<Rightarrow> go_error + (string, FileInfo) gomap" where
  "readHashCache fs m =
     (case map_of fs (cacheFileName m) of
        None \<Rightarrow> Inl (OsError (cacheFileName m))
      | Some Junk \<Rightarrow> Inl IoEOF
      | Some (GobGz c) \<Rightarrow> Inr c)"

definition writeHashCache ::
  "'w scan_env \<Rightarrow> 'w Scanner \<Rightarrow> (string, FileInfo) gomap \<Rightarrow> (string, blob) gomap
     \<Rightarrow> (string, blob) gomap \<times> go_error option"
where
  "writeHashCache env m c fs =
     (let new = cacheFileName m @ ''.new'' in
      case createErr env of
        Some e \<Rightarrow> (fs, Some e)
      | None \<Rightarrow>
          (case encodeErr env of
             Some e \<Rightarrow> (AList.update new Junk fs, Some e)
           | None \<Rightarrow>
               let b = (if closeFails env then Junk else GobGz c) in
               case renameErr env of
                 Some e \<Rightarrow> (AList.update new b fs, Some e)
               | None \<Rightarrow> (AList.update (cacheFileName m) b (AList.delete new fs), None)))"

text \<open>
  The loop of \<^verbatim>\<open>set\<close> over the listeners: a listener whose context is cancelled is replaced by the
  last one, which is visited next at the same index.
\<close>

function notify ::
  "('w \<Rightarrow> nat \<Rightarrow> bool) \<Rightarrow> string \<Rightarrow> info_ptr option \<Rightarrow> FileInfo \<Rightarrow> nat \<Rightarrow> 'w listener list \<Rightarrow> 'w
     \<Rightarrow> 'w listener list \<times> 'w"
where
  "notify dn path fi old i ls w =
     (if length ls > i then
        let l = ls ! i in
        if dn w (ctx l) then
          notify dn path fi old i (take (length ls - 1) (ls[i := ls ! (length ls - 1)])) w
        else notify dn path fi old (Suc i) ls (callback l (ctx l) path fi (Some old) w)
      else (ls, w))"
  by pat_completeness auto
termination
  by (relation "measure (\<lambda>(dn, path, fi, old, i, ls, w). length ls - i)") auto

declare notify.simps [simp del]

definition scanner_set :: "'w scan_env \<Rightarrow> string \<Rightarrow> FileInfo option \<Rightarrow> 'w sys \<Rightarrow> 'w sys" where
  "scanner_set env path fi s =
     (let m = sc s;
          old = map_get zeroInfo (fileCache m) path;
          c = (case fi of Some f \<Rightarrow> AList.update path f (fileCache m) | None \<Rightarrow> AList.delete path (fileCache m));
          (ls, w) = notify (isDone env) path (map_option fresh fi) old 0 (listeners m) (world s)
      in s\<lparr>sc := m\<lparr>fileCache := c, listeners := ls\<rparr>, world := w\<rparr>)"

definition save :: "'w scan_env \<Rightarrow> 'w sys \<Rightarrow> 'w sys" where
  "save env s = s\<lparr>files := fst (writeHashCache env (sc s) (fileCache (sc s)) (files s))\<rparr>"

definition seedCallback ::
  "'w scan_env \<Rightarrow> (string, FileInfo) gomap \<Rightarrow> string \<Rightarrow> os_info \<Rightarrow> 'w sys \<Rightarrow> 'w sys"
where
  "seedCallback env seed path info s =
     (case map_of seed path of
        Some f \<Rightarrow> if Size f = fi_Size info \<and> Mtime f = fi_ModTime info then scanner_set env path (Some f) s else s
      | None \<Rightarrow> s)"

definition fastPass :: "'w scan_env \<Rightarrow> snapshot \<Rightarrow> 'w sys \<Rightarrow> 'w sys go" where
  "fastPass env snap s =
     (case readHashCache (files s) (sc s) of
        Inl e \<Rightarrow> Return s
      | Inr seed \<Rightarrow>
          go_bind (scanFilesystem (baseDir (sc s)) (tree snap) (seedCallback env seed) s)
            (\<lambda>(err, s). Return s))"

definition getFileNames :: "'w Scanner \<Rightarrow> string list" where
  "getFileNames m = map fst (fileCache m)"

definition hashCallback ::
  "'w scan_env \<Rightarrow> snapshot \<Rightarrow> string \<Rightarrow> os_info \<Rightarrow> 'w sys \<Rightarrow> 'w sys"
where
  "hashCallback env snap path info s =
     (if (case map_of (fileCache (sc s)) path of
            Some f \<Rightarrow> Size f = fi_Size info \<and> Mtime f = fi_ModTime info
          | None \<Rightarrow> False)
      then s
      else case HashFile (sha1sum env) (osOpen snap) (joinPath [baseDir (sc s), path]) of
        Inl e \<Rightarrow> s
      | Inr h \<Rightarrow> scanner_set env path (Some \<lparr>Size = fi_Size info, Hash = h, Mtime = fi_ModTime info\<rparr>) s)"

text \<open>
  \<^verbatim>\<open>normalPass\<close> with a hook that runs before each file is looked at. \<^verbatim>\<open>normalPass\<close> itself has none;
  in \<^verbatim>\<open>normalPassWithIntermediateAutoSaving\<close> it is the goroutine that saves the cache whenever its
  timer has fired, which \<open>ticks\<close> says for the number of files seen so far.
\<close>

definition passWith ::
  "(nat \<Rightarrow> 'w sys \<Rightarrow> 'w sys) \<Rightarrow> 'w scan_env \<Rightarrow> snapshot \<Rightarrow> 'w sys \<Rightarrow> 'w sys go"
where
  "passWith hook env snap s =
     go_bind (scanFilesystemAndReportMissing (baseDir (sc s)) (tree snap) (getFileNames (sc s))
                (\<lambda>path info (n, s). (Suc n, hashCallback env snap path info (hook n s))) (0, s))
       (\<lambda>((missing, err), n, s).
          Return (if err \<noteq> WalkNil then s else fold (\<lambda>fn. scanner_set env fn None) missing s))"

definition normalPass :: "'w scan_env \<Rightarrow> snapshot \<Rightarrow> 'w sys \<Rightarrow> 'w sys go" where
  "normalPass env snap s = passWith (\<lambda>n s. s) env snap s"

definition normalPassWithIntermediateAutoSaving ::
  "'w scan_env \<Rightarrow> (nat \<Rightarrow> bool) \<Rightarrow> snapshot \<Rightarrow> 'w sys \<Rightarrow> 'w sys go"
where
  "normalPassWithIntermediateAutoSaving env ticks snap s =
     passWith (\<lambda>n s. if ticks n then save env s else s) env snap s"

text \<open>
  \<^verbatim>\<open>Run\<close> until its context is cancelled: the list holds the directory at each of the passes the loop
  makes before that.
\<close>

fun runLoop :: "'w scan_env \<Rightarrow> snapshot list \<Rightarrow> 'w sys \<Rightarrow> 'w sys go" where
  "runLoop env [] s = Return (save env s)"
| "runLoop env (snap # snaps) s = go_bind (normalPass env snap (save env s)) (runLoop env snaps)"

definition scanner_Run ::
  "'w scan_env \<Rightarrow> snapshot \<Rightarrow> (nat \<Rightarrow> bool) \<Rightarrow> snapshot \<Rightarrow> snapshot list \<Rightarrow> 'w sys \<Rightarrow> 'w sys go"
where
  "scanner_Run env snapF ticks snapN snaps s =
     go_bind (fastPass env snapF s)
       (\<lambda>s. go_bind (normalPassWithIntermediateAutoSaving env ticks snapN s) (runLoop env snaps))"

text \<open>The pointer that the loop hands out sees the entries of the iterations still to come.\<close>

fun exportLoop ::
  "('w \<Rightarrow> nat \<Rightarrow> bool) \<Rightarrow> nat \<Rightarrow> 'w export_callback \<Rightarrow> (string, FileInfo) gomap \<Rightarrow> 'w \<Rightarrow> 'w"
where
  "exportLoop dn c cb [] w = w"
| "exportLoop dn c cb ((fn, fi) # rest) w =
     (if dn w c then w
      else exportLoop dn c cb rest (cb c fn (Some (InfoPtr fi (map snd rest))) None w))"

definition ContinuousExport :: "'w scan_env \<Rightarrow> nat \<Rightarrow> 'w export_callback \<Rightarrow> 'w sys \<Rightarrow> 'w sys" where
  "ContinuousExport env c cb s =
     (let m = sc s in
      s\<lparr>sc := m\<lparr>listeners := listeners m @ [\<lparr>callback = cb, ctx = c\<rparr>]\<rparr>,
        world := exportLoop (isDone env) c cb (fileCache m) (world s)\<rparr>)"


section \<open>What a scan visits\<close>

text \<open>The regular files with no hidden component above them, with their components and metadata.\<close>

definition hidden :: "string \<Rightarrow> bool" where
  "hidden n \<longleftrightarrow> n ! 0 = CHR ''.''"

fun visible :: "string list \<Rightarrow> fs_node \<Rightarrow> (string list \<times> os_info) list"
  and visibleNames :: "string list \<Rightarrow> (string \<times> fs_node) list \<Rightarrow> (string list \<times> os_info) list"
where
  "visible ns (RegularFile i) = [(ns, i)]"
| "visible ns (Directory es) = visibleNames ns es"
| "visible ns LstatFails = []"
| "visible ns OtherFile = []"
| "visible ns UnreadableDir = []"
| "visibleNames ns [] = []"
| "visibleNames ns ((n, c) # es) = (if hidden n then [] else visible (ns @ [n]) c) @ visibleNames ns es"

definition relName :: "string list \<Rightarrow> string" where
  "relName ns = (if ns = [] then ''.'' else joinWith ''/'' ns)"

text \<open>What the operating system guarantees of a directory: plain, distinct names.\<close>

fun wf_tree :: "fs_node \<Rightarrow> bool" where
  "wf_tree (Directory es) \<longleftrightarrow> distinct (map fst es) \<and> (\<forall>(n, c) \<in> set es. plain_part n \<and> wf_tree c)"
| "wf_tree n \<longleftrightarrow> True"

definition found :: "fs_node \<Rightarrow> (string, os_info) gomap" where
  "found n = map (\<lambda>(ns, i). (relName ns, i)) (visible [] n)"

lemma basePath_relName:
  assumes "ns = [] \<or> plain_part (last ns)"
  shows "basePath (relName ns) = (if ns = [] then ''.'' else last ns)"
proof (cases ns rule: rev_cases)
  case Nil
  then show ?thesis by (simp add: relName_def basePath_def)
next
  case (snoc xs x)
  then have "SLASH \<notin> set x" "x \<noteq> []" using assms by (auto simp: plain_part_def)
  then show ?thesis using snoc
    by (cases "xs = []") (simp_all add: relName_def basePath_plain joinWith_snoc basePath_append)
qed

lemma scanCallback_at:
  assumes "isAbs path = isAbs base" and "pathParts path = pathParts base @ ns"
    and "ns = [] \<or> plain_part (last ns)"
  shows "scanCallback base cb path info False s =
    (if ns \<noteq> [] \<and> hidden (last ns) then Return (if info = DirInfo then SkipDir else WalkNil, s)
     else case info of RegInfo i \<Rightarrow> Return (WalkNil, cb (relName ns) i s) | _ \<Rightarrow> Return (WalkNil, s))"
proof -
  have "relPath base path = Some (relName ns)"
    using relPath_under [OF assms(1,2)] by (simp add: relName_def)
  then show ?thesis
    using assms(3) basePath_relName [OF assms(3)]
    by (auto simp: scanCallback_def hidden_def plain_part_def)
qed

lemma walk_hidden:
  assumes "isAbs path = isAbs base" and "pathParts path = pathParts base @ ns @ [n]"
    and "plain_part n" and "hidden n"
  shows "\<exists>r. walk (scanCallback base cb) path c s = Return (r, s) \<and> (r = SkipDir \<longrightarrow> isDirNode c)"
proof -
  have at: "scanCallback base cb path info False s = Return (if info = DirInfo then SkipDir else WalkNil, s)" for info
    using scanCallback_at [OF assms(1,2), of cb] assms(3,4) by simp
  have err: "scanCallback base cb path info True s = Return (WalkNil, s)" for info
    by (simp add: scanCallback_def)
  show ?thesis by (cases c) (simp_all add: at err)
qed

lemma walk_visible:
  "wf_tree c \<Longrightarrow> isAbs path = isAbs base \<Longrightarrow> pathParts path = pathParts base @ ns \<Longrightarrow> path \<noteq> [] \<Longrightarrow>
   ns = [] \<or> plain_part (last ns) \<and> \<not> hidden (last ns) \<Longrightarrow>
   walk (scanCallback base cb) path c s = Return (WalkNil, fold (\<lambda>(ns, i). cb (relName ns) i) (visible ns c) s)"
  "\<forall>(n, c) \<in> set es. plain_part n \<and> wf_tree c \<Longrightarrow>
   isAbs path = isAbs base \<Longrightarrow> pathParts path = pathParts base @ ns \<Longrightarrow> path \<noteq> [] \<Longrightarrow>
   walkNames (scanCallback base cb) path es s =
     Return (WalkNil, fold (\<lambda>(ns, i). cb (relName ns) i) (visibleNames ns es) s)"
proof (induction "scanCallback base cb" path c s and "scanCallback base cb" path es s
    arbitrary: ns and ns rule: walk_walkNames.induct)
  case (1 path s)
  then show ?case by (simp add: scanCallback_def)
next
  case (2 path i s)
  then show ?case using scanCallback_at [of path base ns cb] by auto
next
  case (3 path s)
  then show ?case using scanCallback_at [of path base ns cb] by auto
next
  case (4 path s)
  then show ?case by (simp add: scanCallback_def)
next
  case (5 path es s)
  then have "scanCallback base cb path DirInfo False s = Return (WalkNil, s)"
    using scanCallback_at [of path base ns cb] by auto
  with 5 show ?case by auto
next
  case (6 path s)
  then show ?case by simp
next
  case (7 path name n es s)
  let ?p = "joinPath [path, name]"
  have name: "plain_part name" and wf: "wf_tree n" using 7(3) by auto
  note parts = joinPath_parts [OF 7(6) name]
  have ab: "isAbs ?p = isAbs base" "pathParts ?p = pathParts base @ ns @ [name]" "?p \<noteq> []"
    using parts 7(4,5) by auto
  show ?case
  proof (cases "hidden name")
    case True
    then obtain r where r: "walk (scanCallback base cb) ?p n s = Return (r, s)" "r = SkipDir \<longrightarrow> isDirNode n"
      using walk_hidden [OF ab(1,2) name True, of cb n s] by auto
    then have go: "\<not> (r \<noteq> WalkNil \<and> \<not> (n = LstatFails \<or> isDirNode n))" by (cases r) auto
    have rest: "walkNames (scanCallback base cb) path es s =
        Return (WalkNil, fold (\<lambda>(ns, i). cb (relName ns) i) (visibleNames ns es) s)"
      by (rule 7(2) [OF r(1) refl go]) (use 7(3-6) in auto)
    from go True show ?thesis by (simp only: walkNames.simps r(1) go_bind.simps prod.case rest) simp
  next
    case False
    have w: "walk (scanCallback base cb) ?p n s =
        Return (WalkNil, fold (\<lambda>(ns, i). cb (relName ns) i) (visible (ns @ [name]) n) s)"
      by (rule 7(1)) (use wf ab name False in auto)
    let ?t = "fold (\<lambda>(ns, i). cb (relName ns) i) (visible (ns @ [name]) n) s"
    have rest: "walkNames (scanCallback base cb) path es ?t =
        Return (WalkNil, fold (\<lambda>(ns, i). cb (relName ns) i) (visibleNames ns es) ?t)"
      by (rule 7(2) [OF w refl]) (use 7(3-6) in auto)
    show ?thesis using False by (simp only: walkNames.simps w go_bind.simps prod.case rest) simp
  qed
qed

lemma scanFilesystem_found:
  assumes "wf_tree n" and "base \<noteq> []"
  shows "scanFilesystem base n cb s = Return (WalkNil, fold (\<lambda>(p, i). cb p i) (found n) s)"
  using walk_visible(1) [of n base base "[]" cb s] assms
  by (simp add: scanFilesystem_def filepath_Walk_def found_def fold_map comp_def split_def)


text \<open>The paths a scan reports are distinct, and no component of them is hidden.\<close>

lemma visible_parts:
  "wf_tree c \<Longrightarrow> (ns', i) \<in> set (visible ns c) \<Longrightarrow>
   \<exists>ms. ns' = ns @ ms \<and> (\<forall>m \<in> set ms. plain_part m \<and> \<not> hidden m)"
  "\<forall>(n, c) \<in> set es. plain_part n \<and> wf_tree c \<Longrightarrow> (ns', i) \<in> set (visibleNames ns es) \<Longrightarrow>
   \<exists>m ms. ns' = ns @ m # ms \<and> m \<in> fst ` set es \<and> (\<forall>m \<in> set (m # ms). plain_part m \<and> \<not> hidden m)"
proof (induction ns c and ns es arbitrary: ns' i and ns' i rule: visible_visibleNames.induct)
  case (2 ns es)
  then have wf: "\<forall>(n, c) \<in> set es. plain_part n \<and> wf_tree c" and mem: "(ns', i) \<in> set (visibleNames ns es)"
    by auto
  from "2.IH" [OF wf mem] obtain m ms
    where "ns' = ns @ m # ms" and "\<forall>m \<in> set (m # ms). plain_part m \<and> \<not> hidden m" by blast
  then show ?case by blast
next
  case (7 ns n c es)
  consider (here) "\<not> hidden n" "(ns', i) \<in> set (visible (ns @ [n]) c)" | (rest) "(ns', i) \<in> set (visibleNames ns es)"
    using "7.prems"(2) by (auto split: if_splits)
  then show ?case
  proof cases
    case here
    from "7.prems"(1) have "wf_tree c" and n: "plain_part n" by auto
    with "7.IH"(1) [OF here(1) _ here(2)] obtain ms
      where "ns' = (ns @ [n]) @ ms" and ms: "\<forall>m \<in> set ms. plain_part m \<and> \<not> hidden m" by blast
    then have "ns' = ns @ n # ms" and "\<forall>m \<in> set (n # ms). plain_part m \<and> \<not> hidden m"
      using n here(1) by auto
    then show ?thesis by (intro exI [of _ n] exI [of _ ms]) simp
  next
    case rest
    have "\<forall>(n, c) \<in> set es. plain_part n \<and> wf_tree c" using "7.prems"(1) by auto
    from "7.IH"(2) [OF this rest] obtain m ms
      where "ns' = ns @ m # ms" "m \<in> fst ` set es" "\<forall>m \<in> set (m # ms). plain_part m \<and> \<not> hidden m" by blast
    then show ?thesis by (intro exI [of _ m] exI [of _ ms]) simp
  qed
qed auto

lemma visible_distinct:
  "wf_tree c \<Longrightarrow> distinct (map fst (visible ns c))"
  "distinct (map fst es) \<Longrightarrow> \<forall>(n, c) \<in> set es. plain_part n \<and> wf_tree c \<Longrightarrow>
   distinct (map fst (visibleNames ns es))"
proof (induction ns c and ns es rule: visible_visibleNames.induct)
  case (7 ns n c es)
  have wf: "wf_tree c" "\<forall>(n, c) \<in> set es. plain_part n \<and> wf_tree c" and n: "n \<notin> fst ` set es"
    using "7.prems" by auto
  have disj: "fst ` set (visible (ns @ [n]) c) \<inter> fst ` set (visibleNames ns es) = {}"
  proof (rule ccontr)
    assume "\<not> ?thesis"
    then obtain ns' i j where a: "(ns', i) \<in> set (visible (ns @ [n]) c)"
      and b: "(ns', j) \<in> set (visibleNames ns es)" by force
    from visible_parts(1) [OF wf(1) a] obtain ms where "ns' = ns @ n # ms" by auto
    moreover from visible_parts(2) [OF wf(2) b] obtain m ms' where "ns' = ns @ m # ms'" "m \<in> fst ` set es" by blast
    ultimately show False using n by simp
  qed
  show ?case
  proof (cases "hidden n")
    case True
    then show ?thesis using "7.IH"(2) "7.prems" by simp
  next
    case False
    then show ?thesis using "7.IH" "7.prems" wf disj by (simp add: distinct_append)
  qed
qed auto

lemma relName_inj:
  assumes "relName xs = relName ys" and "\<forall>x \<in> set xs. plain_part x" and "\<forall>y \<in> set ys. plain_part y"
  shows "xs = ys"
proof -
  have dot: "zs = []" if "joinWith ''/'' zs = ''.''" "\<forall>z \<in> set zs. plain_part z" for zs
  proof (rule ccontr)
    assume ne: "zs \<noteq> []"
    have "zs = splitOn SLASH (joinWith ''/'' zs)"
      by (rule splitOn_joinWith [symmetric]) (use ne that in \<open>auto simp: plain_part_def\<close>)
    also have "\<dots> = [''.'']" using that(1) by simp
    finally show False using that(2) by (simp add: plain_part_def)
  qed
  show ?thesis
  proof (cases "xs = [] \<or> ys = []")
    case True
    then show ?thesis using assms dot [of xs] dot [of ys] by (auto simp: relName_def split: if_splits)
  next
    case False
    then show ?thesis
      using assms joinWith_inj [of SLASH xs ys] by (auto simp: relName_def plain_part_def)
  qed
qed

lemma wf_found: "wf_tree n \<Longrightarrow> wf_map (found n)"
proof -
  assume wf: "wf_tree n"
  have "inj_on relName (fst ` set (visible [] n))"
  proof (rule inj_onI)
    fix xs ys assume "xs \<in> fst ` set (visible [] n)" "ys \<in> fst ` set (visible [] n)" and eq: "relName xs = relName ys"
    then have "\<forall>x \<in> set xs. plain_part x" "\<forall>y \<in> set ys. plain_part y"
      using visible_parts(1) [OF wf] by fastforce+
    with eq show "xs = ys" by (rule relName_inj)
  qed
  then have "distinct (map relName (map fst (visible [] n)))"
    using visible_distinct(1) [OF wf, of "[]"] by (simp add: distinct_map comp_inj_on)
  moreover have "map relName (map fst (visible [] n)) = map fst (found n)"
    by (simp add: found_def split_def)
  ultimately show ?thesis by (simp only:)
qed


section \<open>The listeners\<close>

text \<open>
  When no callback cancels or revives a context, the loop over the listeners drops the cancelled
  ones and calls each of the others exactly once, in the order it leaves them in.
\<close>

lemma mset_swap_remove:
  assumes "i < length ls"
  shows "mset (drop i (take (length ls - 1) (ls[i := ls ! (length ls - 1)]))) + {#ls ! i#} = mset (drop i ls)"
    and "take i (take (length ls - 1) (ls[i := ls ! (length ls - 1)])) = take i ls"
proof -
  obtain xs y ys where ls: "ls = xs @ y # ys" and i: "i = length xs"
    using id_take_nth_drop [OF assms] assms by (metis length_take min.absorb4)
  show "mset (drop i (take (length ls - 1) (ls[i := ls ! (length ls - 1)]))) + {#ls ! i#} = mset (drop i ls)"
    by (cases ys rule: rev_cases) (simp_all add: ls i nth_append)
  show "take i (take (length ls - 1) (ls[i := ls ! (length ls - 1)])) = take i ls"
    by (simp add: ls i)
qed

lemma set_swap_remove:
  assumes "i < length ls"
  shows "set (take (length ls - 1) (ls[i := ls ! (length ls - 1)])) \<subseteq> set ls"
  using set_update_subset_insert [of ls i "ls ! (length ls - 1)"] assms by (auto dest!: in_set_takeD)

lemma notify_from:
  assumes "\<And>l w. l \<in> set ls \<Longrightarrow> dn (callback l (ctx l) path fi (Some old) w) = dn w"
  shows "\<exists>order. fst (notify dn path fi old i ls w) = take i ls @ order
     \<and> mset order = filter_mset (\<lambda>l. \<not> dn w (ctx l)) (mset (drop i ls))
     \<and> snd (notify dn path fi old i ls w) = fold (\<lambda>l. callback l (ctx l) path fi (Some old)) order w"
  using assms
proof (induction dn path fi old i ls w rule: notify.induct)
  case (1 dn path fi old i ls w)
  show ?case
  proof (cases "i < length ls")
    case False
    then show ?thesis by (simp add: notify.simps)
  next
    case len: True
    let ?l = "ls ! i"
    have drop: "drop i ls = ?l # drop (Suc i) ls" using len by (simp add: Cons_nth_drop_Suc)
    show ?thesis
    proof (cases "dn w (ctx ?l)")
      case True
      let ?ls = "take (length ls - 1) (ls[i := ls ! (length ls - 1)])"
      have sub: "set ?ls \<subseteq> set ls" by (rule set_swap_remove [OF len])
      have step: "notify dn path fi old i ls w = notify dn path fi old i ?ls w"
        using len True by (subst notify.simps) (simp add: Let_def)
      have "mset (drop i ls) = mset (drop i ?ls) + {#?l#}" using mset_swap_remove(1) [OF len] by simp
      then have f: "filter_mset (\<lambda>l. \<not> dn w (ctx l)) (mset (drop i ?ls)) = filter_mset (\<lambda>l. \<not> dn w (ctx l)) (mset (drop i ls))"
        using True by simp
      show ?thesis
        using "1.IH"(1) [OF len refl True] "1.prems" sub mset_swap_remove(2) [OF len]
        unfolding step f by auto
    next
      case False
      let ?w = "callback ?l (ctx ?l) path fi (Some old) w"
      have step: "notify dn path fi old i ls w = notify dn path fi old (Suc i) ls ?w"
        using len False by (subst notify.simps) (simp add: Let_def)
      have same: "dn ?w = dn w" using "1.prems" len by simp
      obtain order where ord: "fst (notify dn path fi old (Suc i) ls ?w) = take (Suc i) ls @ order"
        "mset order = filter_mset (\<lambda>l. \<not> dn w (ctx l)) (mset (drop (Suc i) ls))"
        "snd (notify dn path fi old (Suc i) ls ?w) = fold (\<lambda>l. callback l (ctx l) path fi (Some old)) order ?w"
        using "1.IH"(2) [OF len refl False "1.prems"] unfolding same by auto
      show ?thesis
        by (rule exI [of _ "?l # order"])
          (use ord False len drop in \<open>simp add: step take_Suc_conv_app_nth\<close>)
    qed
  qed
qed

lemma scanner_set_simps [simp]:
  "map_of (fileCache (sc (scanner_set env p fi s))) = (map_of (fileCache (sc s)))(p := fi)"
  "baseDir (sc (scanner_set env p fi s)) = baseDir (sc s)"
  "cacheDir (sc (scanner_set env p fi s)) = cacheDir (sc s)"
  "files (scanner_set env p fi s) = files s"
  by (auto simp: scanner_set_def Let_def fun_eq_iff split: prod.split option.split)


section \<open>The passes\<close>

text \<open>
  What a pass leaves in the cache for a file it sees: the old entry while size and modification
  time agree with it or hashing fails, a fresh one otherwise.
\<close>

definition entryAfter ::
  "(string \<Rightarrow> string) \<Rightarrow> (string \<Rightarrow> go_error + (string \<times> go_error option)) \<Rightarrow> string \<Rightarrow> string \<Rightarrow> os_info
     \<Rightarrow> FileInfo option \<Rightarrow> FileInfo option"
where
  "entryAfter h opn base p i old =
     (if \<exists>f. old = Some f \<and> Size f = fi_Size i \<and> Mtime f = fi_ModTime i then old
      else case HashFile h opn (joinPath [base, p]) of
        Inl e \<Rightarrow> old
      | Inr x \<Rightarrow> Some \<lparr>Size = fi_Size i, Hash = x, Mtime = fi_ModTime i\<rparr>)"

lemma hashCallback_cache:
  "map_of (fileCache (sc (hashCallback env snap p i s))) =
     (map_of (fileCache (sc s)))(p := entryAfter (sha1sum env) (osOpen snap) (baseDir (sc s)) p i (map_of (fileCache (sc s)) p))"
  "baseDir (sc (hashCallback env snap p i s)) = baseDir (sc s)"
  by (auto simp: hashCallback_def entryAfter_def fun_eq_iff split: option.splits sum.splits)

lemma fold_removeAll: "fold (\<lambda>(p, i). removeAll p) xs ms = filter (\<lambda>m. m \<notin> fst ` set xs) ms"
proof (induction xs arbitrary: ms)
  case (Cons x xs)
  have "filter (\<lambda>m. m \<notin> fst ` set xs) (removeAll (fst x) ms) = filter (\<lambda>m. m \<notin> fst ` set (x # xs)) ms"
    by (induction ms) auto
  then show ?case using Cons.IH by (cases x) simp
qed simp

lemma fold_two:
  "fold (\<lambda>(p, i) (ms, t). (g p ms, f p i t)) xs (ms, t) = (fold (\<lambda>(p, i). g p) xs ms, fold (\<lambda>(p, i). f p i) xs t)"
  by (induction xs arbitrary: ms t) auto

lemma fold_forget:
  "map_of (fileCache (sc (fold (\<lambda>fn. scanner_set env fn None) ms s))) q =
     (if q \<in> set ms then None else map_of (fileCache (sc s)) q)"
  by (induction ms arbitrary: s) auto

text \<open>The state the walk of a pass ends in: what was not found, and the scanner before the deletions.\<close>

definition afterWalk ::
  "(nat \<Rightarrow> 'w sys \<Rightarrow> 'w sys) \<Rightarrow> 'w scan_env \<Rightarrow> snapshot \<Rightarrow> 'w sys \<Rightarrow> nat \<times> 'w sys"
where
  "afterWalk hook env snap s =
     fold (\<lambda>(p, i) (n, s). (Suc n, hashCallback env snap p i (hook n s))) (found (tree snap)) (0, s)"

lemma passWith_eq:
  assumes "wf_tree (tree snap)" and "baseDir (sc s) \<noteq> []"
  shows "passWith hook env snap s = Return (fold (\<lambda>fn. scanner_set env fn None)
     (filter (\<lambda>fn. fn \<notin> fst ` set (found (tree snap))) (getFileNames (sc s))) (snd (afterWalk hook env snap s)))"
  unfolding passWith_def scanFilesystemAndReportMissing_def scanFilesystem_found [OF assms] fold_two fold_removeAll
  by (simp add: afterWalk_def split_def)

lemma afterWalk_cache:
  assumes "wf_tree (tree snap)" and "\<And>n s. sc (hook n s) = sc s"
  shows "map_of (fileCache (sc (snd (afterWalk hook env snap s)))) q =
    (case map_of (found (tree snap)) q of
       None \<Rightarrow> map_of (fileCache (sc s)) q
     | Some i \<Rightarrow> entryAfter (sha1sum env) (osOpen snap) (baseDir (sc s)) q i (map_of (fileCache (sc s)) q))"
proof -
  let ?f = "\<lambda>p i (n, t). (Suc n, hashCallback env snap p i (hook n t))"
  let ?P = "\<lambda>(n :: nat, t). baseDir (sc t) = baseDir (sc s)"
  let ?g = "\<lambda>p i. entryAfter (sha1sum env) (osOpen snap) (baseDir (sc s)) p i"
  have "?P (?f p i t) \<and> map_of (fileCache (sc (snd (?f p i t)))) =
      (map_of (fileCache (sc (snd t))))(p := ?g p i (map_of (fileCache (sc (snd t))) p))"
    if "?P t" for p i t
    using that assms(2) by (cases t) (simp add: hashCallback_cache)
  from fold_pointwise [of ?P ?f "\<lambda>t. map_of (fileCache (sc (snd t)))" ?g, OF this] wf_found [OF assms(1)]
  show ?thesis by (simp add: afterWalk_def split: option.split)
qed

lemma passWith_cache:
  assumes "wf_tree (tree snap)" and "baseDir (sc s) \<noteq> []" and "\<And>n s. sc (hook n s) = sc s"
  shows "\<exists>s'. passWith hook env snap s = Return s' \<and>
    (\<forall>q. map_of (fileCache (sc s')) q =
      (case map_of (found (tree snap)) q of
         None \<Rightarrow> None
       | Some i \<Rightarrow> entryAfter (sha1sum env) (osOpen snap) (baseDir (sc s)) q i (map_of (fileCache (sc s)) q)))"
proof -
  have "map_of (found (tree snap)) q = None \<longleftrightarrow> q \<notin> fst ` set (found (tree snap))" for q
    by (simp add: map_of_None_iff)
  moreover have "map_of (fileCache (sc s)) q = None" if "q \<notin> set (getFileNames (sc s))" for q
    using that by (simp add: getFileNames_def map_of_None_iff)
  ultimately show ?thesis
    unfolding passWith_eq [OF assms(1,2)]
    by (auto simp: fold_forget afterWalk_cache [OF assms(1,3)] split: option.splits) (metis not_None_eq)+
qed


lemma fold_idle: "(\<And>x. x \<in> set xs \<Longrightarrow> f x s = s) \<Longrightarrow> fold f xs s = s"
  by (induction xs) auto

lemma fold_idle_count:
  "(\<And>p i. (p, i) \<in> set xs \<Longrightarrow> f p i s = s) \<Longrightarrow> snd (fold (\<lambda>(p, i) (n, s). (Suc n, f p i s)) xs (k, s)) = s"
  by (induction xs arbitrary: k) auto

text \<open>A pass over a directory that agrees with the cache changes nothing and calls nobody.\<close>

lemma normalPass_idle:
  assumes "wf_tree (tree snap)" and "baseDir (sc s) \<noteq> []"
    and "\<And>p. (case map_of (found (tree snap)) p of
               None \<Rightarrow> map_of (fileCache (sc s)) p = None
             | Some i \<Rightarrow> \<exists>f. map_of (fileCache (sc s)) p = Some f \<and> Size f = fi_Size i \<and> Mtime f = fi_ModTime i)"
  shows "normalPass env snap s = Return s"
proof -
  have "hashCallback env snap p i s = s" if "(p, i) \<in> set (found (tree snap))" for p i
  proof -
    have "map_of (found (tree snap)) p = Some i"
      using that wf_found [OF assms(1)] by (simp add: map_of_eq_Some_iff)
    with assms(3) [of p] show ?thesis by (auto simp: hashCallback_def)
  qed
  then have walk: "snd (afterWalk (\<lambda>n s. s) env snap s) = s"
    unfolding afterWalk_def by (intro fold_idle_count)
  have "filter (\<lambda>fn. fn \<notin> fst ` set (found (tree snap))) (getFileNames (sc s)) = []"
  proof -
    have "fn \<in> fst ` set (found (tree snap))" if "fn \<in> set (getFileNames (sc s))" for fn
    proof (rule ccontr)
      assume "fn \<notin> fst ` set (found (tree snap))"
      then have "map_of (found (tree snap)) fn = None" by (simp add: map_of_None_iff)
      with assms(3) [of fn] have "map_of (fileCache (sc s)) fn = None" by simp
      then show False using that by (simp add: getFileNames_def map_of_None_iff)
    qed
    then show ?thesis by (simp add: filter_empty_conv)
  qed
  then show ?thesis unfolding normalPass_def passWith_eq [OF assms(1,2)] walk by simp
qed

lemma passWith_base:
  assumes "wf_tree (tree snap)" and "baseDir (sc s) \<noteq> []" and "\<And>n s. sc (hook n s) = sc s"
    and "passWith hook env snap s = Return s'"
  shows "baseDir (sc s') = baseDir (sc s)"
proof -
  have forget: "baseDir (sc (fold (\<lambda>fn. scanner_set env fn None) ms t)) = baseDir (sc t)" for ms t
    by (induction ms arbitrary: t) auto
  have "baseDir (sc (snd (fold (\<lambda>(p, i) (n, s). (Suc n, hashCallback env snap p i (hook n s))) xs (n, t)))) =
      baseDir (sc t)" for xs n t
    using assms(3) by (induction xs arbitrary: n t) (auto simp: hashCallback_cache)
  then show ?thesis using assms(4) unfolding passWith_eq [OF assms(1,2)] afterWalk_def
    by (auto simp: forget)
qed


section \<open>The hash cache on disk\<close>

lemma fastPass_cache:
  assumes "wf_tree (tree snap)" and "baseDir (sc s) \<noteq> []" and "readHashCache (files s) (sc s) = Inr seed"
  shows "\<exists>s'. fastPass env snap s = Return s' \<and> baseDir (sc s') = baseDir (sc s) \<and>
    (\<forall>q. map_of (fileCache (sc s')) q =
      (case (map_of (found (tree snap)) q, map_of seed q) of
         (Some i, Some f) \<Rightarrow>
           if Size f = fi_Size i \<and> Mtime f = fi_ModTime i then Some f else map_of (fileCache (sc s)) q
       | _ \<Rightarrow> map_of (fileCache (sc s)) q))"
proof -
  let ?g = "\<lambda>p i old. case map_of seed p of
      Some f \<Rightarrow> if Size f = fi_Size i \<and> Mtime f = fi_ModTime i then Some f else old | None \<Rightarrow> old"
  let ?P = "\<lambda>t. baseDir (sc t) = baseDir (sc s)"
  let ?t = "fold (\<lambda>(p, i). seedCallback env seed p i) (found (tree snap)) s"
  have step: "?P (seedCallback env seed p i t) \<and> map_of (fileCache (sc (seedCallback env seed p i t))) =
      (map_of (fileCache (sc t)))(p := ?g p i (map_of (fileCache (sc t)) p))" if "?P t" for p i t
    using that by (auto simp: seedCallback_def split: option.split)
  have "?P ?t \<and> map_of (fileCache (sc ?t)) q =
      (case map_of (found (tree snap)) q of None \<Rightarrow> map_of (fileCache (sc s)) q
       | Some i \<Rightarrow> ?g q i (map_of (fileCache (sc s)) q))" for q
    using fold_pointwise [of ?P "seedCallback env seed" "\<lambda>t. map_of (fileCache (sc t))" ?g, OF step]
      wf_found [OF assms(1)] by blast
  then show ?thesis
    by (auto simp: fastPass_def assms(3) scanFilesystem_found [OF assms(1,2)] split: option.split)
qed

lemma writeHashCache_read:
  assumes "createErr env = None" "encodeErr env = None" "renameErr env = None" "\<not> closeFails env"
    and "cacheFileName m' = cacheFileName m"
  shows "readHashCache (fst (writeHashCache env m c fs)) m' = Inr c"
  using assms by (simp add: writeHashCache_def readHashCache_def Let_def)


section \<open>Listeners that mirror the cache\<close>

text \<open>The paths a scan can report.\<close>

definition scan_path :: "string \<Rightarrow> bool" where
  "scan_path p \<longleftrightarrow> (\<exists>ns. p = relName ns \<and> (\<forall>n \<in> set ns. plain_part n \<and> \<not> hidden n))"

lemma found_scan_path:
  assumes "wf_tree n" and "(p, i) \<in> set (found n)"
  shows "scan_path p"
proof -
  obtain ns where "(ns, i) \<in> set (visible [] n)" and p: "p = relName ns"
    using assms(2) by (auto simp: found_def)
  then show ?thesis using visible_parts(1) [OF assms(1)] unfolding scan_path_def by fastforce
qed

text \<open>
  The scanner's cache is what the program state reflects (\<open>quiet\<close>), and exactly one of the
  registrations of the callback is live (\<open>tracked\<close>).
\<close>

definition live :: "'w scan_env \<Rightarrow> 'w \<Rightarrow> 'w listener list \<Rightarrow> 'w listener multiset" where
  "live env w ls = filter_mset (\<lambda>l. \<not> isDone env w (ctx l)) (mset ls)"

definition quiet ::
  "'w export_callback \<Rightarrow> ((string \<Rightarrow> FileInfo option) \<Rightarrow> 'w \<Rightarrow> bool) \<Rightarrow> 'w sys \<Rightarrow> bool"
where
  "quiet cb I s \<longleftrightarrow> I (map_of (fileCache (sc s))) (world s) \<and> wf_map (fileCache (sc s))
     \<and> (\<forall>p \<in> fst ` set (fileCache (sc s)). scan_path p) \<and> (\<forall>l \<in> set (listeners (sc s)). callback l = cb)"

definition tracked ::
  "'w scan_env \<Rightarrow> 'w export_callback \<Rightarrow> ((string \<Rightarrow> FileInfo option) \<Rightarrow> 'w \<Rightarrow> bool) \<Rightarrow> 'w sys \<Rightarrow> bool"
where
  "tracked env cb I s \<longleftrightarrow> quiet cb I s \<and> size (live env (world s) (listeners (sc s))) = 1"

text \<open>
  The contract of an export callback: \<open>I m w\<close> says that the program state \<open>w\<close> reflects the file
  table \<open>m\<close>. A modification event carries the table's previous entry (the zero value when there is
  none) and a pointer that nobody else writes. A callback leaves the contexts alone.
\<close>

locale scan_changes =
  fixes env :: "'w scan_env" and cb :: "'w export_callback"
    and I :: "(string \<Rightarrow> FileInfo option) \<Rightarrow> 'w \<Rightarrow> bool"
  assumes modified: "I m w \<Longrightarrow> (\<And>q. m q \<noteq> None \<Longrightarrow> scan_path q) \<Longrightarrow> scan_path p \<Longrightarrow>
      I (m(p := fi)) (cb c p (map_option fresh fi) (Some (case m p of None \<Rightarrow> zeroInfo | Some f \<Rightarrow> f)) w)"
    and contexts: "isDone env (cb c p ptr old w) = isDone env w"
begin

lemma set_tracked: "tracked env cb I s \<Longrightarrow> scan_path p \<Longrightarrow> tracked env cb I (scanner_set env p fi s)"
proof -
  assume tr: "tracked env cb I s" and p: "scan_path p"
  let ?m = "map_of (fileCache (sc s))" and ?ls = "listeners (sc s)" and ?w = "world s"
  let ?fi = "map_option fresh fi" and ?old = "map_get zeroInfo (fileCache (sc s)) p"
  have cbs: "\<forall>l \<in> set ?ls. callback l = cb" using tr by (simp add: tracked_def quiet_def)
  obtain order where ord: "fst (notify (isDone env) p ?fi ?old 0 ?ls ?w) = order" "mset order = live env ?w ?ls"
    "snd (notify (isDone env) p ?fi ?old 0 ?ls ?w) = fold (\<lambda>l. callback l (ctx l) p ?fi (Some ?old)) order ?w"
    using notify_from [of ?ls "isDone env" p ?fi ?old 0 ?w] cbs contexts by (auto simp: live_def)
  have "length order = 1" using tr ord(2) by (metis size_mset tracked_def)
  then obtain l where l: "order = [l]" by (auto simp: length_Suc_conv)
  have "l \<in> set ?ls" and lv: "\<not> isDone env ?w (ctx l)"
    using arg_cong [OF ord(2), of set_mset] l by (auto simp: live_def)
  then have cl: "callback l = cb" using cbs by simp
  let ?w' = "cb (ctx l) p ?fi (Some ?old) ?w"
  have s': "world (scanner_set env p fi s) = ?w'" "listeners (sc (scanner_set env p fi s)) = [l]"
    using ord l cl by (auto simp: scanner_set_def Let_def split: prod.split)
  have wf: "wf_map (fileCache (sc (scanner_set env p fi s)))"
    using tr by (auto simp: tracked_def quiet_def scanner_set_def Let_def distinct_update distinct_delete
        split: prod.split option.split)
  have paths: "scan_path q" if "?m q \<noteq> None" for q
    using tr that by (auto simp: tracked_def quiet_def map_of_None_iff)
  have "I (?m(p := fi)) ?w'" using modified [of ?m ?w p fi "ctx l"] paths p tr
    by (simp add: tracked_def quiet_def map_get_def)
  moreover have "\<forall>q \<in> fst ` set (fileCache (sc (scanner_set env p fi s))). scan_path q"
    by (metis (no_types, lifting) fun_upd_apply map_of_None_iff p paths scanner_set_simps(1))
  ultimately show ?thesis using s' wf cl lv contexts by (simp add: tracked_def quiet_def live_def)
qed

lemma save_tracked: "tracked env cb I s \<Longrightarrow> tracked env cb I (save env s)"
  by (simp add: tracked_def quiet_def save_def)

lemma fold_tracked:
  assumes "\<And>x s. x \<in> set xs \<Longrightarrow> tracked env cb I s \<Longrightarrow> tracked env cb I (f x s)"
  shows "tracked env cb I s \<Longrightarrow> tracked env cb I (fold f xs s)"
  using assms by (induction xs arbitrary: s) auto

lemma hashCallback_tracked: "tracked env cb I s \<Longrightarrow> scan_path p \<Longrightarrow> tracked env cb I (hashCallback env snap p i s)"
  by (auto simp: hashCallback_def set_tracked split: sum.split)

lemma passWith_tracked:
  assumes "\<And>n s. tracked env cb I s \<Longrightarrow> tracked env cb I (hook n s)" and "tracked env cb I s"
    and "wf_tree (tree snap)" and "baseDir (sc s) \<noteq> []"
  shows "\<exists>s'. passWith hook env snap s = Return s' \<and> tracked env cb I s'"
proof -
  have "tracked env cb I (snd (fold (\<lambda>(p, i) (n, s). (Suc n, hashCallback env snap p i (hook n s))) xs (k, t)))"
    if "tracked env cb I t" "\<forall>(p, i) \<in> set xs. scan_path p" for xs k t
    using that by (induction xs arbitrary: k t) (auto simp: hashCallback_tracked assms(1))
  then have "tracked env cb I (snd (afterWalk hook env snap s))"
    unfolding afterWalk_def using assms(2) found_scan_path [OF assms(3)] by blast
  moreover have "scan_path fn" if "fn \<in> set (getFileNames (sc s))" for fn
    using assms(2) that by (auto simp: tracked_def quiet_def getFileNames_def)
  ultimately show ?thesis unfolding passWith_eq [OF assms(3,4)]
    by (auto intro!: fold_tracked set_tracked)
qed

lemma fastPass_tracked:
  assumes "tracked env cb I s" and "wf_tree (tree snap)" and "baseDir (sc s) \<noteq> []"
  shows "\<exists>s'. fastPass env snap s = Return s' \<and> tracked env cb I s' \<and> baseDir (sc s') = baseDir (sc s)"
proof (cases "readHashCache (files s) (sc s)")
  case (Inl e)
  then show ?thesis using assms by (simp add: fastPass_def)
next
  case (Inr seed)
  have "tracked env cb I (fold (\<lambda>(p, i). seedCallback env seed p i) (found (tree snap)) s)"
    by (rule fold_tracked)
      (auto simp: seedCallback_def set_tracked assms(1) found_scan_path [OF assms(2)] split: option.split)
  then show ?thesis
    using fastPass_cache [OF assms(2,3) Inr, of env]
    by (auto simp: fastPass_def Inr scanFilesystem_found [OF assms(2,3)])
qed

lemma register_tracked:
  assumes "quiet cb I s" and "fileCache (sc s) = []" and "live env (world s) (listeners (sc s)) = {#}"
    and "\<not> isDone env (world s) c"
  shows "tracked env cb I (ContinuousExport env c cb s)"
  using assms by (simp add: tracked_def quiet_def ContinuousExport_def Let_def live_def)

lemma runLoop_tracked:
  assumes "\<forall>snap \<in> set snaps. wf_tree (tree snap)"
  shows "tracked env cb I s \<Longrightarrow> baseDir (sc s) \<noteq> [] \<Longrightarrow> \<exists>s'. runLoop env snaps s = Return s' \<and> tracked env cb I s'"
  using assms
proof (induction snaps arbitrary: s)
  case Nil
  then show ?case by (simp add: save_tracked)
next
  case (Cons snap snaps)
  let ?s = "save env s"
  have t: "tracked env cb I ?s" "baseDir (sc ?s) \<noteq> []" using Cons.prems save_tracked by (auto simp: save_def)
  have wf: "wf_tree (tree snap)" using Cons.prems by simp
  from passWith_tracked [OF _ t(1) wf t(2), of "\<lambda>n s. s"] obtain s' where
    s': "normalPass env snap ?s = Return s'" "tracked env cb I s'" by (auto simp: normalPass_def)
  have "baseDir (sc s') \<noteq> []"
    using passWith_base [OF wf t(2), of "\<lambda>n s. s"] s'(1) t(2) by (simp add: normalPass_def)
  with Cons s' show ?case by simp
qed

lemma Run_tracked:
  assumes "tracked env cb I s" and "baseDir (sc s) \<noteq> []"
    and "wf_tree (tree snapF)" "wf_tree (tree snapN)" "\<forall>snap \<in> set snaps. wf_tree (tree snap)"
  shows "\<exists>s'. scanner_Run env snapF ticks snapN snaps s = Return s' \<and> tracked env cb I s'"
proof -
  obtain s1 where s1: "fastPass env snapF s = Return s1" "tracked env cb I s1" "baseDir (sc s1) = baseDir (sc s)"
    using fastPass_tracked [OF assms(1,3,2)] by blast
  let ?hook = "\<lambda>n s. if ticks n then save env s else s"
  have base: "baseDir (sc s1) \<noteq> []" using s1 assms(2) by simp
  obtain s2 where s2: "passWith ?hook env snapN s1 = Return s2" "tracked env cb I s2"
    using passWith_tracked [OF _ s1(2) assms(4) base, of ?hook] save_tracked by fastforce
  have "baseDir (sc s2) \<noteq> []"
    using passWith_base [OF assms(4) base _ s2(1)] base by (simp add: save_def)
  then show ?thesis using runLoop_tracked [OF assms(5) s2(2)] s1 s2
    by (simp add: scanner_Run_def normalPassWithIntermediateAutoSaving_def)
qed

end

text \<open>
  A listener that may also be registered when the table is not empty: the events of the initial export
  carry no previous entry, and a pointer to a variable that is overwritten later.
\<close>

locale scan_listener = scan_changes +
  assumes exported: "I m w \<Longrightarrow> (\<And>q. m q \<noteq> None \<Longrightarrow> scan_path q) \<Longrightarrow> m p = Some f \<Longrightarrow>
      I m (cb c p (Some (InfoPtr f later)) None w)"
begin

lemma ContinuousExport_tracked:
  assumes "quiet cb I s" and "live env (world s) (listeners (sc s)) = {#}" and "\<not> isDone env (world s) c"
  shows "tracked env cb I (ContinuousExport env c cb s)"
proof -
  let ?m = "map_of (fileCache (sc s))"
  have paths: "scan_path q" if "?m q \<noteq> None" for q
    using assms(1) that by (auto simp: quiet_def map_of_None_iff)
  have exp: "I ?m (exportLoop (isDone env) c cb xs w) \<and> isDone env (exportLoop (isDone env) c cb xs w) = isDone env w"
    if "I ?m w" "\<forall>(p, f) \<in> set xs. ?m p = Some f" for xs w
    using that exported [of ?m] paths by (induction xs arbitrary: w) (auto simp: contexts)
  have "\<forall>(p, f) \<in> set (fileCache (sc s)). ?m p = Some f"
    using assms(1) by (auto simp: quiet_def map_of_eq_Some_iff)
  then show ?thesis using exp [of "world s" "fileCache (sc s)"] assms
    by (auto simp: tracked_def quiet_def live_def ContinuousExport_def Let_def)
qed

end


section \<open>Properties\<close>

text \<open>A small shared directory, for the examples: a file, a hidden file and a file in a directory.\<close>

definition demo_tree :: fs_node where
  "demo_tree = Directory
     [(''.git'', RegularFile \<lparr>fi_Size = 9, fi_ModTime = 9\<rparr>),
      (''a'', RegularFile \<lparr>fi_Size = 3, fi_ModTime = 7\<rparr>),
      (''d'', Directory [(''b'', RegularFile \<lparr>fi_Size = 2, fi_ModTime = 5\<rparr>)])]"

definition demo_snap :: snapshot where
  "demo_snap = \<lparr>tree = demo_tree, osOpen = (\<lambda>fn. Inr (fn, None))\<rparr>"

definition demo_scan_env :: "nat scan_env" where
  "demo_scan_env = \<lparr>isDone = (\<lambda>w c. c = 9), sha1sum = (\<lambda>x. take 2 (rev x)), createErr = None, encodeErr = None,
     closeFails = False, renameErr = None\<rparr>"

definition demo_sys :: "nat sys" where
  "demo_sys = \<lparr>sc = (New ''/srv/a-b'' ''/var'')\<lparr>fileCache := [(''gone'', \<lparr>Size = 1, Hash = ''x'', Mtime = 1\<rparr>)]\<rparr>,
     files = [], world = 0\<rparr>"

lemma wf_demo_tree: "wf_tree demo_tree"
  by (simp add: demo_tree_def plain_part_def)

text \<open>
  C6. \<^verbatim>\<open>normalPass\<close> terminates without a panic and leaves exactly the regular files below the base
  directory that no hidden component shields in the cache: a file that is no longer found is
  forgotten, a cached entry whose size and modification time agree is kept, any other file gets
  its fresh hash, and keeps its old entry if hashing fails.
\<close>

theorem normalPass_cache:
  assumes "wf_tree (tree snap)" and "baseDir (sc s) \<noteq> []"
  shows "\<exists>s'. normalPass env snap s = Return s' \<and>
    (\<forall>q. map_of (fileCache (sc s')) q =
      (case map_of (found (tree snap)) q of
         None \<Rightarrow> None
       | Some i \<Rightarrow> entryAfter (sha1sum env) (osOpen snap) (baseDir (sc s)) q i (map_of (fileCache (sc s)) q)))"
  using passWith_cache [OF assms, of "\<lambda>n s. s"] by (simp add: normalPass_def)

theorem normalPass_cache_witness:
  "\<exists>s'. normalPass demo_scan_env demo_snap demo_sys = Return s' \<and>
     map_of (fileCache (sc s')) ''gone'' = None \<and> map_of (fileCache (sc s')) ''.git'' = None \<and>
     map_of (fileCache (sc s')) ''d/b'' = Some \<lparr>Size = 2, Hash = ''622f'', Mtime = 5\<rparr>"
proof -
  have fnd: "found (tree demo_snap) = [(''a'', \<lparr>fi_Size = 3, fi_ModTime = 7\<rparr>), (''d/b'', \<lparr>fi_Size = 2, fi_ModTime = 5\<rparr>)]"
    by code_simp
  have entry: "entryAfter (sha1sum demo_scan_env) (osOpen demo_snap) (baseDir (sc demo_sys)) ''d/b''
      \<lparr>fi_Size = 2, fi_ModTime = 5\<rparr> None = Some \<lparr>Size = 2, Hash = ''622f'', Mtime = 5\<rparr>"
    unfolding entryAfter_def by simp code_simp
  have "wf_tree (tree demo_snap)" "baseDir (sc demo_sys) \<noteq> []"
    using wf_demo_tree by (simp_all add: demo_snap_def demo_sys_def New_def)
  from normalPass_cache [OF this, of demo_scan_env] show ?thesis
    using entry unfolding fnd by (auto simp: demo_sys_def New_def)
qed

text \<open>
  A pass that could hash every file it found brings the cache up to date: a second pass over
  the same directory changes neither the cache nor the listeners nor the state of the program, so
  it sends no notification.
\<close>

theorem normalPass_idempotent:
  assumes "wf_tree (tree snap)" and "baseDir (sc s) \<noteq> []"
    and "\<forall>p \<in> fst ` set (found (tree snap)).
           \<not> isl (HashFile (sha1sum env) (osOpen snap) (joinPath [baseDir (sc s), p]))"
    and "normalPass env snap s = Return s'"
  shows "normalPass env snap s' = Return s'"
proof (rule normalPass_idle [OF assms(1)])
  show "baseDir (sc s') \<noteq> []"
    using passWith_base [OF assms(1,2), of "\<lambda>n s. s" env s'] assms(2,4) by (simp add: normalPass_def)
  have cache: "map_of (fileCache (sc s')) p =
      (case map_of (found (tree snap)) p of
         None \<Rightarrow> None
       | Some i \<Rightarrow> entryAfter (sha1sum env) (osOpen snap) (baseDir (sc s)) p i (map_of (fileCache (sc s)) p))" for p
    using passWith_cache [OF assms(1,2), of "\<lambda>n s. s" env] assms(4) by (auto simp: normalPass_def)
  fix p
  show "case map_of (found (tree snap)) p of
          None \<Rightarrow> map_of (fileCache (sc s')) p = None
        | Some i \<Rightarrow> \<exists>f. map_of (fileCache (sc s')) p = Some f \<and> Size f = fi_Size i \<and> Mtime f = fi_ModTime i"
  proof (cases "map_of (found (tree snap)) p")
    case (Some i)
    then have "p \<in> fst ` set (found (tree snap))" by (metis map_of_None_iff option.distinct(1))
    then obtain h where "HashFile (sha1sum env) (osOpen snap) (joinPath [baseDir (sc s), p]) = Inr h"
      using assms(3) by (metis isl_def sum.exhaust)
    then show ?thesis using Some cache [of p] by (auto simp: entryAfter_def)
  qed (use cache in simp)
qed

theorem normalPass_idempotent_witness:
  "\<exists>s'. normalPass demo_scan_env demo_snap demo_sys = Return s' \<and> normalPass demo_scan_env demo_snap s' = Return s'"
proof -
  have wf: "wf_tree (tree demo_snap)" "baseDir (sc demo_sys) \<noteq> []"
    using wf_demo_tree by (simp_all add: demo_snap_def demo_sys_def New_def)
  obtain s' where s': "normalPass demo_scan_env demo_snap demo_sys = Return s'"
    using passWith_cache [OF wf, of "\<lambda>n s. s" demo_scan_env] by (auto simp: normalPass_def)
  have "\<forall>p \<in> fst ` set (found (tree demo_snap)).
      \<not> isl (HashFile (sha1sum demo_scan_env) (osOpen demo_snap) (joinPath [baseDir (sc demo_sys), p]))"
    by (simp add: HashFile_def demo_snap_def)
  from normalPass_idempotent [OF wf this s'] s' show ?thesis by blast
qed

text \<open>
  A change of the cache is announced to exactly the listeners whose context is not cancelled,
  each of them once and with the previous entry, and the cancelled ones are removed, however the
  swaps of the removal loop interleave with the calls.
\<close>

theorem set_notifies_live_listeners:
  assumes "\<And>l w. l \<in> set (listeners (sc s)) \<Longrightarrow>
      isDone env (callback l (ctx l) path (map_option fresh fi) (Some (map_get zeroInfo (fileCache (sc s)) path)) w) = isDone env w"
  shows "\<exists>order. mset order = filter_mset (\<lambda>l. \<not> isDone env (world s) (ctx l)) (mset (listeners (sc s)))
    \<and> listeners (sc (scanner_set env path fi s)) = order
    \<and> world (scanner_set env path fi s) =
        fold (\<lambda>l. callback l (ctx l) path (map_option fresh fi) (Some (map_get zeroInfo (fileCache (sc s)) path))) order (world s)"
  using notify_from [of "listeners (sc s)" "isDone env" path "map_option fresh fi" _ 0 "world s", OF assms]
  by (auto simp: scanner_set_def Let_def split: prod.split)

theorem set_notifies_live_listeners_witness:
  "\<exists>order. mset order = {#\<lparr>callback = (\<lambda>c p fi old w. w * 10 + c), ctx = 1\<rparr>, \<lparr>callback = (\<lambda>c p fi old w. w * 10 + c), ctx = 2\<rparr>#}
    \<and> world (scanner_set demo_scan_env ''a'' None (demo_sys\<lparr>sc := (sc demo_sys)\<lparr>listeners :=
        map (\<lambda>c. \<lparr>callback = (\<lambda>c p fi old w. w * 10 + c), ctx = c\<rparr>) [9, 1, 9, 2, 9]\<rparr>\<rparr>)) =
        fold (\<lambda>l. callback l (ctx l) ''a'' None (Some zeroInfo)) order 0"
proof -
  let ?s = "demo_sys\<lparr>sc := (sc demo_sys)\<lparr>listeners :=
        map (\<lambda>c. \<lparr>callback = (\<lambda>c p fi old w. w * 10 + c), ctx = c\<rparr>) [9, 1, 9, 2, 9]\<rparr>\<rparr>"
  have old: "map_get zeroInfo (fileCache (sc ?s)) ''a'' = zeroInfo"
    by (simp add: demo_sys_def New_def map_get_def)
  have "isDone demo_scan_env w = isDone demo_scan_env w'" for w w' by (simp add: demo_scan_env_def)
  from set_notifies_live_listeners [of ?s demo_scan_env "''a''" None, OF this]
  obtain order where "mset order = filter_mset (\<lambda>l. \<not> isDone demo_scan_env (world ?s) (ctx l)) (mset (listeners (sc ?s)))"
    and w: "world (scanner_set demo_scan_env ''a'' None ?s) =
        fold (\<lambda>l. callback l (ctx l) ''a'' None (Some zeroInfo)) order (world ?s)"
    unfolding old by auto
  then have "mset order = {#\<lparr>callback = (\<lambda>c p fi old w. w * 10 + c), ctx = 1\<rparr>, \<lparr>callback = (\<lambda>c p fi old w. w * 10 + c), ctx = 2\<rparr>#}"
    by (simp add: demo_scan_env_def)
  moreover have "world ?s = 0" by (simp add: demo_sys_def)
  ultimately show ?thesis using w by auto
qed


text \<open>
  Writing the hash cache replaces the cache file as a whole or not at all: when an error is
  reported the file keeps its former contents, otherwise it holds the new table (a table cut short
  if closing the file failed, which the code does not notice). No file but the cache file and its
  temporary sibling is touched.
\<close>

theorem writeHashCache_atomic:
  assumes "writeHashCache env m c fs = (fs', r)"
  shows "map_of fs' (cacheFileName m) =
      (if r = None then Some (if closeFails env then Junk else GobGz c) else map_of fs (cacheFileName m))
    \<and> (\<forall>fn. fn \<noteq> cacheFileName m \<and> fn \<noteq> cacheFileName m @ ''.new'' \<longrightarrow> map_of fs' fn = map_of fs fn)"
  using assms by (auto simp: writeHashCache_def Let_def split: option.splits)

theorem writeHashCache_atomic_witness:
  "map_of (fst (writeHashCache (demo_scan_env\<lparr>renameErr := Some IoEOF\<rparr>) (sc demo_sys) [] [(cacheFileName (sc demo_sys), Junk)]))
     (cacheFileName (sc demo_sys)) = Some Junk"
  using writeHashCache_atomic
    [OF prod.collapse [symmetric], of "demo_scan_env\<lparr>renameErr := Some IoEOF\<rparr>" "sc demo_sys" "[]" "[(cacheFileName (sc demo_sys), Junk)]"]
  by (simp add: writeHashCache_def Let_def demo_scan_env_def)

lemma restart_cache:
  assumes "createErr env = None" "encodeErr env = None" "renameErr env = None" "\<not> closeFails env"
    and "wf_tree (tree snap)" and "base \<noteq> []" and "cacheFileName (New base cdir :: 'w Scanner) = cacheFileName (sc (s :: 'w sys))"
  shows "\<exists>t'. fastPass env snap \<lparr>sc = New base cdir, files = files (save env s), world = w\<rparr> = Return t' \<and>
    baseDir (sc t') = base \<and>
    (\<forall>q. map_of (fileCache (sc t')) q =
      (case (map_of (found (tree snap)) q, map_of (fileCache (sc s)) q) of
         (Some i, Some f) \<Rightarrow> if Size f = fi_Size i \<and> Mtime f = fi_ModTime i then Some f else None
       | _ \<Rightarrow> None))"
  using fastPass_cache [OF assms(5), of "\<lparr>sc = New base cdir, files = files (save env s), world = w\<rparr>" "fileCache (sc s)" env]
    writeHashCache_read [OF assms(1-4,7), of "fileCache (sc s)" "files s"] assms(6)
  by (simp add: New_def save_def cong: if_cong option.case_cong)

text \<open>
  C28. The hash cache carries the table over a restart: a new scanner for the same directory that
  loads what the old one saved starts with exactly the old entries of the files that are still
  there with the same size and modification time.
\<close>

theorem hash_cache_restart:
  assumes "createErr env = None" "encodeErr env = None" "renameErr env = None" "\<not> closeFails env"
    and "wf_tree (tree snap)" and "baseDir (sc s) \<noteq> []"
  shows "\<exists>t. fastPass env snap \<lparr>sc = New (baseDir (sc s)) (cacheDir (sc s)), files = files (save env s), world = w\<rparr> = Return t \<and>
    (\<forall>q. map_of (fileCache (sc t)) q =
      (case (map_of (found (tree snap)) q, map_of (fileCache (sc s)) q) of
         (Some i, Some f) \<Rightarrow> if Size f = fi_Size i \<and> Mtime f = fi_ModTime i then Some f else None
       | _ \<Rightarrow> None))"
  using restart_cache [OF assms, of "cacheDir (sc s)" s w] by (auto simp: cacheFileName_def New_def)

theorem hash_cache_restart_witness:
  "\<exists>t. fastPass demo_scan_env demo_snap \<lparr>sc = New ''/srv/a-b'' ''/var'', files = files (save demo_scan_env
      (demo_sys\<lparr>sc := (sc demo_sys)\<lparr>fileCache := [(''a'', \<lparr>Size = 3, Hash = ''h'', Mtime = 7\<rparr>)]\<rparr>\<rparr>)), world = 0\<rparr> = Return t \<and>
     map_of (fileCache (sc t)) ''a'' = Some \<lparr>Size = 3, Hash = ''h'', Mtime = 7\<rparr>"
proof -
  let ?s = "demo_sys\<lparr>sc := (sc demo_sys)\<lparr>fileCache := [(''a'', \<lparr>Size = 3, Hash = ''h'', Mtime = 7\<rparr>)]\<rparr>\<rparr>"
  have fnd: "map_of (found (tree demo_snap)) ''a'' = Some \<lparr>fi_Size = 3, fi_ModTime = 7\<rparr>" by code_simp
  have dirs: "baseDir (sc ?s) = ''/srv/a-b''" "cacheDir (sc ?s) = ''/var''" by (simp_all add: demo_sys_def New_def)
  have wf: "wf_tree (tree demo_snap)" using wf_demo_tree by (simp add: demo_snap_def)
  have env: "createErr demo_scan_env = None" "encodeErr demo_scan_env = None" "renameErr demo_scan_env = None"
    "\<not> closeFails demo_scan_env" by (simp_all add: demo_scan_env_def)
  from hash_cache_restart [OF env wf, of ?s 0] obtain t where
    "fastPass demo_scan_env demo_snap \<lparr>sc = New (baseDir (sc ?s)) (cacheDir (sc ?s)), files = files (save demo_scan_env ?s), world = 0\<rparr> = Return t"
    and "map_of (fileCache (sc t)) ''a'' = Some \<lparr>Size = 3, Hash = ''h'', Mtime = 7\<rparr>"
    unfolding dirs by (auto simp: fnd)
  then show ?thesis unfolding dirs by blast
qed

text \<open>
  The name of the cache file does not tell apart base directories that differ in slashes and
  dashes only. A scanner that starts with the cache another directory's scanner saved takes over
  that scanner's entry for every path with the same size and modification time, and the pass over
  the directory that follows never replaces it, whatever the file contains.
\<close>

theorem hash_cache_collision:
  assumes "createErr env = None" "encodeErr env = None" "renameErr env = None" "\<not> closeFails env"
    and "wf_tree (tree snap)" and "base \<noteq> []"
    and "map (\<lambda>c. if c = CHR ''/'' then CHR ''-'' else c) base =
         map (\<lambda>c. if c = CHR ''/'' then CHR ''-'' else c) (baseDir (sc s))"
    and "map_of (fileCache (sc s)) p = Some f" and "map_of (found (tree snap)) p = Some i"
    and "Size f = fi_Size i" and "Mtime f = fi_ModTime i"
  shows "\<exists>t t'. fastPass env snap \<lparr>sc = New base (cacheDir (sc s)), files = files (save env s), world = w\<rparr> = Return t
    \<and> normalPass env snap t = Return t' \<and> map_of (fileCache (sc t')) p = Some f"
proof -
  have "cacheFileName (New base (cacheDir (sc s)) :: 'a Scanner) = cacheFileName (sc s)"
    using assms(7) by (simp add: cacheFileName_def New_def)
  from restart_cache [OF assms(1-6) this, of w] obtain t where
    t: "fastPass env snap \<lparr>sc = New base (cacheDir (sc s)), files = files (save env s), world = w\<rparr> = Return t"
    "baseDir (sc t) = base" "map_of (fileCache (sc t)) p = Some f" using assms(8-11) by auto
  obtain t' where "normalPass env snap t = Return t'" and "map_of (fileCache (sc t')) p = Some f"
    using passWith_cache [OF assms(5), of t "\<lambda>n s. s" env] t(2,3) assms(6,9-11)
    by (auto simp: normalPass_def entryAfter_def)
  with t(1) show ?thesis by blast
qed

theorem hash_cache_collision_witness:
  "\<exists>t t'. fastPass demo_scan_env demo_snap \<lparr>sc = New ''/srv/a/b'' ''/var'', files = files (save demo_scan_env
      (demo_sys\<lparr>sc := (sc demo_sys)\<lparr>fileCache := [(''a'', \<lparr>Size = 3, Hash = ''h'', Mtime = 7\<rparr>)]\<rparr>\<rparr>)), world = 0\<rparr> = Return t
   \<and> normalPass demo_scan_env demo_snap t = Return t' \<and> map_of (fileCache (sc t')) ''a'' = Some \<lparr>Size = 3, Hash = ''h'', Mtime = 7\<rparr>
   \<and> HashFile (sha1sum demo_scan_env) (osOpen demo_snap) ''/srv/a/b/a'' = Inr ''612f''"
proof -
  let ?s = "demo_sys\<lparr>sc := (sc demo_sys)\<lparr>fileCache := [(''a'', \<lparr>Size = 3, Hash = ''h'', Mtime = 7\<rparr>)]\<rparr>\<rparr>"
  have fnd: "map_of (found (tree demo_snap)) ''a'' = Some \<lparr>fi_Size = 3, fi_ModTime = 7\<rparr>" by code_simp
  have h: "HashFile (sha1sum demo_scan_env) (osOpen demo_snap) ''/srv/a/b/a'' = Inr ''612f''" by code_simp
  have dirs: "baseDir (sc ?s) = ''/srv/a-b''" "cacheDir (sc ?s) = ''/var''" by (simp_all add: demo_sys_def New_def)
  have wf: "wf_tree (tree demo_snap)" using wf_demo_tree by (simp add: demo_snap_def)
  have env: "createErr demo_scan_env = None" "encodeErr demo_scan_env = None" "renameErr demo_scan_env = None"
    "\<not> closeFails demo_scan_env" by (simp_all add: demo_scan_env_def)
  show ?thesis
    using hash_cache_collision [OF env wf, of "''/srv/a/b''" ?s "''a''" "\<lparr>Size = 3, Hash = ''h'', Mtime = 7\<rparr>" _ 0, OF _ _ _ fnd] h
    unfolding dirs by simp
qed

end
