(* ===== verification/Program_Flags.thy ===== *)
theory Program_Flags
  imports Rufs_Types Go_Path "HOL-Library.Monad_Syntax"
begin

text \<open>
  The command line and the paths it names, \<^verbatim>\<open>main.go\<close>. The record \<open>flags\<close> holds the flags that the
  program's parts read; \<open>homeDir\<close> is what \<^verbatim>\<open>os/user.Current\<close> yields, nothing when the lookup
  fails (its error is dropped and the nil pointer that comes with it is dereferenced).
\<close>

record flags =
  masterPort :: int
  masterAddr :: string
  varStorage :: string
  masterGenKeys :: bool
  getAuthToken :: string
  masterDir :: string
  port :: int
  extIp :: string
  share :: string
  flag_user :: string
  registerToken :: string
  masterCert :: string
  ftpPort :: int
  mountpoint :: string
  allowUsers :: string
  homeDir :: "string option"

text \<open>\<^verbatim>\<open>strings.Split\<close> with a separator of several characters.\<close>

function splitStr :: "string \<Rightarrow> string \<Rightarrow> string list" where
  "splitStr sep s =
     (if sep \<noteq> [] \<and> s \<noteq> [] \<and> hasPrefix s sep then [] # splitStr sep (drop (length sep) s)
      else case s of
        [] \<Rightarrow> [[]]
      | c # cs \<Rightarrow> (case splitStr sep cs of [] \<Rightarrow> [[c]] | p # ps \<Rightarrow> (c # p) # ps))"
  by pat_completeness auto
termination
  by (relation "measure (\<lambda>(sep, s). length s)") auto

declare splitStr.simps [simp del]

definition marker :: string where
  "marker = ''%rufs_var_storage%''"

definition expandHome :: "flags \<Rightarrow> string \<Rightarrow> string go" where
  "expandHome fl path =
     (if hasPrefix path ''~/'' then
        (case homeDir fl of None \<Rightarrow> Panic | Some h \<Rightarrow> Return (joinPath [h, drop 2 path]))
      else Return path)"

text \<open>
  \<^verbatim>\<open>getPath\<close> calls itself on the storage flag, which may mention itself; in \<open>getPathRec\<close> \<open>None\<close> is a
  recursion without end. A Go stack is bounded: such a recursion ends with the fatal error
  \<^verbatim>\<open>stack overflow\<close>, which takes the process down like a panic that nobody recovers, so that for the
  callers, none of which recovers, \<open>getPath\<close> has \<open>Panic\<close> for both. \<open>getPath_result\<close> tells them apart.
\<close>

partial_function (option) getPathRec :: "flags \<Rightarrow> string \<Rightarrow> string go option" where
  [code]: "getPathRec fl path =
     (case expandHome fl path of
        Panic \<Rightarrow> Some Panic
      | Return p \<Rightarrow>
          (case splitStr marker p of
             [] \<Rightarrow> Some (Return [])
           | [e] \<Rightarrow> Some (Return e)
           | e # es \<Rightarrow>
               Option.bind (getPathRec fl (varStorage fl))
                 (\<lambda>r. Some (go_bind r (\<lambda>v. Return (foldl (\<lambda>a x. joinPath [a, v, x]) e es))))))"

definition getPath :: "flags \<Rightarrow> string \<Rightarrow> string go" where
  "getPath fl path = (case getPathRec fl path of None \<Rightarrow> Panic | Some r \<Rightarrow> r)"


section \<open>Lemmas\<close>

lemma splitStr_not_Nil [simp]: "splitStr sep s \<noteq> []"
  by (subst splitStr.simps) (auto split: list.splits)

lemma splitStr_no_sep:
  assumes "sep \<noteq> []" and "\<not> sublist sep s"
  shows "splitStr sep s = [s]"
  using assms(2)
proof (induction s)
  case Nil
  then show ?case by (simp add: splitStr.simps)
next
  case (Cons c cs)
  have "\<not> hasPrefix (c # cs) sep"
    using Cons.prems assms(1) by (auto simp: hasPrefix_def) (metis append_take_drop_id sublist_append_rightI)
  moreover have "\<not> sublist sep cs" using Cons.prems by (simp add: sublist_Cons_right)
  ultimately show ?case using Cons.IH by (subst splitStr.simps) simp
qed

lemma splitStr_sep: "sep \<noteq> [] \<Longrightarrow> sublist sep s \<Longrightarrow> \<exists>p q ps. splitStr sep s = p # q # ps"
proof (induction s)
  case (Cons c cs)
  show ?case
  proof (cases "hasPrefix (c # cs) sep")
    case True
    obtain q ps where "splitStr sep (drop (length sep) (c # cs)) = q # ps"
      using splitStr_not_Nil neq_Nil_conv by metis
    then show ?thesis using True Cons.prems(1) by (subst splitStr.simps) simp
  next
    case False
    then have "\<not> prefix sep (c # cs)" by (auto simp: hasPrefix_def prefix_def)
    then have "sublist sep cs" using Cons.prems(2) by (simp add: sublist_Cons_right)
    then obtain p q ps where "splitStr sep cs = p # q # ps" using Cons by blast
    then show ?thesis using False by (subst splitStr.simps) simp
  qed
qed simp

lemma getPath_plain:
  assumes "\<not> hasPrefix path ''~/''" and "\<not> sublist marker path"
  shows "getPath fl path = Return path"
  using splitStr_no_sep [OF _ assms(2)] assms(1)
  by (simp add: getPath_def getPathRec.simps expandHome_def marker_def)

lemma getPathRec_returns:
  assumes "expandHome fl (varStorage fl) = Return v" and "\<not> sublist marker v"
  shows "\<exists>r. getPathRec fl path = Some r"
proof -
  have v: "getPathRec fl (varStorage fl) = Some (Return v)"
    using splitStr_no_sep [OF _ assms(2)] assms(1) by (subst getPathRec.simps) (simp add: marker_def)
  show ?thesis
    by (subst getPathRec.simps) (auto simp: v split: go.split list.split)
qed

lemma getPath_marker:
  assumes "expandHome fl (varStorage fl) = Return v" and "\<not> sublist marker v"
    and "expandHome fl path = Return p" and "splitStr marker p = e # es"
  shows "getPath fl path = Return (foldl (\<lambda>a x. joinPath [a, v, x]) e es)"
proof -
  have v: "getPathRec fl (varStorage fl) = Some (Return v)"
    using splitStr_no_sep [OF _ assms(2)] assms(1) by (subst getPathRec.simps) (simp add: marker_def)
  then have "getPathRec fl path = Some (Return (foldl (\<lambda>a x. joinPath [a, v, x]) e es))"
    using assms(3,4) by (subst getPathRec.simps) (auto split: list.split)
  then show ?thesis by (simp add: getPath_def)
qed

lemma getPathRec_loops:
  assumes "expandHome fl (varStorage fl) = Return v" and "sublist marker v"
  shows "getPathRec fl (varStorage fl) = None"
proof (rule ccontr)
  assume "getPathRec fl (varStorage fl) \<noteq> None"
  then obtain r where r: "getPathRec fl (varStorage fl) = Some r" by auto
  obtain e e' es where split: "splitStr marker v = e # e' # es"
    using splitStr_sep [OF _ assms(2)] by (auto simp: marker_def)
  have "\<not> (f = fl \<and> p = varStorage fl)" if "getPathRec f p = Some y" for f p y
  proof (rule getPathRec.raw_induct [where P = "\<lambda>f p y. \<not> (f = fl \<and> p = varStorage fl)", OF _ that])
    fix g f p y
    assume IH: "\<And>f p y. g f p = Some y \<Longrightarrow> \<not> (f = fl \<and> p = varStorage fl)"
      and body: "(case expandHome f p of
        Return p \<Rightarrow>
          (case splitStr marker p of
             [] \<Rightarrow> Some (Return [])
           | [e] \<Rightarrow> Some (Return e)
           | e # es \<Rightarrow>
               Option.bind (g f (varStorage f))
                 (\<lambda>r. Some (go_bind r (\<lambda>v. Return (foldl (\<lambda>a x. joinPath [a, v, x]) e es)))))
        | Panic \<Rightarrow> Some Panic) = Some y"
    show "\<not> (f = fl \<and> p = varStorage fl)"
    proof
      assume "f = fl \<and> p = varStorage fl"
      with body assms(1) split obtain r0 where "g fl (varStorage fl) = Some r0"
        by (auto simp: bind_eq_Some_conv)
      then show False using IH by blast
    qed
  qed
  then show False using r by blast
qed


section \<open>Properties\<close>

definition demo_flags :: flags where
  "demo_flags = \<lparr>masterPort = 0, masterAddr = ''m:1666'', varStorage = ''~/.rufs/'', masterGenKeys = False,
     getAuthToken = [], masterDir = ''%rufs_var_storage%/master/'', port = 1667, extIp = [],
     share = ''music=/srv/m,/home/x/docs'', flag_user = ''quis'', registerToken = ''t'',
     masterCert = ''%rufs_var_storage%/master/ca.crt'', ftpPort = 0,
     mountpoint = [], allowUsers = [], homeDir = Some ''/home/x''\<rparr>"

lemma demo_expand:
  "expandHome demo_flags (varStorage demo_flags) = Return ''/home/x/.rufs''"
  "expandHome demo_flags (masterCert demo_flags) = Return (masterCert demo_flags)"
  "splitStr marker (masterCert demo_flags) = [[], ''/master/ca.crt'']"
  "joinPath [[], ''/home/x/.rufs'', ''/master/ca.crt''] = ''/home/x/.rufs/master/ca.crt''"
  by code_simp+

lemma demo_marker:
  "\<not> sublist marker ''/srv/m''" "\<not> sublist marker ''/home/x/docs''" "\<not> sublist marker ''/home/x/.rufs''"
  "sublist marker (masterCert demo_flags)"
  by (simp_all add: marker_def demo_flags_def sublist_Cons_right)

text \<open>
  C32. \<^verbatim>\<open>getPath\<close> replaces the home prefix, then every occurrence of the storage marker by the expanded
  storage flag, joining the pieces from left to right; a path without the marker is returned as it
  is. When the storage flag mentions the marker itself, a path with the marker makes \<^verbatim>\<open>getPath\<close>
  recurse until the stack is exhausted.
\<close>

theorem getPath_result:
  assumes "expandHome fl (varStorage fl) = Return v" and "expandHome fl path = Return p"
  shows "getPath fl path =
    (if \<not> sublist marker p then Return p
     else if sublist marker v then Panic
     else Return (foldl (\<lambda>a x. joinPath [a, v, x]) (hd (splitStr marker p)) (tl (splitStr marker p))))"
proof (cases "sublist marker p")
  case False
  then have "splitStr marker p = [p]" by (intro splitStr_no_sep) (simp add: marker_def)
  then show ?thesis using False assms(2) by (simp add: getPath_def getPathRec.simps)
next
  case p: True
  then obtain e e' es where s: "splitStr marker p = e # e' # es"
    using splitStr_sep [OF _ p] by (auto simp: marker_def)
  show ?thesis
  proof (cases "sublist marker v")
    case True
    have "getPathRec fl path = None"
      using getPathRec_loops [OF assms(1) True] assms(2) s by (subst getPathRec.simps) simp
    then show ?thesis using p True by (simp add: getPath_def)
  next
    case False
    then show ?thesis using getPath_marker [OF assms(1) False assms(2) s] p s by simp
  qed
qed

theorem getPath_result_witness:
  "getPath demo_flags (masterCert demo_flags) = Return ''/home/x/.rufs/master/ca.crt''"
  using getPath_result [OF demo_expand(1,2)] demo_marker(3,4) demo_expand(3,4) by simp

lemma demo_getPath:
  "getPath demo_flags ''/srv/m'' = Return ''/srv/m''"
  "getPath demo_flags ''/home/x/docs'' = Return ''/home/x/docs''"
  "getPath demo_flags (varStorage demo_flags) = Return ''/home/x/.rufs''"
proof -
  show "getPath demo_flags ''/srv/m'' = Return ''/srv/m''" "getPath demo_flags ''/home/x/docs'' = Return ''/home/x/docs''"
    using getPath_plain demo_marker by (auto simp: hasPrefix_def)
  have "splitStr marker ''/home/x/.rufs'' = [''/home/x/.rufs'']"
    by (rule splitStr_no_sep [OF _ demo_marker(3)]) (simp add: marker_def)
  then show "getPath demo_flags (varStorage demo_flags) = Return ''/home/x/.rufs''"
    using demo_expand(1) by (subst getPath_def, subst getPathRec.simps) simp
qed

end
