(* ===== verification/Peer_Server.thy ===== *)
theory Peer_Server
  imports File_Scanner Program_Flags Crypto
begin

text \<open>
  The peer that shares directories, \<^verbatim>\<open>server.go\<close>: parsing of the share flag, the start-up against the
  master, the index from content hash to the files that hold it, the queue of requests to the
  master with the goroutines that drain it, the RPC handler \<^verbatim>\<open>Read\<close>, and the registration.

  Calls to the master and to the operating system are the fields of the record \<open>server_env\<close>. The
  index and the queue are kept in the record \<open>Server\<close>; the set of keys of a Go map used as a set is
  a list without duplicates. A request waits in the queue with the pointer that the scanner's callback
  was given and is encoded when a goroutine sends it, so that what is sent is one of the values the
  pointed-to variable has taken by then (\<open>encodes\<close>). The contexts given to \<^verbatim>\<open>ContinuousExport\<close> are numbered, and the
  cancelled ones are listed beside the server.
\<close>

section \<open>State\<close>

text \<open>
  A \<^verbatim>\<open>SetFileRequest\<close> in the channel, with its pointer; the request that it becomes when it is encoded
  at once, and all the requests that it can become on the wire. The queue only ever grows in the model: it is the sequence of all requests sent to the channel.
\<close>

record queued =
  q_Path :: string
  q_Info :: "info_ptr option"

definition prompt :: "queued \<Rightarrow> SetFileRequest" where
  "prompt q = \<lparr>sf_Path = q_Path q, sf_Info = map_option pointee (q_Info q)\<rparr>"

definition encodes :: "queued \<Rightarrow> SetFileRequest \<Rightarrow> bool" where
  "encodes q r \<longleftrightarrow> sf_Path r = q_Path q \<and>
     (case q_Info q of
        None \<Rightarrow> sf_Info r = None
      | Some ptr \<Rightarrow> sf_Info r \<in> Some ` set (pointee ptr # overwrites ptr))"

record 'cert Server =
  srv_master :: string
  shares :: "(string, string) gomap"
  srv_cert :: "'cert option"
  hashToPath :: "(string, string list) gomap"
  setFileRequestChan :: "queued list"

record 'cert server_env =
  loadX509KeyPair :: "string \<Rightarrow> string \<Rightarrow> go_error + 'cert"
  mkdirAllErr :: "string \<Rightarrow> go_error option"
  writeFileErr :: "string \<Rightarrow> go_error option"
  listenErr :: "string \<Rightarrow> go_error option"
  dialErr :: "go_error option"
  registerRpc :: "string \<Rightarrow> string \<Rightarrow> string \<Rightarrow> go_error + string"
  signinRpc :: "string \<Rightarrow> string \<Rightarrow> go_error option"

section \<open>The share flag\<close>

text \<open>\<^verbatim>\<open>strings.SplitN(s, "=", 2)\<close>.\<close>

definition splitEq :: "string \<Rightarrow> string list" where
  "splitEq s =
     (case dropWhile (\<lambda>c. c \<noteq> CHR ''='') s of
        [] \<Rightarrow> [s]
      | _ # rest \<Rightarrow> [takeWhile (\<lambda>c. c \<noteq> CHR ''='') s, rest])"

definition addShare :: "flags \<Rightarrow> string \<Rightarrow> (string, string) gomap \<Rightarrow> (string, string) gomap go" where
  "addShare fl s sh =
     (case splitEq s of
        [name, dir] \<Rightarrow> go_bind (getPath fl dir) (\<lambda>p. Return (AList.update name p sh))
      | _ \<Rightarrow> go_bind (getPath fl s) (\<lambda>p. Return (AList.update (basePath s) p sh)))"

definition parseShares :: "flags \<Rightarrow> (go_error + (string, string) gomap) go" where
  "parseShares fl =
     (if share fl = [] then Return (Inr [])
      else
        let items = splitOn (CHR '','') (share fl) in
        if length items > 1 then
          go_bind (go_fold (addShare fl) items [])
            (\<lambda>sh. Return (if length sh \<noteq> length items then Inl DuplicateShares else Inr sh))
        else Return (Inr [([], items ! 0)]))"

definition certNames :: "flags \<Rightarrow> string \<Rightarrow> string \<times> string" where
  "certNames fl dir = (joinPath [dir, flag_user fl @ ''.crt''], joinPath [dir, flag_user fl @ ''.key''])"

definition newServer ::
  "('k, 'p, 'c) crypto_env \<Rightarrow> 'cert server_env \<Rightarrow> filesys \<Rightarrow> flags \<Rightarrow> string \<Rightarrow> (go_error + 'c \<times> 'cert Server) go"
where
  "newServer env senv fs fl master =
     go_bind (getPath fl (masterCert fl)) (\<lambda>crt.
     case loadCertificate env fs crt of
       Inl e \<Rightarrow> Return (Inl e)
     | Inr cacert \<Rightarrow>
         go_bind (getPath fl (varStorage fl)) (\<lambda>dir.
         let (certFile, keyFile) = certNames fl dir in
         case (if map_of fs certFile \<noteq> None \<and> map_of fs keyFile \<noteq> None
               then (case loadX509KeyPair senv certFile keyFile of Inl e \<Rightarrow> Inl e | Inr c \<Rightarrow> Inr (Some c))
               else Inr None) of
           Inl e \<Rightarrow> Return (Inl e)
         | Inr cert \<Rightarrow>
             go_bind (parseShares fl) (\<lambda>r. Return
               (case r of
                  Inl e \<Rightarrow> Inl e
                | Inr sh \<Rightarrow> Inr (cacert, \<lparr>srv_master = master, shares = sh, srv_cert = cert, hashToPath = [],
                                      setFileRequestChan = []\<rparr>)))))"

section \<open>Registration and start-up\<close>

datatype outcome = ExitOk | Failed go_error | Ready string

text \<open>
  \<^verbatim>\<open>getCertificates\<close>: a new key pair, registration with the master, the certificate written beside
  the key. On success the process exits.
\<close>

definition getCertificates ::
  "('k, 'p, 'c) crypto_env \<Rightarrow> 'cert server_env \<Rightarrow> flags \<Rightarrow> filesys \<Rightarrow> (filesys \<times> outcome) go"
where
  "getCertificates env senv fl fs =
     go_bind (getPath fl (varStorage fl)) (\<lambda>dir.
     if mkdirAllErr senv dir \<noteq> None then Panic
     else
       let (crtFile, keyFile) = certNames fl dir in
       Return
         (case createKeyPair env fs keyFile of
            (fs1, Inl e) \<Rightarrow> (fs1, Failed e)
          | (fs1, Inr sk) \<Rightarrow>
              (case serializePubKey env sk of
                 Inl e \<Rightarrow> (fs1, Failed e)
               | Inr pub \<Rightarrow>
                   (case registerRpc senv (flag_user fl) (registerToken fl) pub of
                      Inl e \<Rightarrow> (fs1, Failed e)
                    | Inr cert \<Rightarrow>
                        (case writeFileErr senv crtFile of
                           Some e \<Rightarrow> (fs1, Failed e)
                         | None \<Rightarrow> (AList.update crtFile cert fs1, ExitOk))))))"

fun natStr :: "nat \<Rightarrow> string" where
  "natStr n = (if n < 10 then [''0123456789'' ! n] else natStr (n div 10) @ [''0123456789'' ! (n mod 10)])"

declare natStr.simps [simp del]

definition intStr :: "int \<Rightarrow> string" where
  "intStr i = (if i < 0 then ''-'' @ natStr (nat (- i)) else natStr (nat i))"

definition signinAddr :: "flags \<Rightarrow> string" where
  "signinAddr fl = (if share fl \<noteq> [] \<or> extIp fl \<noteq> [] then extIp fl @ '':'' @ intStr (port fl) else [])"

definition server_Setup ::
  "('k, 'p, 'c) crypto_env \<Rightarrow> 'cert server_env \<Rightarrow> flags \<Rightarrow> 'cert Server \<Rightarrow> filesys \<Rightarrow> (filesys \<times> outcome) go"
where
  "server_Setup env senv fl s fs =
     (case (if srv_cert s \<noteq> None then listenErr senv ('':'' @ intStr (port fl)) else None) of
        Some e \<Rightarrow> Return (fs, Failed e)
      | None \<Rightarrow>
          (case dialErr senv of
             Some e \<Rightarrow> Return (fs, Failed e)
           | None \<Rightarrow>
               if registerToken fl \<noteq> [] then getCertificates env senv fl fs
               else if srv_cert s = None then Return (fs, Failed ClientCertificateNotFound)
               else
                 (case signinRpc senv (signinAddr fl) (flag_user fl) of
                    Some e \<Rightarrow> Return (fs, Failed (SigninFailed e))
                  | None \<Rightarrow> Return (fs, Ready (signinAddr fl)))))"

section \<open>The index of shared files\<close>

definition dropPath :: "string \<Rightarrow> string \<Rightarrow> (string, string list) gomap \<Rightarrow> (string, string list) gomap" where
  "dropPath h k idx =
     (let ps = removeAll k (map_get [] idx h) in
      if ps = [] then AList.delete h idx else AList.update h ps idx)"

definition addPath :: "string \<Rightarrow> string \<Rightarrow> (string, string list) gomap \<Rightarrow> (string, string list) gomap" where
  "addPath h k idx = AList.update h (List.insert k (map_get [] idx h)) idx"

definition server_SetFile ::
  "string \<Rightarrow> string \<Rightarrow> info_ptr option \<Rightarrow> FileInfo option \<Rightarrow> 'cert Server \<Rightarrow> 'cert Server"
where
  "server_SetFile sh path info old s =
     (let sharePlusPath = sh @ [NUL] @ path;
          idx1 = (case old of None \<Rightarrow> hashToPath s | Some f \<Rightarrow> dropPath (Hash f) sharePlusPath (hashToPath s));
          idx2 = (case info of None \<Rightarrow> idx1 | Some ptr \<Rightarrow> addPath (Hash (pointee ptr)) sharePlusPath idx1)
      in s\<lparr>hashToPath := idx2,
          setFileRequestChan := setFileRequestChan s @ [\<lparr>q_Path = joinPath [sh, path], q_Info = info\<rparr>]\<rparr>)"

section \<open>Scanning the shares\<close>

text \<open>The server with the contexts that have been cancelled, which is what a scanner's listener changes.\<close>

record 'cert server_world =
  srv :: "'cert Server"
  cancelled :: "nat list"

definition setFileCallback :: "string \<Rightarrow> 'cert server_world export_callback" where
  "setFileCallback sh c path info old w = w\<lparr>srv := server_SetFile sh path info old (srv w)\<rparr>"

definition cancelCtx :: "nat \<Rightarrow> 'cert server_world \<Rightarrow> 'cert server_world" where
  "cancelCtx c w = w\<lparr>cancelled := c # cancelled w\<rparr>"

definition ctxDone :: "'cert server_world \<Rightarrow> nat \<Rightarrow> bool" where
  "ctxDone w c \<longleftrightarrow> c \<in> set (cancelled w)"

text \<open>The body of the loop over the shares in \<^verbatim>\<open>Run\<close>, and the reconnect callback it installs.\<close>

definition startShare ::
  "'cert server_world scan_env \<Rightarrow> string \<Rightarrow> string \<Rightarrow> string \<Rightarrow> nat \<Rightarrow> (string, blob) gomap \<Rightarrow> 'cert server_world
     \<Rightarrow> 'cert server_world sys"
where
  "startShare env sh base storage ectx fs w =
     ContinuousExport env ectx (setFileCallback sh) \<lparr>sc = New base storage, files = fs, world = w\<rparr>"

definition reconnectShare ::
  "'cert server_world scan_env \<Rightarrow> string \<Rightarrow> nat \<Rightarrow> nat \<Rightarrow> 'cert server_world sys \<Rightarrow> 'cert server_world sys"
where
  "reconnectShare env sh ectx ectx' s =
     ContinuousExport env ectx' (setFileCallback sh) (s\<lparr>world := cancelCtx ectx (world s)\<rparr>)"

section \<open>The goroutines that send requests to the master\<close>

text \<open>
  \<^verbatim>\<open>startSetFileThreads\<close>: four goroutines take requests off the channel in order and call \<^verbatim>\<open>SetFile\<close> of the
  client, here the effect \<open>setFile\<close> of the master's handler on the master's state. A call takes its time:
  the handler may run more than once, as the client repeats the call after a reconnect; then the call
  either returns what the handler returned, or it fails, with or without the handler having run. An
  error is logged and the request is gone; \<open>finished\<close> is the record of the calls that returned.
\<close>

record 'm workers =
  pending :: "queued list"
  busy :: "queued list"
  finished :: "(queued \<times> go_error option) list"
  remote :: 'm

inductive worker_step ::
  "(SetFileRequest \<Rightarrow> 'm \<Rightarrow> ('m \<times> go_error option) go) \<Rightarrow> 'm workers \<Rightarrow> 'm workers \<Rightarrow> bool"
  for setFile :: "SetFileRequest \<Rightarrow> 'm \<Rightarrow> ('m \<times> go_error option) go"
where
  take: "pending s = q # qs \<Longrightarrow> length (busy s) < 4 \<Longrightarrow>
     worker_step setFile s (s\<lparr>pending := qs, busy := busy s @ [q]\<rparr>)"
| handled: "q \<in> set (busy s) \<Longrightarrow> encodes q r \<Longrightarrow> setFile r (remote s) = Return (m, e) \<Longrightarrow>
     worker_step setFile s (s\<lparr>remote := m\<rparr>)"
| answered: "busy s = as @ q # bs \<Longrightarrow> encodes q r \<Longrightarrow> setFile r (remote s) = Return (m, e) \<Longrightarrow>
     worker_step setFile s (s\<lparr>busy := as @ bs, finished := finished s @ [(q, e)], remote := m\<rparr>)"
| failed: "busy s = as @ q # bs \<Longrightarrow>
     worker_step setFile s (s\<lparr>busy := as @ bs, finished := finished s @ [(q, Some e)]\<rparr>)"

definition startSetFileThreads :: "queued list \<Rightarrow> 'm \<Rightarrow> 'm workers" where
  "startSetFileThreads qs m = \<lparr>pending = qs, busy = [], finished = [], remote = m\<rparr>"

text \<open>The table a sequence of requests leaves at the master.\<close>

definition announced :: "SetFileRequest list \<Rightarrow> string \<Rightarrow> FileInfo option" where
  "announced reqs = fold (\<lambda>r m. m(sf_Path r := sf_Info r)) reqs Map.empty"

section \<open>Reading a file for another peer\<close>

text \<open>
  The operating system: what opening a file yields, the error of a read, and the number of bytes that
  one read of a file delivers, given the offset and the number of bytes asked for.
\<close>

record file_env =
  openFile :: "string \<Rightarrow> go_error + string"
  readErr :: "string \<Rightarrow> go_error option"
  osRead :: "string \<Rightarrow> nat \<Rightarrow> nat \<Rightarrow> nat"

text \<open>
  One call of \<^verbatim>\<open>os.File.Read\<close>: the runtime asks the system for at most 1 GiB, and the system delivers
  no more bytes than it was asked for or the file has left, and possibly fewer.
\<close>

definition maxRW :: int where
  "maxRW = 1073741824"

definition fileRead :: "file_env \<Rightarrow> string \<Rightarrow> string \<Rightarrow> nat \<Rightarrow> int \<Rightarrow> string" where
  "fileRead fenv fn content offset sz =
     (let want = nat (min sz maxRW) in take (min want (osRead fenv fn offset want)) (drop offset content))"

fun openFirst ::
  "file_env \<Rightarrow> (string, string) gomap \<Rightarrow> string list \<Rightarrow> go_error \<Rightarrow> (go_error + string \<times> string) go"
where
  "openFirst fenv shs [] err = Return (Inl err)"
| "openFirst fenv shs (k # ks) err =
     (let sp = splitOn NUL k in
      if length sp < 2 then Panic
      else
        let fn = joinPath [map_get [] shs (sp ! 0), sp ! 1] in
        case openFile fenv fn of
          Inr content \<Rightarrow> Return (Inr (fn, content))
        | Inl e \<Rightarrow> openFirst fenv shs ks e)"

text \<open>
  \<^verbatim>\<open>Read\<close>: the data and the error of the reply. The handler reads once and replies with what it got; at
  the end of the file the read yields \<^verbatim>\<open>io.EOF\<close>, which the handler drops.
\<close>

definition Read :: "file_env \<Rightarrow> 'cert Server \<Rightarrow> ReadRequest \<Rightarrow> (string \<times> go_error option) go" where
  "Read fenv s q =
     (case map_of (hashToPath s) (rd_Hash q) of
        None \<Rightarrow> Return ([], Some ENOENT)
      | Some paths \<Rightarrow>
          if length paths = 0 then Return ([], Some ENOENT)
          else
            go_bind (openFirst fenv (shares s) paths ENOENT) (\<lambda>r.
            case r of
              Inl e \<Rightarrow> Return ([], Some e)
            | Inr (fn, content) \<Rightarrow>
                if rd_Offset q < 0 then Return ([], Some (OsError ''invalid argument''))
                else if rd_Size q < 0 \<or> rd_Size q > maxAlloc then Panic
                else
                  case readErr fenv fn of
                    Some e \<Rightarrow> Return ([], Some e)
                  | None \<Rightarrow> Return (fileRead fenv fn content (nat (rd_Offset q)) (rd_Size q), None)))"

definition Ping :: "go_error option" where
  "Ping = None"


section \<open>The index and the requests follow the scanner\<close>

text \<open>
  The index holds exactly the files of the share's table under their hashes, and the requests queued
  so far, however they are encoded, announce exactly the table when they are applied in order.
\<close>

definition index_ok :: "string \<Rightarrow> (string \<Rightarrow> FileInfo option) \<Rightarrow> (string, string list) gomap \<Rightarrow> bool" where
  "index_ok sh m idx \<longleftrightarrow>
     (\<forall>h p. sh @ [NUL] @ p \<in> set (map_get [] idx h) \<longleftrightarrow> (\<exists>f. m p = Some f \<and> Hash f = h))"

definition index_mirror :: "string \<Rightarrow> (string \<Rightarrow> FileInfo option) \<Rightarrow> 'cert server_world \<Rightarrow> bool" where
  "index_mirror sh m w \<longleftrightarrow> (sh = [] \<or> plain_part sh) \<and> index_ok sh m (hashToPath (srv w))"

definition server_mirror :: "string \<Rightarrow> (string \<Rightarrow> FileInfo option) \<Rightarrow> 'cert server_world \<Rightarrow> bool" where
  "server_mirror sh m w \<longleftrightarrow> index_mirror sh m w
     \<and> (\<forall>reqs p. list_all2 encodes (setFileRequestChan (srv w)) reqs \<and> scan_path p \<longrightarrow>
          announced reqs (joinPath [sh, p]) = m p)"

definition serverScanEnv ::
  "(string \<Rightarrow> string) \<Rightarrow> go_error option \<Rightarrow> go_error option \<Rightarrow> bool \<Rightarrow> go_error option \<Rightarrow> 'cert server_world scan_env"
where
  "serverScanEnv h ce ee cf re = \<lparr>isDone = ctxDone, sha1sum = h, createErr = ce, encodeErr = ee,
     closeFails = cf, renameErr = re\<rparr>"

lemma dropPath_set:
  "set (map_get [] (dropPath h k idx) h') = set (map_get [] idx h') - (if h' = h then {k} else {})"
  by (auto simp: dropPath_def Let_def removeAll_filter_not_eq filter_empty_conv)

lemma addPath_set:
  "set (map_get [] (addPath h k idx) h') = set (map_get [] idx h') \<union> (if h' = h then {k} else {})"
  by (auto simp: addPath_def)

lemma encodes_fresh:
  "encodes \<lparr>q_Path = path, q_Info = map_option fresh fi\<rparr> r \<longleftrightarrow> r = \<lparr>sf_Path = path, sf_Info = fi\<rparr>"
  by (cases r; cases fi) (auto simp: encodes_def fresh_def)

lemma encodes_prompt: "list_all2 encodes qs (map prompt qs)"
  by (induction qs) (auto simp: encodes_def prompt_def split: option.split)

lemma announced_snoc: "announced (rs @ [r]) = (announced rs)(sf_Path r := sf_Info r)"
  by (simp add: announced_def)

lemma joinPath_relName:
  assumes "sh = [] \<or> plain_part sh" and "\<forall>n \<in> set ns. plain_part n"
  shows "joinPath [sh, relName ns] = relName (if sh = [] then ns else sh # ns)"
proof (cases "ns = []")
  case True
  have "joinPath [sh, ''.''] = sh" if "plain_part sh"
  proof -
    have "SLASH \<notin> set sh" "sh \<noteq> []" using that by (auto simp: plain_part_def)
    then have "splitOn SLASH (sh @ ''/.'') = [sh, ''.'']" "sh ! 0 \<noteq> SLASH"
      by (simp add: splitOn_append_sep, metis length_greater_0_conv nth_mem)
    then show ?thesis using that \<open>sh \<noteq> []\<close>
      by (simp add: joinPath_def cleanPath_def plain_part_def nth_append)
  qed
  moreover have "joinPath [[], ''.''] = ''.''" by (simp add: joinPath_def cleanPath_def)
  ultimately show ?thesis using True assms(1) by (auto simp: relName_def)
next
  case False
  then show ?thesis using joinPath_plain [OF False assms(2,1)] by (simp add: relName_def)
qed

lemma share_path_inj:
  assumes "sh = [] \<or> plain_part sh" and "scan_path p" and "scan_path q" and "joinPath [sh, p] = joinPath [sh, q]"
  shows "p = q"
proof -
  obtain ns ms where ns: "p = relName ns" "\<forall>n \<in> set ns. plain_part n"
    and ms: "q = relName ms" "\<forall>n \<in> set ms. plain_part n"
    using assms(2,3) unfolding scan_path_def by blast
  have "relName (if sh = [] then ns else sh # ns) = relName (if sh = [] then ms else sh # ms)"
    using assms(4) joinPath_relName [OF assms(1)] ns ms by simp
  then have "(if sh = [] then ns else sh # ns) = (if sh = [] then ms else sh # ms)"
    by (rule relName_inj) (use assms(1) ns(2) ms(2) in \<open>auto split: if_splits\<close>)
  then show ?thesis using ns(1) ms(1) by (auto split: if_splits)
qed

lemma index_ok_modified:
  assumes "index_ok sh m (hashToPath s)"
  shows "index_ok sh (m(p := fi))
    (hashToPath (server_SetFile sh p (map_option fresh fi) (Some (case m p of None \<Rightarrow> zeroInfo | Some f \<Rightarrow> f)) s))"
proof -
  let ?old = "case m p of None \<Rightarrow> zeroInfo | Some f \<Rightarrow> f" and ?k = "sh @ [NUL] @ p"
  have drop: "sh @ [NUL] @ q \<in> set (map_get [] (dropPath (Hash ?old) ?k (hashToPath s)) h)
      \<longleftrightarrow> (\<exists>f. (m(p := None)) q = Some f \<and> Hash f = h)" for h q
    using assms by (cases "m p") (auto simp: dropPath_set index_ok_def)
  show ?thesis unfolding index_ok_def
    using drop by (cases fi) (auto simp: server_SetFile_def fresh_def Let_def addPath_set simp del: append.simps)
qed

lemma index_ok_exported:
  assumes "index_ok sh m (hashToPath s)" and "m p = Some f"
  shows "index_ok sh m (hashToPath (server_SetFile sh p (Some (InfoPtr f later)) None s))"
  using assms by (auto simp: index_ok_def server_SetFile_def Let_def addPath_set)

lemma announced_modified:
  assumes "sh = [] \<or> plain_part sh" and "scan_path p"
    and "\<forall>reqs q. list_all2 encodes (setFileRequestChan s) reqs \<and> scan_path q \<longrightarrow> announced reqs (joinPath [sh, q]) = m q"
    and "list_all2 encodes (setFileRequestChan (server_SetFile sh p (map_option fresh fi) old s)) reqs" and "scan_path q"
  shows "announced reqs (joinPath [sh, q]) = (m(p := fi)) q"
proof -
  obtain rs r where "reqs = rs @ [r]" and rs: "list_all2 encodes (setFileRequestChan s) rs"
    and "r = \<lparr>sf_Path = joinPath [sh, p], sf_Info = fi\<rparr>"
    using assms(4) by (auto simp: server_SetFile_def Let_def list_all2_append1 list_all2_Cons1 encodes_fresh)
  then show ?thesis using share_path_inj [OF assms(1,2,5)] assms(3,5) rs by (auto simp: announced_snoc)
qed

lemma callback_contexts:
  "isDone (serverScanEnv h ce ee cf re) (setFileCallback sh c p ptr old w) = isDone (serverScanEnv h ce ee cf re) w"
  by (simp add: serverScanEnv_def setFileCallback_def ctxDone_def fun_eq_iff)

text \<open>
  The index keeps up with the table in every case. The requests do as long as the table is empty
  when the listener is registered, as it is when the share is started.
\<close>

interpretation indexed: scan_listener "serverScanEnv h ce ee cf re" "setFileCallback sh" "index_mirror sh"
  for h ce ee cf re sh
  by unfold_locales
    (auto simp: index_mirror_def setFileCallback_def serverScanEnv_def ctxDone_def fun_eq_iff
      intro: index_ok_modified index_ok_exported)

interpretation peer: scan_changes "serverScanEnv h ce ee cf re" "setFileCallback sh" "server_mirror sh"
  for h ce ee cf re sh
proof
  fix m :: "string \<Rightarrow> FileInfo option" and w :: "'a server_world" and p fi c old ptr
  show "isDone (serverScanEnv h ce ee cf re) (setFileCallback sh c p ptr old w) = isDone (serverScanEnv h ce ee cf re) w"
    by (rule callback_contexts)
  let ?old = "Some (case m p of None \<Rightarrow> zeroInfo | Some f \<Rightarrow> f)"
  let ?w = "setFileCallback sh c p (map_option fresh fi) ?old w"
  assume mir: "server_mirror sh m w" and "\<And>q. m q \<noteq> None \<Longrightarrow> scan_path q" and p: "scan_path p"
  have sh: "sh = [] \<or> plain_part sh"
    and ann: "\<forall>reqs q. list_all2 encodes (setFileRequestChan (srv w)) reqs \<and> scan_path q \<longrightarrow> announced reqs (joinPath [sh, q]) = m q"
    using mir by (auto simp: server_mirror_def index_mirror_def)
  have "index_mirror sh (m(p := fi)) ?w"
    using mir index_ok_modified by (auto simp: server_mirror_def index_mirror_def setFileCallback_def)
  moreover have "announced reqs (joinPath [sh, q]) = (m(p := fi)) q"
    if "list_all2 encodes (setFileRequestChan (srv ?w)) reqs" "scan_path q" for reqs q
    by (rule announced_modified [OF sh p ann _ that(2), where old = ?old]) (use that(1) in \<open>simp add: setFileCallback_def\<close>)
  ultimately show "server_mirror sh (m(p := fi)) ?w" unfolding server_mirror_def by blast
qed

lemma startShare_tracked:
  assumes "sh = [] \<or> plain_part sh" and "hashToPath (srv w) = []" and "setFileRequestChan (srv w) = []"
    and "ectx \<notin> set (cancelled w)"
  shows "tracked (serverScanEnv h ce ee cf re) (setFileCallback sh) (server_mirror sh)
    (startShare (serverScanEnv h ce ee cf re) sh base storage ectx fs w)"
  unfolding startShare_def
  by (rule peer.register_tracked)
    (use assms in \<open>auto simp: quiet_def New_def server_mirror_def index_mirror_def index_ok_def announced_def live_def
      serverScanEnv_def ctxDone_def\<close>)

lemma tracked_index: "tracked env cb (server_mirror sh) s \<Longrightarrow> tracked env cb (index_mirror sh) s"
  by (simp add: tracked_def quiet_def server_mirror_def)

lemma startShare_base: "baseDir (sc (startShare env sh base storage ectx fs w)) = base"
  by (simp add: startShare_def ContinuousExport_def New_def Let_def)

text \<open>The requests of an export: the pointer of each sees the entries that follow it.\<close>

fun exportRequests :: "string \<Rightarrow> (string, FileInfo) gomap \<Rightarrow> queued list" where
  "exportRequests sh [] = []"
| "exportRequests sh ((p, f) # xs) =
     \<lparr>q_Path = joinPath [sh, p], q_Info = Some (InfoPtr f (map snd xs))\<rparr> # exportRequests sh xs"

lemma exportLoop_requests:
  assumes "\<not> ctxDone w c"
  shows "setFileRequestChan (srv (exportLoop ctxDone c (setFileCallback sh) xs w)) =
    setFileRequestChan (srv w) @ exportRequests sh xs"
  using assms
proof (induction xs arbitrary: w)
  case (Cons x xs)
  obtain p f where x: "x = (p, f)" by (cases x)
  have "\<not> ctxDone (setFileCallback sh c p (Some (InfoPtr f (map snd xs))) None w) c"
    using Cons.prems by (simp add: ctxDone_def setFileCallback_def)
  from Cons.IH [OF this] show ?case
    using Cons.prems x by (simp add: setFileCallback_def server_SetFile_def Let_def)
qed simp

lemma exportRequests_nth:
  "i < length xs \<Longrightarrow> exportRequests sh xs ! i =
     \<lparr>q_Path = joinPath [sh, fst (xs ! i)], q_Info = Some (InfoPtr (snd (xs ! i)) (map snd (drop (Suc i) xs)))\<rparr>"
  by (induction sh xs arbitrary: i rule: exportRequests.induct) (auto simp: nth_Cons split: nat.split)

lemma length_exportRequests [simp]: "length (exportRequests sh xs) = length xs"
  by (induction sh xs rule: exportRequests.induct) auto

lemma set_drop_nth: "set (drop i xs) = {xs ! j |j. i \<le> j \<and> j < length xs}"
proof (intro equalityI subsetI)
  fix x assume "x \<in> set (drop i xs)"
  then obtain k where "k < length xs - i" "x = xs ! (i + k)" by (auto simp: in_set_conv_nth)
  then show "x \<in> {xs ! j |j. i \<le> j \<and> j < length xs}" by (intro CollectI exI [of _ "i + k"]) auto
next
  fix x assume "x \<in> {xs ! j |j. i \<le> j \<and> j < length xs}"
  then obtain j where "i \<le> j" "j < length xs" "x = xs ! j" by blast
  then have "drop i xs ! (j - i) = x" "j - i < length (drop i xs)" by auto
  then show "x \<in> set (drop i xs)" by (metis nth_mem)
qed

lemma encodes_export:
  "list_all2 encodes (exportRequests sh xs) reqs \<longleftrightarrow> length reqs = length xs \<and>
    (\<forall>i < length xs. sf_Path (reqs ! i) = joinPath [sh, fst (xs ! i)] \<and>
       (\<exists>j. i \<le> j \<and> j < length xs \<and> sf_Info (reqs ! i) = Some (snd (xs ! j))))"
proof -
  have "sf_Info r \<in> Some ` set (snd (xs ! i) # map snd (drop (Suc i) xs)) \<longleftrightarrow>
      (\<exists>j. i \<le> j \<and> j < length xs \<and> sf_Info r = Some (snd (xs ! j)))" if "i < length xs" for i and r :: SetFileRequest
  proof -
    have "set (snd (xs ! i) # map snd (drop (Suc i) xs)) = snd ` set (drop i xs)"
      using Cons_nth_drop_Suc [OF that] by (metis list.simps(9) list.set_map)
    also have "\<dots> = {snd (xs ! j) |j. i \<le> j \<and> j < length xs}" unfolding set_drop_nth by auto
    finally show ?thesis by auto
  qed
  then show ?thesis by (auto simp: list_all2_conv_all_nth exportRequests_nth encodes_def)
qed

lemma announced_distinct:
  "distinct (map sf_Path reqs) \<Longrightarrow> i < length reqs \<Longrightarrow> announced reqs (sf_Path (reqs ! i)) = sf_Info (reqs ! i)"
proof (induction reqs rule: rev_induct)
  case (snoc r reqs)
  show ?case
  proof (cases "i < length reqs")
    case True
    then have "sf_Path (reqs ! i) \<in> sf_Path ` set reqs" by simp
    then have "sf_Path (reqs ! i) \<noteq> sf_Path r" using snoc.prems(1) by auto
    then show ?thesis using True snoc by (simp add: announced_snoc nth_append)
  qed (use snoc.prems in \<open>simp add: announced_snoc nth_append\<close>)
qed simp

lemma announced_other: "path \<notin> sf_Path ` set reqs \<Longrightarrow> announced reqs path = None"
  by (induction reqs rule: rev_induct) (auto simp: announced_snoc, simp add: announced_def)

lemma export_paths_distinct:
  assumes "sh = [] \<or> plain_part sh" and "wf_map xs" and "\<forall>p \<in> fst ` set xs. scan_path p"
  shows "distinct (map (\<lambda>x. joinPath [sh, fst x]) xs)"
proof -
  have "inj_on (\<lambda>p. joinPath [sh, p]) (fst ` set xs)"
    using share_path_inj [OF assms(1)] assms(3) by (auto intro!: inj_onI)
  then show ?thesis using assms(2) by (simp add: distinct_map inj_on_def)
qed

lemma announced_export:
  assumes "sh = [] \<or> plain_part sh" and "wf_map xs" and "\<forall>p \<in> fst ` set xs. scan_path p" and "i < length xs"
    and "list_all2 encodes (exportRequests sh xs) reqs"
  shows "announced reqs (joinPath [sh, fst (xs ! i)]) = sf_Info (reqs ! i)"
proof -
  note enc = assms(5) [unfolded encodes_export]
  then have "map sf_Path reqs = map (\<lambda>x. joinPath [sh, fst x]) xs" by (intro nth_equalityI) auto
  then have "distinct (map sf_Path reqs)" using export_paths_distinct [OF assms(1-3)] by simp
  then show ?thesis using announced_distinct [of reqs i] enc assms(4) by simp
qed

text \<open>What an export can announce for a file: its own entry or that of a file exported later.\<close>

lemma export_announcements:
  assumes "sh = [] \<or> plain_part sh" and "wf_map xs" and "\<forall>p \<in> fst ` set xs. scan_path p" and "i < length xs"
  shows "{announced reqs (joinPath [sh, fst (xs ! i)]) |reqs. list_all2 encodes (exportRequests sh xs) reqs} =
    {Some (snd (xs ! j)) |j. i \<le> j \<and> j < length xs}"
proof (intro equalityI subsetI)
  fix v assume "v \<in> {Some (snd (xs ! j)) |j. i \<le> j \<and> j < length xs}"
  then obtain j where j: "v = Some (snd (xs ! j))" "i \<le> j" "j < length xs" by blast
  let ?reqs = "(map prompt (exportRequests sh xs))[i := \<lparr>sf_Path = joinPath [sh, fst (xs ! i)], sf_Info = v\<rparr>]"
  have "list_all2 encodes (exportRequests sh xs) ?reqs" unfolding encodes_export
    using j assms(4) by (auto simp: nth_list_update exportRequests_nth prompt_def)
  moreover have "announced ?reqs (joinPath [sh, fst (xs ! i)]) = v"
    using announced_export [OF assms calculation] assms(4) by simp
  ultimately show "v \<in> {announced reqs (joinPath [sh, fst (xs ! i)]) |reqs. list_all2 encodes (exportRequests sh xs) reqs}"
    by (intro CollectI exI [of _ ?reqs]) simp
next
  fix v assume "v \<in> {announced reqs (joinPath [sh, fst (xs ! i)]) |reqs. list_all2 encodes (exportRequests sh xs) reqs}"
  then obtain reqs where v: "v = announced reqs (joinPath [sh, fst (xs ! i)])"
    and enc: "list_all2 encodes (exportRequests sh xs) reqs" by blast
  obtain j where "i \<le> j" "j < length xs" "sf_Info (reqs ! i) = Some (snd (xs ! j))"
    using enc assms(4) unfolding encodes_export by blast
  then show "v \<in> {Some (snd (xs ! j)) |j. i \<le> j \<and> j < length xs}"
    using v announced_export [OF assms enc] by auto
qed

lemma announced_prompt_export:
  assumes "sh = [] \<or> plain_part sh" and "wf_map xs" and "\<forall>p \<in> fst ` set xs. scan_path p" and "scan_path q"
  shows "announced (map prompt (exportRequests sh xs)) (joinPath [sh, q]) = map_of xs q"
proof (cases "\<exists>i < length xs. fst (xs ! i) = q")
  case True
  then obtain i where i: "i < length xs" "fst (xs ! i) = q" by blast
  then have "map_of xs q = Some (snd (xs ! i))" using assms(2) by (metis map_of_eq_Some_iff nth_mem prod.collapse)
  then show ?thesis using announced_export [OF assms(1-3) i(1) encodes_prompt] i
    by (simp add: exportRequests_nth prompt_def)
next
  case False
  then have q: "q \<notin> fst ` set xs" by (metis imageE in_set_conv_nth)
  have "sf_Path ` set (map prompt (exportRequests sh xs)) = (\<lambda>p. joinPath [sh, p]) ` fst ` set xs"
    by (induction sh xs rule: exportRequests.induct) (auto simp: prompt_def)
  then have "joinPath [sh, q] \<notin> sf_Path ` set (map prompt (exportRequests sh xs))"
    using share_path_inj [OF assms(1) assms(4)] assms(3) q by blast
  then show ?thesis using q announced_other by (metis map_of_None_iff)
qed

text \<open>Every request is waiting, being sent by one of at most four goroutines, or finished.\<close>

definition accounted :: "queued list \<Rightarrow> 'm workers \<Rightarrow> bool" where
  "accounted qs s \<longleftrightarrow> mset (pending s) + mset (busy s) + image_mset fst (mset (finished s)) = mset qs
     \<and> length (busy s) \<le> 4"

lemma workers_accounted: "worker_step setFile s t \<Longrightarrow> accounted qs s \<Longrightarrow> accounted qs t"
  by (induction rule: worker_step.induct) (auto simp: accounted_def)

text \<open>The keys the server makes hold one NUL; the file that a key stands for.\<close>

definition keyOk :: "string \<Rightarrow> bool" where
  "keyOk k \<longleftrightarrow> length (splitOn NUL k) = 2"

definition keyFile :: "(string, string) gomap \<Rightarrow> string \<Rightarrow> string" where
  "keyFile shs k = joinPath [map_get [] shs (splitOn NUL k ! 0), splitOn NUL k ! 1]"

lemma keyOk_key:
  "NUL \<notin> set sh \<Longrightarrow> NUL \<notin> set p \<Longrightarrow>
   keyOk (sh @ [NUL] @ p) \<and> keyFile shs (sh @ [NUL] @ p) = joinPath [map_get [] shs sh, p]"
  by (simp add: keyOk_def keyFile_def splitOn_append_sep splitOn_no_sep)

lemma openFirst_Cons:
  "keyOk k \<Longrightarrow> openFirst fenv shs (k # ks) err = (case openFile fenv (keyFile shs k) of
     Inr c \<Rightarrow> Return (Inr (keyFile shs k, c)) | Inl e \<Rightarrow> openFirst fenv shs ks e)"
  by (simp add: keyOk_def keyFile_def Let_def split: sum.split)

lemma openFirst_result:
  assumes "\<forall>k \<in> set ks. keyOk k"
  shows "openFirst fenv shs ks err \<noteq> Panic"
    and "openFirst fenv shs ks err = Return (Inr (fn, c)) \<Longrightarrow> \<exists>k \<in> set ks. fn = keyFile shs k \<and> openFile fenv fn = Inr c"
    and "k \<in> set ks \<Longrightarrow> openFile fenv (keyFile shs k) = Inr c' \<Longrightarrow> \<exists>x. openFirst fenv shs ks err = Return (Inr x)"
  using assms
  by (induction ks arbitrary: err) (auto simp: openFirst_Cons simp del: openFirst.simps(2) split: sum.splits)

text \<open>The name and the directory of one item of the share flag.\<close>

definition shareName :: "string \<Rightarrow> string" where
  "shareName s = (case splitEq s of [name, dir] \<Rightarrow> name | _ \<Rightarrow> basePath s)"

definition shareDir :: "string \<Rightarrow> string" where
  "shareDir s = (case splitEq s of [name, dir] \<Rightarrow> dir | _ \<Rightarrow> s)"

lemma addShare_eq:
  "getPath fl (shareDir s) = Return d \<Longrightarrow> addShare fl s sh = Return (AList.update (shareName s) d sh)"
  by (cases "dropWhile (\<lambda>c. c \<noteq> CHR ''='') s") (simp_all add: addShare_def shareName_def shareDir_def splitEq_def
      del: dropWhile_eq_Nil_conv)

lemma addShares_eq:
  assumes "\<And>s. s \<in> set items \<Longrightarrow> getPath fl (shareDir s) = Return (dir s)"
  shows "go_fold (addShare fl) items sh = Return (fold (\<lambda>s. AList.update (shareName s) (dir s)) items sh)"
  using assms by (induction items arbitrary: sh) (auto simp: addShare_eq)

lemma fold_update_length:
  assumes "wf_map sh"
  shows "wf_map (fold (\<lambda>s. AList.update (f s) (g s)) items sh)"
    and "length (fold (\<lambda>s. AList.update (f s) (g s)) items sh) = card (fst ` set sh \<union> f ` set items)"
proof -
  have keys: "fst ` set (fold (\<lambda>s. AList.update (f s) (g s)) items sh) = fst ` set sh \<union> f ` set items" for sh
    by (induction items arbitrary: sh) auto
  show wf: "wf_map (fold (\<lambda>s. AList.update (f s) (g s)) items sh)"
    using assms by (induction items arbitrary: sh) (auto simp: distinct_update)
  show "length (fold (\<lambda>s. AList.update (f s) (g s)) items sh) = card (fst ` set sh \<union> f ` set items)"
    using distinct_card [OF wf] keys by (metis length_map list.set_map)
qed

lemma fold_update_map_of:
  assumes "distinct (map f items)"
  shows "map_of (fold (\<lambda>s. AList.update (f s) (g s)) items sh) =
    (\<lambda>k. case map_of (map (\<lambda>s. (f s, g s)) items) k of None \<Rightarrow> map_of sh k | Some v \<Rightarrow> Some v)"
  using assms
proof (induction items arbitrary: sh)
  case (Cons x items)
  have "map_of (map (\<lambda>s. (f s, g s)) items) (f x) = None"
    using Cons.prems by (auto simp: map_of_None_iff)
  then show ?case using Cons by (auto simp: fun_eq_iff split: option.split)
qed simp

section \<open>Properties\<close>

text \<open>
  C4. A share that is started and scanned, over any number of passes and with any intermediate
  saves, keeps the server in step with the scanner: the index maps a hash to exactly the share's
  cached files with that hash, and the requests queued for the master, whenever they are encoded and
  applied in the order they were queued, announce exactly the cached files.
\<close>

theorem share_follows_scanner:
  assumes "sh = [] \<or> plain_part sh" and "hashToPath (srv w) = []" and "setFileRequestChan (srv w) = []"
    and "ectx \<notin> set (cancelled w)" and "base \<noteq> []"
    and "wf_tree (tree snapF)" and "wf_tree (tree snapN)" and "\<forall>snap \<in> set snaps. wf_tree (tree snap)"
  shows "\<exists>s. scanner_Run (serverScanEnv h ce ee cf re) snapF ticks snapN snaps
          (startShare (serverScanEnv h ce ee cf re) sh base storage ectx fs w) = Return s
    \<and> (\<forall>x p. sh @ [NUL] @ p \<in> set (map_get [] (hashToPath (srv (world s))) x) \<longleftrightarrow>
          (\<exists>f. map_of (fileCache (sc s)) p = Some f \<and> Hash f = x))
    \<and> (\<forall>reqs p. list_all2 encodes (setFileRequestChan (srv (world s))) reqs \<and> scan_path p \<longrightarrow>
          announced reqs (joinPath [sh, p]) = map_of (fileCache (sc s)) p)"
proof -
  have "baseDir (sc (startShare (serverScanEnv h ce ee cf re) sh base storage ectx fs w)) \<noteq> []"
    using assms(5) by (simp add: startShare_base)
  from peer.Run_tracked [OF startShare_tracked [OF assms(1-4)] this assms(6-8)] obtain s where
    s: "scanner_Run (serverScanEnv h ce ee cf re) snapF ticks snapN snaps
      (startShare (serverScanEnv h ce ee cf re) sh base storage ectx fs w) = Return s"
    and "tracked (serverScanEnv h ce ee cf re) (setFileCallback sh) (server_mirror sh) s" by blast
  then have "server_mirror sh (map_of (fileCache (sc s))) (world s)" by (simp add: tracked_def quiet_def)
  with s show ?thesis unfolding server_mirror_def index_mirror_def index_ok_def by blast
qed

definition demo_world :: "unit server_world" where
  "demo_world = \<lparr>srv = \<lparr>srv_master = ''m'', shares = [(''docs'', ''/srv'')], srv_cert = None, hashToPath = [],
     setFileRequestChan = []\<rparr>, cancelled = [9]\<rparr>"

theorem share_follows_scanner_witness:
  "\<exists>s. scanner_Run (serverScanEnv rev None None False None) demo_snap (\<lambda>n. n = 1) demo_snap [demo_snap]
      (startShare (serverScanEnv rev None None False None) ''docs'' ''/srv'' ''/var'' 1 [] demo_world) = Return s
    \<and> announced (map prompt (setFileRequestChan (srv (world s)))) (joinPath [''docs'', ''.'']) = map_of (fileCache (sc s)) ''.''"
proof -
  have wf: "wf_tree (tree demo_snap)" using wf_demo_tree by (simp add: demo_snap_def)
  have "scan_path ''.''" unfolding scan_path_def by (rule exI [of _ "[]"]) (simp add: relName_def)
  moreover have "plain_part ''docs''" by (simp add: plain_part_def)
  ultimately show ?thesis
    using share_follows_scanner [of "''docs''" demo_world 1 "''/srv''" demo_snap demo_snap "[demo_snap]"
        rev None None False None "\<lambda>n. n = 1" "''/var''" "[]"] wf encodes_prompt
    by (fastforce simp: demo_world_def)
qed

text \<open>
  C25. What the reconnect callback of a share does after the connection to the master was replaced: the
  index stays in step with the scanner, and one request for every cached file is queued, in order. If
  every request is encoded before the loop goes on, the new requests announce, on their own, exactly the
  cached files. But the requests share one pointer to the loop variable: in general a file can be
  announced with its own metadata or with that of any file that the loop visits later, and nothing else.
\<close>

theorem reconnect_reannounces:
  assumes "tracked (serverScanEnv h ce ee cf re) (setFileCallback sh) (index_mirror sh) s"
    and "live (serverScanEnv h ce ee cf re) (cancelCtx ectx (world s)) (listeners (sc s)) = {#}"
    and "ectx' \<noteq> ectx" and "ectx' \<notin> set (cancelled (world s))"
  shows "tracked (serverScanEnv h ce ee cf re) (setFileCallback sh) (index_mirror sh)
           (reconnectShare (serverScanEnv h ce ee cf re) sh ectx ectx' s)
    \<and> (\<exists>new. setFileRequestChan (srv (world (reconnectShare (serverScanEnv h ce ee cf re) sh ectx ectx' s))) =
             setFileRequestChan (srv (world s)) @ new
         \<and> map q_Path new = map (\<lambda>(p, f). joinPath [sh, p]) (fileCache (sc s))
         \<and> (\<forall>p. scan_path p \<longrightarrow> announced (map prompt new) (joinPath [sh, p]) = map_of (fileCache (sc s)) p)
         \<and> (\<forall>i < length (fileCache (sc s)).
              {announced reqs (joinPath [sh, fst (fileCache (sc s) ! i)]) |reqs. list_all2 encodes new reqs} =
              {Some (snd (fileCache (sc s) ! j)) |j. i \<le> j \<and> j < length (fileCache (sc s))}))"
proof
  let ?env = "serverScanEnv h ce ee cf re" and ?s = "s\<lparr>world := cancelCtx ectx (world s)\<rparr>" and ?xs = "fileCache (sc s)"
  have q: "quiet (setFileCallback sh) (index_mirror sh) s" using assms(1) by (simp add: tracked_def)
  then have sh: "sh = [] \<or> plain_part sh" and xs: "wf_map ?xs" "\<forall>p \<in> fst ` set ?xs. scan_path p"
    by (auto simp: quiet_def index_mirror_def)
  have nd: "\<not> ctxDone (cancelCtx ectx (world s)) ectx'" using assms(3,4) by (simp add: ctxDone_def cancelCtx_def)
  have "quiet (setFileCallback sh) (index_mirror sh) ?s"
    using q by (simp add: quiet_def index_mirror_def cancelCtx_def)
  then show "tracked ?env (setFileCallback sh) (index_mirror sh) (reconnectShare ?env sh ectx ectx' s)"
    unfolding reconnectShare_def
    by (rule indexed.ContinuousExport_tracked) (use assms(2) nd in \<open>simp_all add: serverScanEnv_def\<close>)
  have "setFileRequestChan (srv (world (reconnectShare ?env sh ectx ectx' s))) =
      setFileRequestChan (srv (world s)) @ exportRequests sh ?xs"
    using exportLoop_requests [OF nd, of sh ?xs]
    by (simp add: reconnectShare_def ContinuousExport_def Let_def serverScanEnv_def cancelCtx_def)
  moreover have "map q_Path (exportRequests sh ?xs) = map (\<lambda>(p, f). joinPath [sh, p]) ?xs"
    by (rule nth_equalityI) (auto simp: exportRequests_nth split_def)
  ultimately show "\<exists>new. setFileRequestChan (srv (world (reconnectShare ?env sh ectx ectx' s))) =
             setFileRequestChan (srv (world s)) @ new
         \<and> map q_Path new = map (\<lambda>(p, f). joinPath [sh, p]) ?xs
         \<and> (\<forall>p. scan_path p \<longrightarrow> announced (map prompt new) (joinPath [sh, p]) = map_of ?xs p)
         \<and> (\<forall>i < length ?xs. {announced reqs (joinPath [sh, fst (?xs ! i)]) |reqs. list_all2 encodes new reqs} =
              {Some (snd (?xs ! j)) |j. i \<le> j \<and> j < length ?xs})"
    using announced_prompt_export [OF sh xs] export_announcements [OF sh xs] by blast
qed

text \<open>A share with two cached files, for the example.\<close>

definition demo_scan :: "unit server_world scan_env" where
  "demo_scan = serverScanEnv rev None None False None"

definition demo_two :: "unit server_world sys" where
  "demo_two = scanner_set demo_scan ''b'' (Some \<lparr>Size = 2, Hash = ''hb'', Mtime = 5\<rparr>)
     (scanner_set demo_scan ''a'' (Some \<lparr>Size = 3, Hash = ''ha'', Mtime = 7\<rparr>)
       (startShare demo_scan ''docs'' ''/srv'' ''/var'' 1 [] demo_world))"

lemma demo_two_tracked: "tracked demo_scan (setFileCallback ''docs'') (index_mirror ''docs'') demo_two"
proof -
  have "plain_part ''docs''" by (simp add: plain_part_def)
  then have "tracked demo_scan (setFileCallback ''docs'') (index_mirror ''docs'')
      (startShare demo_scan ''docs'' ''/srv'' ''/var'' 1 [] demo_world)"
    unfolding demo_scan_def by (intro tracked_index startShare_tracked) (simp_all add: demo_world_def)
  moreover have "scan_path [c]" if "c \<noteq> CHR ''.''" "c \<noteq> CHR ''/''" for c
    unfolding scan_path_def using that by (intro exI [of _ "[[c]]"]) (auto simp: relName_def plain_part_def hidden_def)
  ultimately show ?thesis unfolding demo_two_def demo_scan_def by (intro indexed.set_tracked) simp_all
qed

lemma demo_two_state:
  "fileCache (sc demo_two) = [(''a'', \<lparr>Size = 3, Hash = ''ha'', Mtime = 7\<rparr>), (''b'', \<lparr>Size = 2, Hash = ''hb'', Mtime = 5\<rparr>)]"
  "map ctx (listeners (sc demo_two)) = [1]" "cancelled (world demo_two) = [9]"
  by code_simp+

theorem reconnect_reannounces_witness:
  "\<exists>new reqs. setFileRequestChan (srv (world (reconnectShare demo_scan ''docs'' 1 2 demo_two))) =
       setFileRequestChan (srv (world demo_two)) @ new
     \<and> list_all2 encodes new reqs \<and> announced reqs (joinPath [''docs'', ''a'']) = Some \<lparr>Size = 2, Hash = ''hb'', Mtime = 5\<rparr>"
proof -
  have "live demo_scan (cancelCtx 1 (world demo_two)) (listeners (sc demo_two)) = {#}"
  proof -
    obtain l where "listeners (sc demo_two) = [l]" "ctx l = 1" using demo_two_state(2) by auto
    then show ?thesis by (simp add: live_def demo_scan_def serverScanEnv_def ctxDone_def cancelCtx_def)
  qed
  from reconnect_reannounces [OF demo_two_tracked [unfolded demo_scan_def] this [unfolded demo_scan_def], of 2]
  obtain new where new: "setFileRequestChan (srv (world (reconnectShare demo_scan ''docs'' 1 2 demo_two))) =
       setFileRequestChan (srv (world demo_two)) @ new"
    and ann: "\<forall>i < length (fileCache (sc demo_two)).
       {announced reqs (joinPath [''docs'', fst (fileCache (sc demo_two) ! i)]) |reqs. list_all2 encodes new reqs} =
       {Some (snd (fileCache (sc demo_two) ! j)) |j. i \<le> j \<and> j < length (fileCache (sc demo_two))}"
    unfolding demo_scan_def demo_two_state(3) by auto
  have "Some \<lparr>Size = 2, Hash = ''hb'', Mtime = 5\<rparr> \<in>
      {Some (snd (fileCache (sc demo_two) ! j)) |j. 0 \<le> j \<and> j < length (fileCache (sc demo_two))}"
    unfolding demo_two_state by (intro CollectI exI [of _ "1 :: nat"]) simp
  also have "\<dots> = {announced reqs (joinPath [''docs'', ''a'']) |reqs. list_all2 encodes new reqs}"
    using ann [rule_format, of 0] unfolding demo_two_state by simp
  finally show ?thesis using new by force
qed


lemma Read_open:
  assumes "map_of (hashToPath s) (rd_Hash q) = Some ks" and "\<forall>k \<in> set ks. keyOk k"
    and "k \<in> set ks" and "openFile fenv (keyFile (shares s) k) = Inr content"
    and "\<forall>k \<in> set ks. \<forall>c. openFile fenv (keyFile (shares s) k) = Inr c \<longrightarrow>
           c = content \<and> readErr fenv (keyFile (shares s) k) = None"
    and "0 \<le> rd_Offset q" and "0 \<le> rd_Size q" and "rd_Size q \<le> maxAlloc"
  shows "\<exists>k' \<in> set ks. openFile fenv (keyFile (shares s) k') = Inr content \<and>
    Read fenv s q = Return (fileRead fenv (keyFile (shares s) k') content (nat (rd_Offset q)) (rd_Size q), None)"
proof -
  obtain fn c where r: "openFirst fenv (shares s) ks ENOENT = Return (Inr (fn, c))"
    using openFirst_result(3) [OF assms(2-4)] by (metis surj_pair)
  then obtain k' where k': "k' \<in> set ks" "fn = keyFile (shares s) k'" "openFile fenv fn = Inr c"
    using openFirst_result(2) [OF assms(2)] by blast
  then have c: "c = content" "readErr fenv fn = None" using assms(5) by auto
  have "ks \<noteq> []" using assms(3) by auto
  then have "Read fenv s q = Return (fileRead fenv fn content (nat (rd_Offset q)) (rd_Size q), None)"
    using r c assms(1,6-8) by (simp add: Read_def)
  then show ?thesis using k' c by blast
qed

text \<open>One read yields a prefix of the slice, the whole of it exactly when the system delivers enough.\<close>

lemma fileRead_prefix:
  assumes "0 \<le> sz"
  shows "\<exists>rest. take (nat sz) (drop offset content) = fileRead fenv fn content offset sz @ rest"
proof -
  let ?n = "min (nat (min sz maxRW)) (osRead fenv fn offset (nat (min sz maxRW)))"
  have "take (nat sz) xs = take ?n xs @ drop ?n (take (nat sz) xs)" for xs :: string
    by (metis append_take_drop_id min.absorb1 min.cobounded1 min.coboundedI1 nat_mono take_take)
  then show ?thesis unfolding fileRead_def Let_def by blast
qed

lemma fileRead_full_iff:
  assumes "0 \<le> sz"
  shows "fileRead fenv fn content offset sz = take (nat sz) (drop offset content) \<longleftrightarrow>
    min (nat sz) (length content - offset) \<le> min (nat maxRW) (osRead fenv fn offset (nat (min sz maxRW)))"
proof -
  let ?w = "nat (min sz maxRW)" and ?xs = "drop offset content"
  have w: "?w = min (nat sz) (nat maxRW)" by (simp add: min_def)
  obtain rest where rest: "take (nat sz) ?xs = fileRead fenv fn content offset sz @ rest"
    using fileRead_prefix [OF assms] by blast
  have "fileRead fenv fn content offset sz = take (nat sz) ?xs \<longleftrightarrow>
      length (fileRead fenv fn content offset sz) = length (take (nat sz) ?xs)" using rest by auto
  also have "\<dots> \<longleftrightarrow> min (nat sz) (length content - offset) \<le> min (nat maxRW) (osRead fenv fn offset ?w)"
    unfolding fileRead_def Let_def w by (auto simp: min_def)
  finally show ?thesis .
qed

text \<open>
  C11. \<^verbatim>\<open>Read\<close> answers a request for a hash that the index knows from an indexed copy that it can open, as
  long as all copies that open have the same contents and can be read: the data is the result of one
  read of that copy, always a prefix of the requested slice (which is cut at the end of the file), and
  the whole slice exactly when what is left of the slice is at most 1 GiB and the operating system
  delivers all of it in that one read.
\<close>

theorem Read_serves_slice:
  assumes "map_of (hashToPath s) (rd_Hash q) = Some ks" and "\<forall>k \<in> set ks. keyOk k"
    and "k \<in> set ks" and "openFile fenv (keyFile (shares s) k) = Inr content"
    and "\<forall>k \<in> set ks. \<forall>c. openFile fenv (keyFile (shares s) k) = Inr c \<longrightarrow>
           c = content \<and> readErr fenv (keyFile (shares s) k) = None"
    and "0 \<le> rd_Offset q" and "0 \<le> rd_Size q" and "rd_Size q \<le> maxAlloc"
  shows "\<exists>k' \<in> set ks. \<exists>data rest. openFile fenv (keyFile (shares s) k') = Inr content
    \<and> Read fenv s q = Return (data, None)
    \<and> take (nat (rd_Size q)) (drop (nat (rd_Offset q)) content) = data @ rest
    \<and> (rest = [] \<longleftrightarrow> min (nat (rd_Size q)) (length content - nat (rd_Offset q)) \<le>
         min (2 ^ 30) (osRead fenv (keyFile (shares s) k') (nat (rd_Offset q)) (nat (min (rd_Size q) (2 ^ 30)))))"
proof -
  obtain k' where k': "k' \<in> set ks" "openFile fenv (keyFile (shares s) k') = Inr content"
    "Read fenv s q = Return (fileRead fenv (keyFile (shares s) k') content (nat (rd_Offset q)) (rd_Size q), None)"
    using Read_open [OF assms] by blast
  let ?data = "fileRead fenv (keyFile (shares s) k') content (nat (rd_Offset q)) (rd_Size q)"
  obtain rest where rest: "take (nat (rd_Size q)) (drop (nat (rd_Offset q)) content) = ?data @ rest"
    using fileRead_prefix [OF assms(7)] by blast
  have "rest = [] \<longleftrightarrow> ?data = take (nat (rd_Size q)) (drop (nat (rd_Offset q)) content)" using rest by auto
  moreover have "nat maxRW = 2 ^ 30" "maxRW = 2 ^ 30" by (simp_all add: maxRW_def)
  ultimately show ?thesis using k' rest fileRead_full_iff [OF assms(7)] by metis
qed

definition demo_server :: "unit Server" where
  "demo_server = \<lparr>srv_master = ''m'', shares = [(''docs'', ''/srv''), (''old'', ''/gone'')], srv_cert = None,
     hashToPath = [(''h'', [''old'' @ [NUL] @ ''a'', ''docs'' @ [NUL] @ ''d/b''])], setFileRequestChan = []\<rparr>"

definition demo_fenv :: file_env where
  "demo_fenv = \<lparr>openFile = (\<lambda>fn. if fn = ''/srv/d/b'' then Inr ''contents'' else Inl (OsError fn)), readErr = (\<lambda>fn. None),
     osRead = (\<lambda>fn offset want. want)\<rparr>"

lemma demo_keys:
  "map_of (hashToPath demo_server) ''h'' = Some [''old'' @ [NUL] @ ''a'', ''docs'' @ [NUL] @ ''d/b'']"
  "keyOk (''old'' @ [NUL] @ ''a'')" "keyOk (''docs'' @ [NUL] @ ''d/b'')"
  "openFile demo_fenv (keyFile (shares demo_server) (''old'' @ [NUL] @ ''a'')) = Inl (OsError ''/gone/a'')"
  "openFile demo_fenv (keyFile (shares demo_server) (''docs'' @ [NUL] @ ''d/b'')) = Inr ''contents''"
  by code_simp+

theorem Read_serves_slice_witness:
  "Read demo_fenv demo_server \<lparr>rd_Hash = ''h'', rd_Offset = 3, rd_Size = 99\<rparr> = Return (''tents'', None) \<and>
   (\<exists>data rest. Read (demo_fenv\<lparr>osRead := (\<lambda>fn offset want. 2)\<rparr>) demo_server \<lparr>rd_Hash = ''h'', rd_Offset = 3, rd_Size = 99\<rparr>
      = Return (data, None) \<and> ''tents'' = data @ rest \<and> rest \<noteq> [])"
proof
  let ?q = "\<lparr>rd_Hash = ''h'', rd_Offset = 3, rd_Size = 99\<rparr>" and ?short = "demo_fenv\<lparr>osRead := (\<lambda>fn offset want. 2)\<rparr>"
  have ks: "\<forall>k \<in> set [''old'' @ [NUL] @ ''a'', ''docs'' @ [NUL] @ ''d/b'']. keyOk k" using demo_keys by simp
  have open': "openFile ?short = openFile demo_fenv" by simp
  have same: "\<forall>k \<in> set [''old'' @ [NUL] @ ''a'', ''docs'' @ [NUL] @ ''d/b'']. \<forall>c.
      openFile demo_fenv (keyFile (shares demo_server) k) = Inr c \<longrightarrow> c = ''contents'' \<and> readErr demo_fenv (keyFile (shares demo_server) k) = None"
    using demo_keys(4,5) by (auto simp: demo_fenv_def)
  have err: "readErr ?short = readErr demo_fenv" by simp
  have h: "map_of (hashToPath demo_server) (rd_Hash ?q) = Some [''old'' @ [NUL] @ ''a'', ''docs'' @ [NUL] @ ''d/b'']"
    using demo_keys(1) by simp
  have mem: "''docs'' @ [NUL] @ ''d/b'' \<in> set [''old'' @ [NUL] @ ''a'', ''docs'' @ [NUL] @ ''d/b'']" by simp
  note ok = h ks mem demo_keys(5)
  have sz: "0 \<le> rd_Offset ?q" "0 \<le> rd_Size ?q" "rd_Size ?q \<le> maxAlloc" by (simp_all add: maxAlloc_def)
  obtain d r where "Read demo_fenv demo_server ?q = Return (d, None)" "''tents'' = d @ r" "r = []"
    using Read_serves_slice [OF ok same sz] by (auto simp: demo_fenv_def)
  then show "Read demo_fenv demo_server ?q = Return (''tents'', None)" by simp
  obtain d' r' where "Read ?short demo_server ?q = Return (d', None)" "''tents'' = d' @ r'" "r' \<noteq> []"
    using Read_serves_slice [OF ok(1-3) _ _ sz, of ?short, unfolded open' err, OF ok(4) same] by auto
  then show "\<exists>data rest. Read ?short demo_server ?q = Return (data, None) \<and> ''tents'' = data @ rest \<and> rest \<noteq> []" by blast
qed

text \<open>
  \<^verbatim>\<open>Read\<close> crashes the serving process exactly for a request whose size is negative or larger than
  an allocation can be, on a hash that the server can open a file for: the size that the remote
  peer sends is not checked.
\<close>

theorem Read_panics_iff:
  assumes "\<forall>k \<in> set (map_get [] (hashToPath s) (rd_Hash q)). keyOk k"
  shows "Read fenv s q = Panic \<longleftrightarrow>
    (\<exists>k \<in> set (map_get [] (hashToPath s) (rd_Hash q)). \<exists>c. openFile fenv (keyFile (shares s) k) = Inr c)
    \<and> 0 \<le> rd_Offset q \<and> (rd_Size q < 0 \<or> rd_Size q > maxAlloc)"
proof (cases "map_of (hashToPath s) (rd_Hash q)")
  case None
  then show ?thesis by (simp add: Read_def map_get_def)
next
  case (Some ks)
  then have ks: "map_get [] (hashToPath s) (rd_Hash q) = ks" by (simp add: map_get_def)
  note res = openFirst_result [OF assms [unfolded ks], where fenv = fenv and shs = "shares s" and err = ENOENT]
  have opened: "(\<exists>x. openFirst fenv (shares s) ks ENOENT = Return (Inr x)) \<longleftrightarrow>
      (\<exists>k \<in> set ks. \<exists>c. openFile fenv (keyFile (shares s) k) = Inr c)"
    using res(2,3) by (metis surj_pair)
  show ?thesis unfolding ks opened [symmetric] using res(1)
    by (cases "openFirst fenv (shares s) ks ENOENT")
      (auto simp: Read_def Some split: sum.split option.split if_splits)
qed

theorem Read_panics_iff_witness:
  "Read demo_fenv demo_server \<lparr>rd_Hash = ''h'', rd_Offset = 0, rd_Size = - 1\<rparr> = Panic"
proof -
  have "map_get [] (hashToPath demo_server) ''h'' = [''old'' @ [NUL] @ ''a'', ''docs'' @ [NUL] @ ''d/b'']"
    using demo_keys(1) by (rule map_get_Some)
  then show ?thesis
    using Read_panics_iff [of demo_server "\<lparr>rd_Hash = ''h'', rd_Offset = 0, rd_Size = - 1\<rparr>" demo_fenv] demo_keys by auto
qed

text \<open>
  Two requests for one path that are queued one after the other can be handled by the master in the
  opposite order, so that what the master keeps is the outdated entry.
\<close>

lemma workers_swap:
  assumes "encodes a ra" and "encodes b rb" and "setFile rb m = Return (m1, eb)" and "setFile ra m1 = Return (m2, ea)"
  shows "(worker_step setFile)\<^sup>*\<^sup>* (startSetFileThreads [a, b] m)
    \<lparr>pending = [], busy = [], finished = [(b, eb), (a, ea)], remote = m2\<rparr>"
proof -
  let ?s = "\<lambda>p bs f m. \<lparr>pending = p, busy = bs, finished = f, remote = m\<rparr>"
  have "worker_step setFile (startSetFileThreads [a, b] m) (?s [b] [a] [] m)"
    using worker_step.take [of "startSetFileThreads [a, b] m" a "[b]"] by (simp add: startSetFileThreads_def)
  moreover have "worker_step setFile (?s [b] [a] [] m) (?s [] [a, b] [] m)"
    using worker_step.take [of "?s [b] [a] [] m" b "[]"] by simp
  moreover have "worker_step setFile (?s [] [a, b] [] m) (?s [] [a] [(b, eb)] m1)"
    using worker_step.answered [of "?s [] [a, b] [] m" "[a]" b "[]"] assms(2,3) by simp
  moreover have "worker_step setFile (?s [] [a] [(b, eb)] m1) (?s [] [] [(b, eb), (a, ea)] m2)"
    using worker_step.answered [of "?s [] [a] [(b, eb)] m1" "[]" a "[]"] assms(1,4) by simp
  ultimately show ?thesis by (meson rtranclp.rtrancl_refl rtranclp.rtrancl_into_rtrancl)
qed

theorem workers_may_reorder:
  "\<exists>t. (worker_step (\<lambda>r m. Return (m(sf_Path r := sf_Info r), None)))\<^sup>*\<^sup>*
       (startSetFileThreads [\<lparr>q_Path = path, q_Info = Some (fresh older)\<rparr>, \<lparr>q_Path = path, q_Info = Some (fresh newer)\<rparr>] m) t
     \<and> pending t = [] \<and> busy t = [] \<and> remote t path = Some older"
proof -
  let ?f = "\<lambda>r m. Return (m(sf_Path r := sf_Info r), None)"
  let ?t = "\<lparr>pending = [], busy = [], finished = [(\<lparr>q_Path = path, q_Info = Some (fresh newer)\<rparr>, None),
        (\<lparr>q_Path = path, q_Info = Some (fresh older)\<rparr>, None)], remote = m(path \<mapsto> older)\<rparr>"
  have "(worker_step ?f)\<^sup>*\<^sup>*
      (startSetFileThreads [\<lparr>q_Path = path, q_Info = Some (fresh older)\<rparr>, \<lparr>q_Path = path, q_Info = Some (fresh newer)\<rparr>] m) ?t"
    by (rule workers_swap [where ra = "\<lparr>sf_Path = path, sf_Info = Some older\<rparr>"
          and rb = "\<lparr>sf_Path = path, sf_Info = Some newer\<rparr>" and ?m1.0 = "m(path \<mapsto> newer)"])
      (simp_all add: encodes_def fresh_def)
  moreover have "pending ?t = []" "busy ?t = []" "remote ?t path = Some older" by simp_all
  ultimately show ?thesis by blast
qed


text \<open>
  C31. A share flag with several items is accepted exactly when the names of the items differ, and
  then maps each name (the part before the first \<^verbatim>\<open>=\<close>, or else the last component of the path) to
  the expanded path. A flag with one item is not taken apart: the whole flag, as it is and without
  expansion, is the directory that is shared under the empty name.
\<close>

theorem parseShares_result:
  assumes "share fl \<noteq> []" and "items = splitOn (CHR '','') (share fl)"
    and "\<forall>s \<in> set items. getPath fl (shareDir s) = Return (dir s)"
  shows "\<exists>sh. parseShares fl =
      Return (if length items = 1 then Inr [([], share fl)]
              else if distinct (map shareName items) then Inr sh else Inl DuplicateShares)
    \<and> (distinct (map shareName items) \<longrightarrow> map_of sh = map_of (map (\<lambda>s. (shareName s, dir s)) items))"
proof (cases "length items > 1")
  case False
  moreover have "items \<noteq> []" using assms(2) by simp
  ultimately have one: "length items = 1" by (cases items) auto
  then obtain s where "items = [s]" by (auto simp: length_Suc_conv)
  moreover have "joinWith [CHR '',''] items = share fl" using assms(2) joinWith_splitOn by simp
  ultimately have "parseShares fl = Return (Inr [([], share fl)])"
    using assms(1,2) by (simp add: parseShares_def)
  then show ?thesis using one by auto
next
  case True
  let ?sh = "fold (\<lambda>s. AList.update (shareName s) (dir s)) items []"
  have f: "go_fold (addShare fl) items [] = Return ?sh" by (rule addShares_eq) (use assms(3) in simp)
  have "length ?sh = card (shareName ` set items)"
    using fold_update_length(2) [of "[]" shareName dir items] by simp
  also have "\<dots> = length items \<longleftrightarrow> distinct (map shareName items)"
    by (metis card_distinct distinct_card length_map list.set_map)
  finally have len: "length ?sh = length items \<longleftrightarrow> distinct (map shareName items)" .
  have p: "parseShares fl = Return (if distinct (map shareName items) then Inr ?sh else Inl DuplicateShares)"
    using True assms(1,2) f len by (simp add: parseShares_def Let_def)
  have "map_of ?sh = map_of (map (\<lambda>s. (shareName s, dir s)) items)" if "distinct (map shareName items)"
    using fold_update_map_of [OF that, of dir "[]"] by (auto simp: fun_eq_iff split: option.split)
  with p True show ?thesis by auto
qed

theorem parseShares_result_witness:
  "\<exists>sh. parseShares demo_flags = Return (Inr sh) \<and> map_of sh ''docs'' = Some ''/home/x/docs'' \<and> map_of sh ''music'' = Some ''/srv/m''"
proof -
  have items: "splitOn (CHR '','') (share demo_flags) = [''music=/srv/m'', ''/home/x/docs'']" by code_simp
  have names: "shareName ''music=/srv/m'' = ''music''" "shareName ''/home/x/docs'' = ''docs''"
    "shareDir ''music=/srv/m'' = ''/srv/m''" "shareDir ''/home/x/docs'' = ''/home/x/docs''" by code_simp+
  have "share demo_flags \<noteq> []" by (simp add: demo_flags_def)
  from parseShares_result [OF this items [symmetric], of shareDir] show ?thesis
    using names demo_getPath by fastforce
qed

text \<open>
  C35. A registration that the master refuses leaves the new private key behind, and the key file is
  only ever created, never replaced: every later attempt to register from this storage directory
  fails, whatever the master would answer.
\<close>

theorem failed_registration_blocks_retry:
  assumes "getPath fl (varStorage fl) = Return dir" and "mkdirAllErr senv dir = None"
    and "createKeyPair env fs (snd (certNames fl dir)) = (fs1, Inr sk)" and "serializePubKey env sk = Inr pub"
    and "registerRpc senv (flag_user fl) (registerToken fl) pub = Inl e"
  shows "getCertificates env senv fl fs = Return (fs1, Failed e)
    \<and> (\<forall>env' senv'. \<exists>fs2 r. getCertificates (env' :: ('k, 'p, 'c) crypto_env) (senv' :: 'cert server_env) fl fs1 \<in> {Panic, Return (fs2, Failed r)})"
proof -
  have key: "map_of fs1 (snd (certNames fl dir)) \<noteq> None"
    using assms(3) by (auto simp: createKeyPair_def pemToFile_def split: sum.splits option.splits if_splits)
  have again: "\<exists>fs2 r. createKeyPair env' fs1 (snd (certNames fl dir)) = (fs2, Inl r)" for env' :: "('k, 'p, 'c) crypto_env"
    using key by (auto simp: createKeyPair_def pemToFile_def split: sum.split)
  have "\<exists>fs2 r. getCertificates env' senv' fl fs1 \<in> {Panic, Return (fs2, Failed r)}"
    for env' :: "('k, 'p, 'c) crypto_env" and senv' :: "'cert server_env"
  proof -
    obtain fs2 r where "createKeyPair env' fs1 (snd (certNames fl dir)) = (fs2, Inl r)" using again by blast
    then have "getCertificates env' senv' fl fs1 =
        (if mkdirAllErr senv' dir \<noteq> None then Panic else Return (fs2, Failed r))"
      using assms(1) by (simp add: getCertificates_def split_def)
    then show ?thesis by auto
  qed
  moreover have "getCertificates env senv fl fs = Return (fs1, Failed e)"
    using assms by (simp add: getCertificates_def split_def)
  ultimately show ?thesis by blast
qed

definition demo_senv :: "unit server_env" where
  "demo_senv = \<lparr>loadX509KeyPair = (\<lambda>c k. Inr ()), mkdirAllErr = (\<lambda>d. None), writeFileErr = (\<lambda>f. None),
     listenErr = (\<lambda>a. None), dialErr = None, registerRpc = (\<lambda>u t p. if t = ''good'' then Inr ''CERT'' else Inl TokenInvalid),
     signinRpc = (\<lambda>a u. None)\<rparr>"

theorem failed_registration_blocks_retry_witness:
  "\<exists>fs1. getCertificates demo_env demo_senv demo_flags [] = Return (fs1, Failed TokenInvalid)
     \<and> (\<exists>fs2 r. getCertificates demo_env demo_senv demo_flags fs1 \<in> {Panic, Return (fs2, Failed r)})"
proof -
  have "\<not> isl (snd (createKeyPair demo_env [] (snd (certNames demo_flags ''/home/x/.rufs''))))" by code_simp
  then obtain fs1 sk where k: "createKeyPair demo_env [] (snd (certNames demo_flags ''/home/x/.rufs'')) = (fs1, Inr sk)"
    by (metis isl_def prod.collapse sum.exhaust)
  have pub: "serializePubKey demo_env sk = Inr sk" by (simp add: serializePubKey_def demo_env_def)
  have "registerRpc demo_senv (flag_user demo_flags) (registerToken demo_flags) sk = Inl TokenInvalid"
    "mkdirAllErr demo_senv ''/home/x/.rufs'' = None" by (simp_all add: demo_senv_def demo_flags_def)
  from failed_registration_blocks_retry [OF demo_getPath(3) this(2) k pub this(1)] show ?thesis by blast
qed

end
