(* ===== verification/Block_Fetcher.thy ===== *)
theory Block_Fetcher
  imports Rufs_Types Program_Flags "HOL-Library.Signed_Division"
begin

text \<open>
  Reading the contents of a file from its owners, \<^verbatim>\<open>fetch.go\<close>: the fetcher with its peers, a handle
  with its cache of blocks, and streams.

  A handle is shared by concurrent readers. \<^verbatim>\<open>pfHandle.Read\<close> holds the handle's lock twice, first to
  start the fetches it needs (\<open>readPlan\<close>), then, after it has waited for them, to collect the blocks
  (\<open>readGrab\<close>); the goroutine of \<^verbatim>\<open>fetch\<close> holds it once, to store the block and to close its
  channel (\<open>fetchDone\<close>). These three are the atomic steps of the model. A channel is a number;
  \<open>closed\<close> lists the channels that are closed, \<open>inflight\<close> the offsets whose goroutines still run.

  Integers of type \<^verbatim>\<open>int64\<close> and \<^verbatim>\<open>int\<close> (64 bits) are HOL integers, with the wrap-around of an
  operation written as \<open>i64\<close>; division truncates towards zero (\<open>sdiv\<close>, \<open>smod\<close>). The answer of a
  remote peer is the argument \<open>peerRead\<close>. A nil slice is \<open>None\<close>: the RPC library delivers an
  empty slice as nil.
\<close>

section \<open>State\<close>

definition i64 :: "int \<Rightarrow> int" where
  "i64 x = (x + 2 ^ 63) mod 2 ^ 64 - 2 ^ 63"

type_synonym peer_read = "string \<Rightarrow> string \<Rightarrow> int \<Rightarrow> int \<Rightarrow> go_error + string"

record Fetcher =
  fpeers :: "(string, string \<times> string) gomap"
  blockSize :: int
  f_localCacheDir :: string
  f_localCacheSize :: nat

record pfHandle =
  hash :: string
  hsize :: int
  peers :: "string list"
  hbs :: int
  cache :: "string option list"
  active :: "nat option list"
  lastErr :: "go_error option"
  closed :: "nat list"
  nextChan :: nat
  inflight :: "int list"

section \<open>Fetchers and handles\<close>

text \<open>
  \<^verbatim>\<open>GetFetcher\<close> for one server: \<open>known\<close> is the entry of the table of fetchers, \<open>parseBytes\<close> is
  \<^verbatim>\<open>humanize.ParseBytes\<close>.
\<close>

definition GetFetcher ::
  "flags \<Rightarrow> (string \<Rightarrow> go_error + nat) \<Rightarrow> string \<Rightarrow> string \<Rightarrow> nat \<Rightarrow> Fetcher option \<Rightarrow> (go_error + Fetcher) go"
where
  "GetFetcher fl parseBytes cacheDirFlag cacheSizeFlag pow known =
     (case known of
        Some f \<Rightarrow> Return (Inr f)
      | None \<Rightarrow>
          (case parseBytes cacheSizeFlag of
             Inl e \<Rightarrow> Return (Inl e)
           | Inr lcs \<Rightarrow>
               go_bind (getPath fl cacheDirFlag) (\<lambda>dir.
                 Return (Inr \<lparr>fpeers = [], blockSize = i64 (2 ^ pow), f_localCacheDir = dir, f_localCacheSize = lcs\<rparr>))))"

text \<open>
  \<^verbatim>\<open>NewPeer\<close>: a connection to the address of the ident, checked against its user name. The latency
  that is measured afterwards is kept in a field that nothing reads, and its error is dropped.
\<close>

definition MeasureLatency :: "go_error option \<Rightarrow> go_error option \<Rightarrow> int \<Rightarrow> int option \<times> go_error option" where
  "MeasureLatency ping1 ping2 elapsed =
     (case ping1 of
        Some e \<Rightarrow> (None, Some e)
      | None \<Rightarrow> (case ping2 of Some e \<Rightarrow> (None, Some e) | None \<Rightarrow> (Some elapsed, None)))"

definition NewPeer :: "(string \<Rightarrow> string \<Rightarrow> go_error option) \<Rightarrow> string \<Rightarrow> (go_error + string \<times> string) go" where
  "NewPeer dial ident =
     (let ex = splitOn (CHR ''@'') ident in
      if length ex < 2 then Panic
      else case dial (ex ! 0) (ex ! 1) of
        Some e \<Rightarrow> Return (Inl e)
      | None \<Rightarrow> Return (Inr (ex ! 0, ex ! 1)))"

definition addPeer ::
  "(string \<Rightarrow> string \<Rightarrow> go_error option) \<Rightarrow> string \<Rightarrow> Fetcher \<times> bool \<Rightarrow> (Fetcher \<times> bool) go"
where
  "addPeer dial p = (\<lambda>(f, found).
     case map_of (fpeers f) p of
       Some r \<Rightarrow> Return (f, True)
     | None \<Rightarrow>
         go_bind (NewPeer dial p) (\<lambda>res.
         case res of
           Inl e \<Rightarrow> Return (f, found)
         | Inr r \<Rightarrow> Return (f\<lparr>fpeers := AList.update p r (fpeers f)\<rparr>, True)))"

definition NewHandle ::
  "(string \<Rightarrow> string \<Rightarrow> go_error option) \<Rightarrow> Fetcher \<Rightarrow> string \<Rightarrow> int \<Rightarrow> string list
     \<Rightarrow> (Fetcher \<times> (go_error + pfHandle)) go"
where
  "NewHandle dial f h sz ps =
     (if blockSize f = 0 then Panic
      else
        let blocks = i64 (i64 (sz sdiv blockSize f) + 1) in
        if blocks < 0 \<or> 24 * blocks > maxAlloc then Panic
        else
          go_bind (go_fold (addPeer dial) ps (f, False)) (\<lambda>(f', found).
          Return (f',
            if \<not> found then Inl DidntFindPeer
            else Inr \<lparr>hash = h, hsize = sz, peers = ps, hbs = blockSize f,
                      cache = replicate (nat blocks) None, active = replicate (nat blocks) None,
                      lastErr = None, closed = [], nextChan = 0, inflight = []\<rparr>)))"

text \<open>A slice header has 24 bytes, a channel 8: the allocation of the cache fails first.\<close>

section \<open>Fetching a block\<close>

text \<open>An index outside of a slice panics.\<close>

definition index :: "int \<Rightarrow> 'a list \<Rightarrow> 'a go" where
  "index b xs = (if 0 \<le> b \<and> b < int (length xs) then Return (xs ! nat b) else Panic)"

definition fetch :: "int \<Rightarrow> pfHandle \<Rightarrow> pfHandle go" where
  "fetch offset h =
     (let b = offset sdiv hbs h in
      go_bind (index b (active h)) (\<lambda>_.
        Return (h\<lparr>active := (active h)[nat b := Some (nextChan h)], nextChan := Suc (nextChan h),
                  inflight := inflight h @ [offset]\<rparr>)))"

fun tryPeers ::
  "peer_read \<Rightarrow> string list \<Rightarrow> pfHandle \<Rightarrow> int \<Rightarrow> string list \<Rightarrow> go_error \<Rightarrow> go_error + string"
where
  "tryPeers peerRead known h offset [] retErr = Inl retErr"
| "tryPeers peerRead known h offset (p # ps) retErr =
     (if p \<notin> set known then tryPeers peerRead known h offset ps retErr
      else case peerRead p (hash h) offset (hbs h) of
        Inl e \<Rightarrow> tryPeers peerRead known h offset ps e
      | Inr d \<Rightarrow> Inr d)"

definition realFetch :: "peer_read \<Rightarrow> string list \<Rightarrow> pfHandle \<Rightarrow> int \<Rightarrow> go_error + string" where
  "realFetch peerRead known h offset = tryPeers peerRead known h offset (peers h) CouldntFindPeer"

text \<open>The critical section at the end of the goroutine. Closing a nil or a closed channel panics.\<close>

definition fetchDone :: "int \<Rightarrow> go_error + string \<Rightarrow> pfHandle \<Rightarrow> pfHandle go" where
  "fetchDone offset res h =
     (let b = nat (offset sdiv hbs h);
          h1 = (case res of
                  Inl e \<Rightarrow> h\<lparr>lastErr := Some e\<rparr>
                | Inr buf \<Rightarrow> h\<lparr>cache := (cache h)[b := if buf = [] then None else Some buf]\<rparr>)
      in case active h1 ! b of
           None \<Rightarrow> Panic
         | Some c \<Rightarrow>
             if c \<in> set (closed h1) then Panic
             else Return (h1\<lparr>closed := c # closed h1, inflight := remove1 offset (inflight h1)\<rparr>))"

section \<open>Reading\<close>

definition readBlocks :: "pfHandle \<Rightarrow> int \<Rightarrow> int \<Rightarrow> int list" where
  "readBlocks h offset sz =
     map (\<lambda>b. i64 (b * hbs h))
       [offset sdiv hbs h .. i64 (i64 (offset + i64 (sz + hbs h)) - 1) sdiv hbs h - 1]"

text \<open>The loop that starts the missing blocks and collects the channels to wait for.\<close>

definition wantBlock :: "int \<Rightarrow> pfHandle \<times> nat list \<Rightarrow> (pfHandle \<times> nat list) go" where
  "wantBlock offset = (\<lambda>(h, unfetched).
     let b = offset sdiv hbs h in
     go_bind (index b (cache h)) (\<lambda>c.
     if c \<noteq> None then Return (h, unfetched)
     else
       go_bind (if active h ! nat b = None then fetch offset h else Return h) (\<lambda>h'.
         Return (h', unfetched @ [the (active h' ! nat b)]))))"

definition purge :: "int list \<Rightarrow> pfHandle \<Rightarrow> pfHandle go" where
  "purge blocks h =
     (case blocks of
        [] \<Rightarrow> Panic
      | o0 # _ \<Rightarrow>
          let b = o0 sdiv hbs h - 1 in
          if b > 0 then
            go_bind (index b (cache h)) (\<lambda>c.
              Return (if c \<noteq> None then h\<lparr>cache := (cache h)[nat b := None], active := (active h)[nat b := None]\<rparr> else h))
          else Return h)"

definition prefetchOne :: "int list \<Rightarrow> nat \<Rightarrow> pfHandle \<Rightarrow> pfHandle go" where
  "prefetchOne blocks i h =
     (let b = last blocks sdiv hbs h + 1 + int i in
      if i64 (b * hbs h) < hsize h then
        go_bind (index b (cache h)) (\<lambda>c.
          if c = None \<and> active h ! nat b = None then fetch (i64 (b * hbs h)) h else Return h)
      else Return h)"

definition readPlan :: "nat \<Rightarrow> int \<Rightarrow> int \<Rightarrow> pfHandle \<Rightarrow> (pfHandle \<times> nat list) go" where
  "readPlan prefetch offset sz h =
     (let blocks = readBlocks h offset sz in
      go_bind (go_fold wantBlock blocks (h, [])) (\<lambda>(h1, unfetched).
      go_bind (purge blocks h1) (\<lambda>h2.
      go_bind (go_fold (prefetchOne blocks) [0..<prefetch] h2) (\<lambda>h3.
        Return (h3, unfetched)))))"

definition assemble :: "int \<Rightarrow> int \<Rightarrow> int \<Rightarrow> int \<Rightarrow> string list \<Rightarrow> string go" where
  "assemble bs64 offset sz b0 bufs =
     (let bo = offset - b0;
          ct = (bo + sz) smod bs64;
          l = length bufs - 1;
          bufs1 = (if ct > 0 \<and> int (length (bufs ! l)) > ct then bufs[l := take (nat ct) (bufs ! l)] else bufs)
      in if bo > 0 then
           (if bo > int (length (bufs1 ! 0)) then Panic
            else Return (concat (bufs1[0 := drop (nat bo) (bufs1 ! 0)])))
         else Return (concat bufs1))"

definition readGrab :: "int \<Rightarrow> int \<Rightarrow> pfHandle \<Rightarrow> (string \<times> go_error option) go" where
  "readGrab offset sz h =
     (let blocks = readBlocks h offset sz;
          got = map (\<lambda>x. cache h ! nat (x sdiv hbs h)) blocks
      in if None \<in> set got then Return ([], lastErr h)
         else go_bind (assemble (hbs h) offset sz (blocks ! 0) (map the got)) (\<lambda>d. Return (d, None)))"


text \<open>
  \<^verbatim>\<open>pfHandle.Read\<close> as one reader sees it that nobody disturbs: every goroutine that is running
  finishes before the blocks are collected.
\<close>

definition finishAll :: "peer_read \<Rightarrow> string list \<Rightarrow> pfHandle \<Rightarrow> pfHandle go" where
  "finishAll peerRead known h = go_fold (\<lambda>x h. fetchDone x (realFetch peerRead known h x) h) (inflight h) h"

definition pfRead ::
  "peer_read \<Rightarrow> string list \<Rightarrow> nat \<Rightarrow> int \<Rightarrow> int \<Rightarrow> pfHandle \<Rightarrow> (pfHandle \<times> string \<times> go_error option) go"
where
  "pfRead peerRead known prefetch offset sz h =
     (if offset \<ge> hsize h then Return (h, [], None)
      else
        go_bind (readPlan prefetch offset sz h) (\<lambda>(h1, unfetched).
        go_bind (finishAll peerRead known h1) (\<lambda>h2.
        go_bind (readGrab offset sz h2) (\<lambda>r. Return (h2, r)))))"

text \<open>
  A stream: \<open>n\<close> is the length of the buffer. The result is the data, whether \<^verbatim>\<open>io.EOF\<close> is returned,
  and the new offset; a buffer that is shorter than the data would be overrun.
\<close>

definition streamRead ::
  "peer_read \<Rightarrow> string list \<Rightarrow> nat \<Rightarrow> nat \<Rightarrow> int \<Rightarrow> pfHandle
     \<Rightarrow> (pfHandle \<times> int \<times> (go_error + string \<times> bool)) go"
where
  "streamRead peerRead known prefetch n offset h =
     go_bind (pfRead peerRead known prefetch offset (int n) h) (\<lambda>(h', data, err).
     case err of
       Some e \<Rightarrow> Return (h', offset, Inl e)
     | None \<Rightarrow> Return (h', i64 (offset + int (length data)), Inr (take n data, length data < n)))"

text \<open>\<^verbatim>\<open>io.Copy\<close> from a stream, with a bound on the number of reads.\<close>

fun streamCopy ::
  "nat \<Rightarrow> peer_read \<Rightarrow> string list \<Rightarrow> nat \<Rightarrow> nat \<Rightarrow> int \<Rightarrow> pfHandle \<Rightarrow> (go_error + string) go option"
where
  "streamCopy 0 peerRead known prefetch n offset h = None"
| "streamCopy (Suc fuel) peerRead known prefetch n offset h =
     (case streamRead peerRead known prefetch n offset h of
        Panic \<Rightarrow> Some Panic
      | Return (h', offset', Inl e) \<Rightarrow> Some (Return (Inl e))
      | Return (h', offset', Inr (data, eof)) \<Rightarrow>
          if eof then Some (Return (Inr data))
          else map_option (\<lambda>r. go_bind r (\<lambda>x. Return (case x of Inl e \<Rightarrow> Inl e | Inr rest \<Rightarrow> Inr (data @ rest))))
                 (streamCopy fuel peerRead known prefetch n offset' h'))"

section \<open>Concurrent readers\<close>

record fetch_sys =
  hnd :: pfHandle
  waiting :: "nat \<rightharpoonup> int \<times> int \<times> nat list"

text \<open>
  The steps of readers and fetching goroutines that share a handle. A reader may stop waiting
  because its channels are closed or because its context is cancelled (\<open>interrupt\<close>); what it
  returns in the first case is \<open>readGrab\<close> of the state it leaves. \<open>lim\<close> bounds the size of a request.
\<close>

inductive fetch_step :: "peer_read \<Rightarrow> string list \<Rightarrow> nat \<Rightarrow> int \<Rightarrow> fetch_sys \<Rightarrow> fetch_sys \<Rightarrow> bool"
  for peerRead :: peer_read and known :: "string list" and prefetch :: nat and lim :: int where
  begin_read: "waiting s r = None \<Longrightarrow> 0 \<le> offset \<Longrightarrow> offset < hsize (hnd s) \<Longrightarrow> 0 \<le> sz \<Longrightarrow> sz \<le> lim \<Longrightarrow>
     readPlan prefetch offset sz (hnd s) = Return (h', unfetched) \<Longrightarrow>
     fetch_step peerRead known prefetch lim s (s\<lparr>hnd := h', waiting := (waiting s)(r \<mapsto> (offset, sz, unfetched))\<rparr>)"
| finish_fetch: "x \<in> set (inflight (hnd s)) \<Longrightarrow>
     fetchDone x (realFetch peerRead known (hnd s) x) (hnd s) = Return h' \<Longrightarrow>
     fetch_step peerRead known prefetch lim s (s\<lparr>hnd := h'\<rparr>)"
| end_read: "waiting s r = Some (offset, sz, unfetched) \<Longrightarrow> set unfetched \<subseteq> set (closed (hnd s)) \<Longrightarrow>
     fetch_step peerRead known prefetch lim s (s\<lparr>waiting := (waiting s)(r := None)\<rparr>)"
| interrupt: "waiting s r = Some (offset, sz, unfetched) \<Longrightarrow>
     fetch_step peerRead known prefetch lim s (s\<lparr>waiting := (waiting s)(r := None)\<rparr>)"

inductive fetch_reach :: "peer_read \<Rightarrow> string list \<Rightarrow> nat \<Rightarrow> int \<Rightarrow> pfHandle \<Rightarrow> fetch_sys \<Rightarrow> bool"
  for peerRead :: peer_read and known :: "string list" and prefetch :: nat and lim :: int and h0 :: pfHandle where
  start: "fetch_reach peerRead known prefetch lim h0 \<lparr>hnd = h0, waiting = Map.empty\<rparr>"
| step: "fetch_reach peerRead known prefetch lim h0 s \<Longrightarrow> fetch_step peerRead known prefetch lim s t \<Longrightarrow>
     fetch_reach peerRead known prefetch lim h0 t"


section \<open>Arithmetic of blocks\<close>

lemma i64_id: "- (2 ^ 63) \<le> x \<Longrightarrow> x < 2 ^ 63 \<Longrightarrow> i64 x = x"
  by (simp add: i64_def)

lemma sdiv_pos: "0 \<le> x \<Longrightarrow> 0 < y \<Longrightarrow> x sdiv y = (x :: int) div y"
  by (cases "x = 0") (simp_all add: signed_divide_int_def sgn_if)

lemma smod_pos: "0 \<le> x \<Longrightarrow> 0 < y \<Longrightarrow> x smod y = (x :: int) mod y"
  by (cases "x = 0") (simp_all add: signed_modulo_int_def sgn_if)

lemma sdiv_mult: "0 < y \<Longrightarrow> (int k * y) sdiv y = int k"
  by (simp add: sdiv_pos)

text \<open>The \<open>k\<close>-th block of the contents.\<close>

definition block :: "nat \<Rightarrow> string \<Rightarrow> nat \<Rightarrow> string" where
  "block n c k = take n (drop (k * n) c)"

lemma block_nonempty: "0 < n \<Longrightarrow> block n c k \<noteq> [] \<longleftrightarrow> k * n < length c"
  by (auto simp: block_def)

lemma concat_blocks: "concat (map (block n c) [a..<a + m]) = take (m * n) (drop (a * n) c)"
proof (induction m)
  case (Suc m)
  have "concat (map (block n c) [a..<a + Suc m]) = take (m * n) (drop (a * n) c) @ take n (drop (m * n) (drop (a * n) c))"
    by (simp add: Suc.IH) (simp add: block_def algebra_simps)
  also have "\<dots> = take (m * n + n) (drop (a * n) c)" by (rule take_add [symmetric])
  finally show ?case by (simp add: algebra_simps)
qed simp

lemma concat_blocks_cut:
  assumes "ct \<le> n"
  shows "concat (map (block n c) [a..<a + m]) @ take ct (block n c (a + m)) = take (m * n + ct) (drop (a * n) c)"
proof -
  have "take ct (block n c (a + m)) = take ct (drop (m * n) (drop (a * n) c))"
    using assms by (simp add: block_def algebra_simps min_def)
  then show ?thesis by (simp add: concat_blocks take_add)
qed

lemma upto_nat: "0 \<le> i \<Longrightarrow> [i..j - 1] = map int [nat i..<nat j]"
  by (rule nth_equalityI) auto

lemma readBlocks_eq:
  assumes "0 < hbs h" and "0 \<le> offset" and "0 \<le> sz" and "offset + sz + hbs h < 2 ^ 63"
  shows "readBlocks h offset sz =
    map (\<lambda>k. int k * hbs h) [nat (offset div hbs h)..<nat ((offset + sz + hbs h - 1) div hbs h)]"
proof -
  let ?b = "hbs h" and ?e = "(offset + sz + hbs h - 1) div hbs h"
  have e: "i64 (i64 (offset + i64 (sz + ?b)) - 1) sdiv ?b = ?e"
    using assms by (simp add: i64_id sdiv_pos algebra_simps)
  have "0 \<le> offset div ?b" "0 \<le> ?e" using assms by (simp_all add: pos_imp_zdiv_nonneg_iff)
  moreover have "i64 (int k * ?b) = int k * ?b" if "k < nat ?e" for k
  proof -
    have "int k + 1 \<le> ?e" using that by linarith
    then have "(int k + 1) * ?b \<le> ?e * ?b" using assms(1) by (intro mult_right_mono) simp_all
    also have "\<dots> \<le> offset + sz + ?b - 1" 
      using div_mult_mod_eq [of "offset + sz + ?b - 1" ?b] pos_mod_sign [OF assms(1), of "offset + sz + ?b - 1"] by linarith
    finally have "int k * ?b < 2 ^ 63" using assms by (simp add: algebra_simps)
    then show ?thesis using assms(1) by (intro i64_id) (auto intro: order_trans [of _ 0])
  qed
  ultimately show ?thesis
    using e assms by (simp add: readBlocks_def upto_nat sdiv_pos)
qed


text \<open>Cutting the last block and the first one leaves the requested slice.\<close>

lemma cut_last:
  assumes "r \<le> n" and "0 < r" and "length b \<le> n"
  shows "(if int r smod int n > 0 \<and> int (length b) > int r smod int n then take (nat (int r smod int n)) b else b) = take r b"
proof -
  have "int r smod int n = int (r mod n)" using assms by (simp add: smod_pos zmod_int)
  moreover have "r mod n = (if r = n then 0 else r)" using assms by simp
  ultimately show ?thesis using assms by auto
qed

lemma drop_first: "xs \<noteq> [] \<Longrightarrow> k \<le> length (xs ! 0) \<Longrightarrow> concat (xs[0 := drop k (xs ! 0)]) = drop k (concat xs)"
  by (cases xs) auto

lemma last_block:
  assumes "0 < n" and "0 < (sz :: nat)" and "a = offset div n"
  obtains j r where "(offset + sz + n - 1) div n = Suc j" and "a \<le> j" and "j = (offset + sz - 1) div n"
    and "offset mod n + sz = (j - a) * n + r" and "0 < r" and "r \<le> n"
proof -
  define t where "t = offset mod n + sz - 1"
  define j where "j = (offset + sz - 1) div n"
  have eq: "offset + sz - 1 = t + a * n" using assms by (simp add: t_def)
  then have j: "j = t div n + a" using assms(1) by (simp add: j_def)
  have "offset + sz + n - 1 = (offset + sz - 1) + n" using assms by simp
  then have e1: "(offset + sz + n - 1) div n = Suc j"
    unfolding j_def using assms(1) by (simp only: div_add_self2)
  have e2: "offset mod n + sz = (j - a) * n + (t mod n + 1)"
  proof -
    have "t + 1 = offset mod n + sz" using assms(2) by (simp add: t_def)
    then show ?thesis using div_mult_mod_eq [of t n] j by simp
  qed
  show ?thesis
  proof (rule that [OF e1 _ _ e2])
    show "a \<le> j" using j by simp
    show "j = (offset + sz - 1) div n" by (rule j_def)
    show "t mod n + 1 \<le> n" using assms(1) by (simp add: Suc_leI)
  qed simp
qed

lemma assemble_slice:
  assumes n: "0 < n" and sz: "0 < sz" and off: "offset < length c" and a: "a = offset div n"
    and m: "m = (offset + sz + n - 1) div n"
  shows "assemble (int n) (int offset) (int sz) (int a * int n) (map (block n c) [a..<m]) = Return (take sz (drop offset c))"
proof -
  obtain j r where j: "m = Suc j" "a \<le> j" and r: "offset mod n + sz = (j - a) * n + r" "0 < r" "r \<le> n"
    using last_block [OF n sz a] m by metis
  let ?bufs = "map (block n c) [a..<m]" and ?bo = "offset mod n"
  let ?cut = "map (block n c) [a..<j] @ [take r (block n c j)]"
  have bufs: "?bufs = map (block n c) [a..<j] @ [block n c j]" using j by simp
  have bo: "int offset - int a * int n = int ?bo" using a by (simp add: of_nat_mod minus_mult_div_eq_mod mult.commute zdiv_int)
  have smod: "(int ?bo + int sz) smod int n = int r smod int n"
  proof -
    have "int ?bo + int sz = int (j - a) * int n + int r" using arg_cong [OF r(1), of int] by simp
    then show ?thesis using n by (simp add: smod_pos)
  qed
  have bufs1: "(if int r smod int n > 0 \<and> int (length (?bufs ! (length ?bufs - 1))) > int r smod int n
      then ?bufs[length ?bufs - 1 := take (nat (int r smod int n)) (?bufs ! (length ?bufs - 1))] else ?bufs) = ?cut"
  proof -
    have "?bufs ! (length ?bufs - 1) = block n c j" using bufs by (simp add: nth_append)
    moreover have "length (block n c j) \<le> n" by (simp add: block_def)
    ultimately show ?thesis using cut_last [OF r(3,2), of "block n c j"] bufs
      by (auto simp: list_update_append split: if_splits)
  qed
  have "concat ?cut = concat (map (block n c) [a..<a + (j - a)]) @ take r (block n c (a + (j - a)))" using j by simp
  also have "\<dots> = take (?bo + sz) (drop (a * n) c)" unfolding concat_blocks_cut [OF r(3)] r(1) ..
  finally have con: "concat ?cut = take (?bo + sz) (drop (a * n) c)" .
  have off': "offset = a * n + ?bo" using a by simp
  have first: "?bo \<le> length (?cut ! 0)"
  proof (cases "a = j")
    case True
    then show ?thesis using r n off off' by (simp add: block_def)
  next
    case False
    then have "?cut ! 0 = block n c a" using j by (simp add: nth_append upt_conv_Cons)
    then show ?thesis using n off off' by (simp add: block_def)
  qed
  have res: "drop ?bo (concat ?cut) = take sz (drop offset c)"
    using off' unfolding con by (simp add: drop_take add.commute)
  have dropped: "concat (?cut[0 := drop ?bo (?cut ! 0)]) = take sz (drop offset c)"
    using drop_first [OF _ first] res by simp
  show ?thesis
    unfolding assemble_def Let_def bo smod bufs1
    using first dropped res by auto
qed


section \<open>The invariant of a handle\<close>

text \<open>
  For a handle on contents \<open>c\<close> with blocks of \<open>n\<close> bytes: a cached block is the right one and its
  channel is closed; a goroutine runs exactly for the blocks whose channel is open, and such a
  block is not cached; every channel that was ever made is closed or belongs to a block.
\<close>

definition handle_inv :: "string \<Rightarrow> nat \<Rightarrow> pfHandle \<Rightarrow> bool" where
  "handle_inv c n h \<longleftrightarrow>
     0 < n \<and> hbs h = int n \<and> hsize h = int (length c) \<and> int (length c) + int n < 2 ^ 63
     \<and> length (cache h) = length c div n + 1 \<and> length (active h) = length c div n + 1
     \<and> (\<forall>k \<le> length c div n. \<forall>d. cache h ! k = Some d \<longrightarrow>
          d = block n c k \<and> d \<noteq> [] \<and> (\<exists>ch \<in> set (closed h). active h ! k = Some ch))
     \<and> distinct (inflight h)
     \<and> (\<forall>x \<in> set (inflight h). \<exists>k \<le> length c div n. x = int k * int n \<and> cache h ! k = None \<and>
          (\<exists>ch. active h ! k = Some ch \<and> ch \<notin> set (closed h)))
     \<and> (\<forall>k \<le> length c div n. \<forall>ch. active h ! k = Some ch \<longrightarrow>
          ch < nextChan h \<and> (ch \<in> set (closed h) \<or> int k * int n \<in> set (inflight h)))
     \<and> (\<forall>k \<le> length c div n. \<forall>k' \<le> length c div n. \<forall>ch.
          active h ! k = Some ch \<and> active h ! k' = Some ch \<longrightarrow> k = k')
     \<and> (\<forall>ch < nextChan h. ch \<in> set (closed h) \<or> (\<exists>k \<le> length c div n. active h ! k = Some ch))
     \<and> (\<forall>ch \<in> set (closed h). ch < nextChan h)"

lemma handle_invD:
  assumes "handle_inv c n h"
  shows "0 < n" "hbs h = int n" "hsize h = int (length c)" "int (length c) + int n < 2 ^ 63"
    "length (cache h) = length c div n + 1" "length (active h) = length c div n + 1"
    "\<And>k d. k \<le> length c div n \<Longrightarrow> cache h ! k = Some d \<Longrightarrow> d = block n c k"
    "\<And>k d. k \<le> length c div n \<Longrightarrow> cache h ! k = Some d \<Longrightarrow> \<exists>ch \<in> set (closed h). active h ! k = Some ch"
    "distinct (inflight h)"
    "\<And>x. x \<in> set (inflight h) \<Longrightarrow> \<exists>k \<le> length c div n. x = int k * int n \<and> cache h ! k = None \<and>
       (\<exists>ch. active h ! k = Some ch \<and> ch \<notin> set (closed h))"
    "\<And>k ch. k \<le> length c div n \<Longrightarrow> active h ! k = Some ch \<Longrightarrow> ch < nextChan h"
    "\<And>k ch. k \<le> length c div n \<Longrightarrow> active h ! k = Some ch \<Longrightarrow> ch \<in> set (closed h) \<or> int k * int n \<in> set (inflight h)"
    "\<And>k k' ch. k \<le> length c div n \<Longrightarrow> k' \<le> length c div n \<Longrightarrow> active h ! k = Some ch \<Longrightarrow> active h ! k' = Some ch \<Longrightarrow> k = k'"
    "\<And>ch. ch < nextChan h \<Longrightarrow> ch \<in> set (closed h) \<or> (\<exists>k \<le> length c div n. active h ! k = Some ch)"
    "\<And>ch. ch \<in> set (closed h) \<Longrightarrow> ch < nextChan h"
    "\<And>k d. k \<le> length c div n \<Longrightarrow> cache h ! k = Some d \<Longrightarrow> d \<noteq> []"
  using assms unfolding handle_inv_def by blast+

text \<open>A block is started when it is cached or has a channel; no fetch has failed when every started block that is not cached is under way or empty.\<close>

definition started :: "pfHandle \<Rightarrow> nat \<Rightarrow> bool" where
  "started h k \<longleftrightarrow> cache h ! k \<noteq> None \<or> active h ! k \<noteq> None"

definition failfree :: "string \<Rightarrow> nat \<Rightarrow> pfHandle \<Rightarrow> bool" where
  "failfree c n h \<longleftrightarrow> (\<forall>k \<le> length c div n. started h k \<longrightarrow>
     cache h ! k \<noteq> None \<or> int k * int n \<in> set (inflight h) \<or> block n c k = [])"

definition evolves :: "string \<Rightarrow> nat \<Rightarrow> nat set \<Rightarrow> pfHandle \<Rightarrow> pfHandle \<Rightarrow> bool" where
  "evolves c n K h h' \<longleftrightarrow> handle_inv c n h' \<and> peers h' = peers h \<and> hash h' = hash h \<and> lastErr h' = lastErr h
     \<and> nextChan h \<le> nextChan h' \<and> (failfree c n h \<longrightarrow> failfree c n h') \<and> (\<forall>k \<in> K. started h k \<longrightarrow> started h' k)"

lemma evolves_refl: "handle_inv c n h \<Longrightarrow> evolves c n K h h"
  by (simp add: evolves_def)

lemma evolves_trans: "evolves c n K h h' \<Longrightarrow> evolves c n K h' h'' \<Longrightarrow> evolves c n K h h''"
  by (auto simp: evolves_def)

lemma evolves_mono: "evolves c n K h h' \<Longrightarrow> L \<subseteq> K \<Longrightarrow> evolves c n L h h'"
  by (auto simp: evolves_def)

lemma mult_int_inj: "0 < n \<Longrightarrow> int k * int n = int k' * int n \<longleftrightarrow> k = k'"
  by simp

text \<open>Starting the goroutine of a block that has no channel.\<close>

lemma fetch_inv:
  assumes inv: "handle_inv c n h" and k: "k \<le> length c div n" and none: "active h ! k = None"
    and h': "h' = h\<lparr>active := (active h)[k := Some (nextChan h)], nextChan := Suc (nextChan h), inflight := inflight h @ [int k * int n]\<rparr>"
  shows "handle_inv c n h'"
  unfolding handle_inv_def
proof (intro conjI allI impI ballI)
  note I = handle_invD [OF inv]
  have [simp]: "cache h' = cache h" "closed h' = closed h" "nextChan h' = Suc (nextChan h)"
    "inflight h' = inflight h @ [int k * int n]" by (simp_all add: h')
  have act: "active h' ! k' = (if k' = k then Some (nextChan h) else active h ! k')" for k'
    using k I(6) h' by (simp add: nth_list_update)
  have notc: "nextChan h \<notin> set (closed h)" using I(15) by blast
  have cnone: "cache h ! k = None" using I(8) [OF k] none by (cases "cache h ! k") auto
  show "\<exists>ch \<in> set (closed h'). active h' ! k' = Some ch" if "k' \<le> length c div n" "cache h' ! k' = Some d" for k' d
    using I(8) [OF that(1), of d] that(2) act [of k'] cnone by auto
  show "\<exists>k' \<le> length c div n. x = int k' * int n \<and> cache h' ! k' = None \<and>
      (\<exists>ch. active h' ! k' = Some ch \<and> ch \<notin> set (closed h'))" if "x \<in> set (inflight h')" for x
  proof (cases "x = int k * int n")
    case True
    then show ?thesis using k cnone act [of k] notc by (intro exI [of _ k]) simp
  next
    case False
    then have "x \<in> set (inflight h)" using that by simp
    from I(10) [OF this] none show ?thesis by (metis \<open>cache h' = cache h\<close> \<open>closed h' = closed h\<close> act option.distinct(1))
  qed
  show "ch < nextChan h'" "ch \<in> set (closed h') \<or> int k' * int n \<in> set (inflight h')"
    if "k' \<le> length c div n" "active h' ! k' = Some ch" for k' ch
    using I(11,12) [OF that(1), of ch] that(2) act [of k'] by (auto split: if_splits)
  show "k1 = k2" if "k1 \<le> length c div n" "k2 \<le> length c div n" "active h' ! k1 = Some ch \<and> active h' ! k2 = Some ch" for k1 k2 ch
    using I(11) [OF that(1), of ch] I(13) [OF that(1,2), of ch] I(11) [OF that(2), of ch] that(3) act [of k1] act [of k2]
    by (auto split: if_splits)
  show "ch \<in> set (closed h') \<or> (\<exists>k' \<le> length c div n. active h' ! k' = Some ch)" if "ch < nextChan h'" for ch
    using I(14) [of ch] that k act none by (cases "ch = nextChan h") (auto, metis option.distinct(1))
  show "ch < nextChan h'" if "ch \<in> set (closed h')" for ch using I(15) [of ch] that by simp
  show "distinct (inflight h')" using I(9) I(10) [of "int k * int n"] I(1) none by auto
qed (use handle_invD(1-7,16) [OF inv] h' in auto)

lemma fetch_evolves:
  assumes inv: "handle_inv c n h" and k: "k \<le> length c div n" and none: "active h ! k = None"
  shows "\<exists>h'. fetch (int k * int n) h = Return h' \<and> evolves c n UNIV h h' \<and> active h' ! k = Some (nextChan h)"
proof -
  note I = handle_invD [OF inv]
  let ?h = "h\<lparr>active := (active h)[k := Some (nextChan h)], nextChan := Suc (nextChan h), inflight := inflight h @ [int k * int n]\<rparr>"
  have ret: "fetch (int k * int n) h = Return ?h"
    using I(1,2,6) k by (simp add: fetch_def Let_def sdiv_mult index_def)
  have act: "active ?h ! k' = (if k' = k then Some (nextChan h) else active h ! k')" for k'
    using k I(6) by (simp add: nth_list_update)
  have "handle_inv c n ?h" by (rule fetch_inv [OF inv k none refl])
  moreover have "failfree c n ?h" if "failfree c n h"
    using that act unfolding failfree_def started_def by auto
  moreover have "started ?h k'" if "started h k'" for k'
    using that act [of k'] none by (auto simp: started_def)
  ultimately have "evolves c n UNIV h ?h" by (simp add: evolves_def)
  then show ?thesis using ret act [of k] by simp
qed


lemma wantBlock_evolves:
  assumes inv: "handle_inv c n h" and k: "k \<le> length c div n"
  shows "\<exists>h' u'. wantBlock (int k * int n) (h, u) = Return (h', u @ u') \<and> evolves c n UNIV h h' \<and> started h' k
    \<and> set u' \<subseteq> {..<nextChan h'}"
proof (cases "cache h ! k = None")
  case False
  then show ?thesis using handle_invD [OF inv] k evolves_refl [OF inv]
    by (auto simp: wantBlock_def index_def sdiv_mult started_def)
next
  case c: True
  have idx: "index (int k) (cache h) = Return None" using handle_invD(5) [OF inv] k c by (simp add: index_def)
  have b: "(int k * int n) sdiv hbs h = int k" using handle_invD(1,2) [OF inv] by (simp add: sdiv_mult)
  show ?thesis
  proof (cases "active h ! k")
    case None
    from fetch_evolves [OF inv k None] obtain h' where h': "fetch (int k * int n) h = Return h'"
      "evolves c n UNIV h h'" "active h' ! k = Some (nextChan h)" by blast
    then have "handle_inv c n h'" by (simp add: evolves_def)
    then have "nextChan h < nextChan h'" using handle_invD(11) k h'(3) by blast
    then show ?thesis using h' None idx b by (simp add: wantBlock_def Let_def started_def)
  next
    case (Some ch)
    then have "ch < nextChan h" using handle_invD(11) [OF inv k] by blast
    then show ?thesis using Some idx b evolves_refl [OF inv] by (simp add: wantBlock_def Let_def started_def)
  qed
qed

lemma wantBlocks_evolve:
  assumes "handle_inv c n h" and "\<forall>k \<in> set ks. k \<le> length c div n"
  shows "\<exists>h' u'. go_fold wantBlock (map (\<lambda>k. int k * int n) ks) (h, u) = Return (h', u @ u') \<and> evolves c n UNIV h h'
    \<and> (\<forall>k \<in> set ks. started h' k) \<and> set u' \<subseteq> {..<nextChan h'}"
  using assms
proof (induction ks arbitrary: h u)
  case Nil
  then show ?case by (auto intro: evolves_refl)
next
  case (Cons k ks)
  then obtain h1 u1 where 1: "wantBlock (int k * int n) (h, u) = Return (h1, u @ u1)" "evolves c n UNIV h h1"
    "started h1 k" "set u1 \<subseteq> {..<nextChan h1}" using wantBlock_evolves [OF Cons.prems(1), of k u] by auto
  then have inv: "handle_inv c n h1" by (simp add: evolves_def)
  obtain h2 u2 where 2: "go_fold wantBlock (map (\<lambda>k. int k * int n) ks) (h1, u @ u1) = Return (h2, (u @ u1) @ u2)"
    "evolves c n UNIV h1 h2" "\<forall>k \<in> set ks. started h2 k" "set u2 \<subseteq> {..<nextChan h2}"
    using Cons.IH [OF inv, of "u @ u1"] Cons.prems(2) by auto
  have "started h2 k" and "nextChan h1 \<le> nextChan h2" using 1(3) 2(2) by (auto simp: evolves_def)
  then have "(\<forall>k \<in> set (k # ks). started h2 k) \<and> set (u1 @ u2) \<subseteq> {..<nextChan h2}" using 1(4) 2(3,4) by auto
  moreover have "go_fold wantBlock (map (\<lambda>k. int k * int n) (k # ks)) (h, u) = Return (h2, u @ (u1 @ u2))"
    using 1(1) 2(1) by simp
  ultimately show ?case using evolves_trans [OF 1(2) 2(2)] by blast
qed

text \<open>Dropping a cached block together with its channel.\<close>

lemma purge_inv:
  assumes inv: "handle_inv c n h" and j: "j \<le> length c div n" and some: "cache h ! j \<noteq> None"
    and h': "h' = h\<lparr>cache := (cache h)[j := None], active := (active h)[j := None]\<rparr>"
  shows "handle_inv c n h'"
  unfolding handle_inv_def
proof (intro conjI allI impI ballI)
  note I = handle_invD [OF inv]
  have [simp]: "closed h' = closed h" "nextChan h' = nextChan h" "inflight h' = inflight h" by (simp_all add: h')
  obtain ch where ch: "ch \<in> set (closed h)" "active h ! j = Some ch" using I(8) [OF j] some by blast
  have act: "active h' ! k = (if k = j then None else active h ! k)" and cac: "cache h' ! k = (if k = j then None else cache h ! k)" for k
    using j I(5,6) h' by (simp_all add: nth_list_update)
  show "\<exists>k \<le> length c div n. x = int k * int n \<and> cache h' ! k = None \<and> (\<exists>ch. active h' ! k = Some ch \<and> ch \<notin> set (closed h'))"
    if "x \<in> set (inflight h')" for x
  proof -
    from I(10) [of x] that obtain k ch' where k: "k \<le> length c div n" "x = int k * int n" "cache h ! k = None"
      "active h ! k = Some ch'" "ch' \<notin> set (closed h)" by auto
    then have "k \<noteq> j" using ch by auto
    then show ?thesis using k act [of k] cac [of k] by (intro exI [of _ k]) simp
  qed
  show "d' = block n c k" "d' \<noteq> []" "\<exists>ch \<in> set (closed h'). active h' ! k = Some ch"
    if "k \<le> length c div n" "cache h' ! k = Some d'" for k d'
    using I(7,8,16) [OF that(1), of d'] that(2) cac [of k] act [of k] by (auto split: if_splits)
  show "ch' < nextChan h'" "ch' \<in> set (closed h') \<or> int k * int n \<in> set (inflight h')"
    if "k \<le> length c div n" "active h' ! k = Some ch'" for k ch'
    using I(11,12) [OF that(1), of ch'] that(2) act [of k] by (auto split: if_splits)
  show "k = k'" if "k \<le> length c div n" "k' \<le> length c div n" "active h' ! k = Some ch' \<and> active h' ! k' = Some ch'" for k k' ch'
    using I(13) [OF that(1,2), of ch'] that(3) act [of k] act [of k'] by (auto split: if_splits)
  show "ch' \<in> set (closed h') \<or> (\<exists>k \<le> length c div n. active h' ! k = Some ch')" if "ch' < nextChan h'" for ch'
    using I(14) [of ch'] that ch act by (cases "ch' = ch") (auto, metis option.inject)
  show "ch' < nextChan h'" if "ch' \<in> set (closed h')" for ch' using I(15) [of ch'] that by simp
qed (use handle_invD(1-6,9) [OF inv] h' in auto)

lemma purge_evolves:
  assumes inv: "handle_inv c n h" and a: "a \<le> length c div n"
  shows "\<exists>h'. purge (int a * int n # xs) h = Return h' \<and> evolves c n {a..} h h'"
proof (cases "int a - 1 > 0 \<and> cache h ! (a - 1) \<noteq> None")
  case False
  then show ?thesis using handle_invD [OF inv] a evolves_refl [OF inv]
    by (auto simp: purge_def Let_def sdiv_mult index_def nat_diff_distrib)
next
  case True
  note I = handle_invD [OF inv]
  let ?j = "a - 1"
  let ?h = "h\<lparr>cache := (cache h)[?j := None], active := (active h)[?j := None]\<rparr>"
  have j: "?j \<le> length c div n" "1 < a" using a True by auto
  have jn: "nat (int a - 1) = ?j" by (simp add: nat_diff_distrib)
  have ret: "purge (int a * int n # xs) h = Return ?h"
    using I(1,2,5) j True by (simp add: purge_def Let_def sdiv_mult index_def jn)
  have slot: "active ?h ! k = (if k = ?j then None else active h ! k)" "cache ?h ! k = (if k = ?j then None else cache h ! k)" for k
    using j I(5,6) by (simp_all add: nth_list_update)
  have "handle_inv c n ?h" by (rule purge_inv [OF inv j(1) conjunct2 [OF True] refl])
  moreover have "failfree c n ?h" if "failfree c n h" using that unfolding failfree_def started_def slot by auto
  moreover have "started ?h k" if "k \<in> {a..}" "started h k" for k
    using that j unfolding started_def slot by (auto split: if_splits)
  ultimately have "evolves c n {a..} h ?h" by (simp add: evolves_def)
  then show ?thesis using ret by blast
qed

lemma prefetchOne_evolves:
  assumes inv: "handle_inv c n h" and last: "last blocks = int k * int n"
    and bound: "(int k + 1 + int i) * int n < 2 ^ 63"
  shows "\<exists>h'. prefetchOne blocks i h = Return h' \<and> evolves c n UNIV h h'"
proof -
  note I = handle_invD [OF inv]
  let ?k = "k + 1 + i"
  have b: "last blocks sdiv hbs h + 1 + int i = int ?k" using I(1,2) last by (simp add: sdiv_mult)
  have eq: "int ?k = int k + 1 + int i" and "0 \<le> (int k + 1 + int i) * int n" by simp_all
  then have id: "i64 (int ?k * hbs h) = int ?k * int n"
    unfolding I(2) eq using bound by (intro i64_id) linarith+
  show ?thesis
  proof (cases "int ?k * int n < hsize h")
    case False
    then show ?thesis using evolves_refl [OF inv] unfolding prefetchOne_def Let_def b id by simp
  next
    case True
    then have "int (?k * n) < int (length c)" using I(3) by (simp only: of_nat_mult)
    then have "?k * n < length c" by (simp only: of_nat_less_iff)
    then have k: "?k \<le> length c div n" using I(1) by (simp add: less_eq_div_iff_mult_less_eq)
    then have idx: "index (int ?k) (cache h) = Return (cache h ! ?k)"
      using I(5) unfolding index_def by (simp only: nat_int of_nat_less_iff) simp
    show ?thesis
    proof (cases "cache h ! ?k = None \<and> active h ! ?k = None")
      case nn: True
      from fetch_evolves [OF inv k conjunct2 [OF nn]] obtain h' where
        "fetch (int ?k * int n) h = Return h'" "evolves c n UNIV h h'" by auto
      moreover have "prefetchOne blocks i h = fetch (int ?k * int n) h"
        unfolding prefetchOne_def Let_def b id using True idx nn by (simp only: nat_int go_bind.simps if_True simp_thms)
      ultimately show ?thesis by (simp only:) blast
    next
      case False
      then have "prefetchOne blocks i h = Return h"
        unfolding prefetchOne_def Let_def b id using True idx by (simp only: nat_int go_bind.simps if_True if_False)
      then show ?thesis using evolves_refl [OF inv] by blast
    qed
  qed
qed

lemma prefetch_evolves:
  assumes "handle_inv c n h" and "last blocks = int k * int n" and "(int k + 1 + int p) * int n < 2 ^ 63"
  shows "\<exists>h'. go_fold (prefetchOne blocks) [0..<p] h = Return h' \<and> evolves c n UNIV h h'"
proof -
  have "\<exists>h'. go_fold (prefetchOne blocks) is h = Return h' \<and> evolves c n UNIV h h'"
    if "handle_inv c n h" "\<forall>i \<in> set is. i < p" for "is" h
    using that
  proof (induction "is" arbitrary: h)
    case Nil
    then show ?case by (auto intro: evolves_refl)
  next
    case (Cons i "is")
    have "(int k + 1 + int i) * int n \<le> (int k + 1 + int p) * int n" using Cons.prems(2) by (intro mult_right_mono) auto
    then have "(int k + 1 + int i) * int n < 2 ^ 63" using assms(3) by linarith
    from prefetchOne_evolves [OF Cons.prems(1) assms(2) this] obtain h1
      where h1: "prefetchOne blocks i h = Return h1" "evolves c n UNIV h h1" by blast
    then have "handle_inv c n h1" by (simp add: evolves_def)
    then obtain h2 where "go_fold (prefetchOne blocks) is h1 = Return h2" "evolves c n UNIV h1 h2"
      using Cons.IH Cons.prems(2) by auto
    then show ?case using h1 evolves_trans by fastforce
  qed
  then show ?thesis using assms(1) by auto
qed

text \<open>The first critical section of a read whose blocks \<open>a\<close> to \<open>j\<close> all exist.\<close>

lemma readPlan_evolves:
  assumes inv: "handle_inv c n h" and blocks: "readBlocks h offset sz = map (\<lambda>k. int k * int n) [a..<Suc j]"
    and aj: "a \<le> j" "j \<le> length c div n" and bound: "(int j + 1 + int p) * int n < 2 ^ 63"
  shows "\<exists>h' u. readPlan p offset sz h = Return (h', u) \<and> evolves c n {a..} h h' \<and> (\<forall>k \<in> {a..j}. started h' k)
    \<and> set u \<subseteq> {..<nextChan h'}"
proof -
  let ?bl = "map (\<lambda>k. int k * int n) [a..<Suc j]"
  obtain h1 u where 1: "go_fold wantBlock ?bl (h, []) = Return (h1, u)" "evolves c n UNIV h h1"
    "\<forall>k \<in> set [a..<Suc j]. started h1 k" "set u \<subseteq> {..<nextChan h1}"
    using wantBlocks_evolve [OF inv, of "[a..<Suc j]" "[]"] aj by auto
  have i1: "handle_inv c n h1" using 1(2) by (simp add: evolves_def)
  obtain h2 where 2: "purge ?bl h1 = Return h2" "evolves c n {a..} h1 h2"
    using purge_evolves [OF i1, of a "map (\<lambda>k. int k * int n) [Suc a..<Suc j]"] aj
    by (auto simp: upt_conv_Cons simp del: upt_Suc)
  have i2: "handle_inv c n h2" using 2(2) by (simp add: evolves_def)
  have "last ?bl = int j * int n" using aj by simp
  from prefetch_evolves [OF i2 this bound] obtain h3 where
    3: "go_fold (prefetchOne ?bl) [0..<p] h2 = Return h3" "evolves c n UNIV h2 h3" by blast
  have e3: "evolves c n {a..} h1 h3" using evolves_trans [OF 2(2) evolves_mono [OF 3(2)]] by simp
  have "started h3 k" if "k \<in> {a..j}" for k using 1(3) e3 that aj by (auto simp: evolves_def)
  moreover have "evolves c n {a..} h h3" using evolves_trans [OF evolves_mono [OF 1(2)] e3] by simp
  moreover have "set u \<subseteq> {..<nextChan h3}" using 1(4) e3 by (auto simp: evolves_def)
  moreover have "readPlan p offset sz h = Return (h3, u)"
    unfolding readPlan_def Let_def blocks by (simp only: 1(1) 2(1) 3(1) go_bind.simps prod.case)
  ultimately show ?thesis by blast
qed


text \<open>The end of a fetch: no panic, whatever the peers answered.\<close>

lemma fetchDone_fields:
  assumes inv: "handle_inv c n h" and j: "j \<le> length c div n" "cache h ! j = None" "active h ! j = Some ch" "ch \<notin> set (closed h)"
    and v: "v = (case res of Inl e \<Rightarrow> None | Inr d \<Rightarrow> if d = [] then None else Some d)"
  obtains h' where "fetchDone (int j * int n) res h = Return h'" and "cache h' = (cache h)[j := v]" and "active h' = active h"
    and "closed h' = ch # closed h" and "inflight h' = remove1 (int j * int n) (inflight h)" and "nextChan h' = nextChan h"
    and "hbs h' = hbs h" and "hsize h' = hsize h" and "peers h' = peers h" and "hash h' = hash h"
    and "\<And>d. res = Inr d \<Longrightarrow> lastErr h' = lastErr h"
proof -
  let ?x = "int j * int n"
  have b: "nat (?x sdiv hbs h) = j" using handle_invD(1,2) [OF inv] by (simp add: sdiv_mult)
  show ?thesis
  proof (cases res)
    case (Inl e)
    have "(cache h)[j := None] = cache h" using j(2) by (metis list_update_id)
    then show ?thesis
      using j(3,4) Inl v by (intro that [of "h\<lparr>lastErr := Some e, closed := ch # closed h, inflight := remove1 ?x (inflight h)\<rparr>"])
        (simp_all add: fetchDone_def Let_def b)
  next
    case (Inr d)
    then show ?thesis
      using j(3,4) v by (intro that [of "h\<lparr>cache := (cache h)[j := v], closed := ch # closed h, inflight := remove1 ?x (inflight h)\<rparr>"])
        (simp_all add: fetchDone_def Let_def b)
  qed
qed

text \<open>Storing the answer for a block that is under way, and closing its channel.\<close>

lemma fetchDone_inv:
  assumes inv: "handle_inv c n h" and j: "j \<le> length c div n" "active h ! j = Some ch" "ch \<notin> set (closed h)"
    and v: "\<And>d. v = Some d \<Longrightarrow> d = block n c j \<and> d \<noteq> []"
    and h': "cache h' = (cache h)[j := v]" "active h' = active h" "closed h' = ch # closed h"
      "inflight h' = remove1 (int j * int n) (inflight h)" "nextChan h' = nextChan h" "hbs h' = hbs h" "hsize h' = hsize h"
  shows "handle_inv c n h'"
  unfolding handle_inv_def
proof (intro conjI allI impI ballI)
  note I = handle_invD [OF inv]
  have cac: "cache h' ! k = (if k = j then v else cache h ! k)" for k using I(5) j(1) h'(1) by (simp add: nth_list_update)
  have inf: "y \<in> set (inflight h') \<longleftrightarrow> y \<in> set (inflight h) \<and> y \<noteq> int j * int n" for y using I(9) h'(4) by auto
  show "d = block n c k" "d \<noteq> []" "\<exists>ch \<in> set (closed h'). active h' ! k = Some ch"
    if "k \<le> length c div n" "cache h' ! k = Some d" for k d
    using I(7,8,16) [OF that(1), of d] that(2) cac [of k] v j(2) h'(2,3) by (auto split: if_splits)
  show "\<exists>k \<le> length c div n. y = int k * int n \<and> cache h' ! k = None \<and> (\<exists>ch. active h' ! k = Some ch \<and> ch \<notin> set (closed h'))"
    if "y \<in> set (inflight h')" for y
  proof -
    from I(10) [of y] that inf obtain k ch' where k: "k \<le> length c div n" "y = int k * int n" "cache h ! k = None"
      "active h ! k = Some ch'" "ch' \<notin> set (closed h)" by auto
    then have "k \<noteq> j" using that inf by auto
    moreover from this have "ch' \<noteq> ch" using I(13) [OF k(1) j(1)] k(4) j(2) by blast
    ultimately show ?thesis using k cac [of k] h'(2,3) by (intro exI [of _ k]) simp
  qed
  show "ch' < nextChan h'" "ch' \<in> set (closed h') \<or> int k * int n \<in> set (inflight h')"
    if "k \<le> length c div n" "active h' ! k = Some ch'" for k ch'
    using I(11,12) [OF that(1), of ch'] that(2) j(2) h' inf I(1) by (cases "k = j"; auto)+
  show "k = k'" if "k \<le> length c div n" "k' \<le> length c div n" "active h' ! k = Some ch' \<and> active h' ! k' = Some ch'" for k k' ch'
    using I(13) [OF that(1,2), of ch'] that(3) h'(2) by simp
  show "ch' \<in> set (closed h') \<or> (\<exists>k \<le> length c div n. active h' ! k = Some ch')" if "ch' < nextChan h'" for ch'
    using I(14) [of ch'] that h' by auto
  show "ch' < nextChan h'" if "ch' \<in> set (closed h')" for ch' using I(15) [of ch'] I(11) [OF j(1,2)] that h' by auto
qed (use handle_invD(1-6,9) [OF inv] h' in auto)

lemma fetchDone_result:
  assumes inv: "handle_inv c n h" and x: "x \<in> set (inflight h)"
    and res: "\<And>d. res = Inr d \<Longrightarrow> d = block n c (nat (x div int n))"
  shows "\<exists>h'. fetchDone x res h = Return h' \<and> handle_inv c n h' \<and> peers h' = peers h \<and> hash h' = hash h
    \<and> inflight h' = remove1 x (inflight h)
    \<and> (\<forall>k. started h k \<longrightarrow> started h' k)
    \<and> (res = Inr (block n c (nat (x div int n))) \<longrightarrow> lastErr h' = lastErr h \<and> (failfree c n h \<longrightarrow> failfree c n h'))"
proof -
  note I = handle_invD [OF inv]
  from I(10) [OF x] obtain j ch where j: "j \<le> length c div n" "x = int j * int n" "cache h ! j = None"
    "active h ! j = Some ch" "ch \<notin> set (closed h)" by blast
  have b: "nat (x div int n) = j" using I(1) j(2) by simp
  define v where "v = (case res of Inl e \<Rightarrow> None | Inr d \<Rightarrow> if d = [] then None else Some d)"
  obtain h' where ret: "fetchDone x res h = Return h'" and h': "cache h' = (cache h)[j := v]" "active h' = active h"
    "closed h' = ch # closed h" "inflight h' = remove1 (int j * int n) (inflight h)" "nextChan h' = nextChan h" "hbs h' = hbs h"
    "hsize h' = hsize h" "peers h' = peers h" "hash h' = hash h" and err: "\<And>d. res = Inr d \<Longrightarrow> lastErr h' = lastErr h"
    using fetchDone_fields [OF inv j(1,3-5) v_def] unfolding j(2) by metis
  have v: "d = block n c j \<and> d \<noteq> []" if "v = Some d" for d using res that b unfolding v_def by (auto split: sum.splits if_splits)
  have cac: "cache h' ! k = (if k = j then v else cache h ! k)" for k using I(5) j(1) h'(1) by (simp add: nth_list_update)
  have "handle_inv c n h'" by (rule fetchDone_inv [OF inv j(1,4,5) v h'(1-7)])
  moreover have "\<forall>k. started h k \<longrightarrow> started h' k" using cac j(4) h'(2) by (auto simp: started_def)
  moreover have "failfree c n h'" if r: "res = Inr (block n c (nat (x div int n)))" and f: "failfree c n h"
    unfolding failfree_def
  proof (intro allI impI)
    fix k assume k: "k \<le> length c div n" and st: "started h' k"
    show "cache h' ! k \<noteq> None \<or> int k * int n \<in> set (inflight h') \<or> block n c k = []"
    proof (cases "k = j")
      case True
      then show ?thesis using cac [of k] r b unfolding v_def by simp
    next
      case False
      then have "started h k" and "int k * int n \<noteq> int j * int n" using st cac [of k] h'(2) I(1) by (simp_all add: started_def)
      then show ?thesis using f k cac [of k] False h'(4) unfolding failfree_def by auto
    qed
  qed
  ultimately show ?thesis using ret h' err j(2) by blast
qed


section \<open>Honest peers\<close>

text \<open>
  A peer that is known to the fetcher answers a request for the handle's hash with the requested
  bytes or with an error (\<open>honest\<close>); for every block one of the handle's peers answers (\<open>serving\<close>).
\<close>

definition honest :: "peer_read \<Rightarrow> string list \<Rightarrow> string \<Rightarrow> nat \<Rightarrow> string \<Rightarrow> bool" where
  "honest peerRead known hsh n c \<longleftrightarrow>
     (\<forall>p \<in> set known. \<forall>k d. peerRead p hsh (int k * int n) (int n) = Inr d \<longrightarrow> d = block n c k)"

definition serving :: "peer_read \<Rightarrow> string list \<Rightarrow> string \<Rightarrow> nat \<Rightarrow> string list \<Rightarrow> bool" where
  "serving peerRead known hsh n ps \<longleftrightarrow>
     (\<forall>k. \<exists>p \<in> set ps. p \<in> set known \<and> \<not> isl (peerRead p hsh (int k * int n) (int n)))"

lemma tryPeers_honest:
  assumes "honest peerRead known (hash h) n c" and "hbs h = int n"
    and "tryPeers peerRead known h (int k * int n) ps e = Inr d"
  shows "d = block n c k"
  using assms(3) assms(1,2)
  by (induction ps arbitrary: e) (auto simp: honest_def split: if_splits sum.splits)

lemma tryPeers_serving:
  assumes "hbs h = int n" and "\<exists>p \<in> set ps. p \<in> set known \<and> \<not> isl (peerRead p (hash h) (int k * int n) (int n))"
  shows "\<exists>d. tryPeers peerRead known h (int k * int n) ps e = Inr d"
  using assms(2)
proof (induction ps arbitrary: e)
  case (Cons p ps)
  then show ?case using assms(1) by (auto split: sum.split simp: isl_def)
qed simp

lemma realFetch_block:
  assumes "honest peerRead known (hash h) n c" and "serving peerRead known (hash h) n (peers h)" and "hbs h = int n"
  shows "realFetch peerRead known h (int k * int n) = Inr (block n c k)"
proof -
  obtain d where "tryPeers peerRead known h (int k * int n) (peers h) CouldntFindPeer = Inr d"
    using tryPeers_serving [OF assms(3)] assms(2) unfolding serving_def by blast
  with tryPeers_honest [OF assms(1,3)] show ?thesis by (auto simp: realFetch_def)
qed

section \<open>Reads of an undisturbed handle\<close>

definition idle :: "string \<Rightarrow> nat \<Rightarrow> pfHandle \<Rightarrow> bool" where
  "idle c n h \<longleftrightarrow> handle_inv c n h \<and> failfree c n h \<and> inflight h = [] \<and> lastErr h = None"

lemma finishAll_idle:
  assumes "honest peerRead known (hash h) n c" and "serving peerRead known (hash h) n (peers h)"
    and "handle_inv c n h" and "failfree c n h" and "lastErr h = None"
  shows "\<exists>h'. finishAll peerRead known h = Return h' \<and> idle c n h' \<and> (\<forall>k. started h k \<longrightarrow> started h' k)
    \<and> hash h' = hash h \<and> peers h' = peers h"
proof -
  have "\<exists>h'. go_fold (\<lambda>x h. fetchDone x (realFetch peerRead known h x) h) xs h = Return h' \<and> idle c n h'
      \<and> (\<forall>k. started h k \<longrightarrow> started h' k) \<and> hash h' = hash h \<and> peers h' = peers h"
    if "xs = inflight h" "honest peerRead known (hash h) n c" "serving peerRead known (hash h) n (peers h)"
      "handle_inv c n h" "failfree c n h" "lastErr h = None" for xs h
    using that
  proof (induction xs arbitrary: h)
    case Nil
    then show ?case by (simp add: idle_def)
  next
    case (Cons x xs)
    have mem: "x \<in> set (inflight h)" by (simp flip: Cons.prems(1))
    obtain k where k: "x = int k * int n" using handle_invD(10) [OF Cons.prems(4) mem] by blast
    have n: "0 < n" using handle_invD(1) [OF Cons.prems(4)] .
    have res: "realFetch peerRead known h x = Inr (block n c (nat (x div int n)))"
      using realFetch_block [OF Cons.prems(2,3) handle_invD(2) [OF Cons.prems(4)]] k n by simp
    obtain h1 where h1: "fetchDone x (realFetch peerRead known h x) h = Return h1" "handle_inv c n h1" "peers h1 = peers h"
      "hash h1 = hash h" "inflight h1 = remove1 x (inflight h)" "\<forall>k. started h k \<longrightarrow> started h1 k"
      "lastErr h1 = lastErr h" "failfree c n h1"
      using fetchDone_result [OF Cons.prems(4) mem, of "realFetch peerRead known h x"] res Cons.prems(5) by auto
    have "xs = inflight h1" using h1(5) by (simp flip: Cons.prems(1))
    then obtain h2 where "go_fold (\<lambda>x h. fetchDone x (realFetch peerRead known h x) h) xs h1 = Return h2" "idle c n h2"
      "\<forall>k. started h1 k \<longrightarrow> started h2 k" "hash h2 = hash h1" "peers h2 = peers h1"
      using Cons.IH [of h1] Cons.prems h1 by auto
    then show ?case using h1 by auto
  qed
  then show ?thesis using assms by (simp add: finishAll_def)
qed

lemma readBlocks_handle:
  assumes "handle_inv c n h" and "0 < z" and "int o' + int z + int n < 2 ^ 63"
  shows "readBlocks h (int o') (int z) = map (\<lambda>k. int k * int n) [o' div n..<Suc ((o' + z - 1) div n)]"
proof -
  note I = handle_invD [OF assms(1)]
  obtain j where j: "(o' + z + n - 1) div n = Suc j" "j = (o' + z - 1) div n"
    using last_block [OF I(1) assms(2) refl] by metis
  have "int o' + int z + int n - 1 = int (o' + z + n - 1)" using assms(2) by simp
  then have "nat ((int o' + int z + int n - 1) div int n) = Suc j" using j(1) by (simp only: zdiv_int [symmetric] nat_int)
  moreover have "nat (int o' div int n) = o' div n" by (simp flip: zdiv_int)
  ultimately show ?thesis using readBlocks_eq [of h "int o'" "int z"] I(1,2) assms(2,3) j(2) by simp
qed

lemma readGrab_blocks:
  assumes "handle_inv c n h" and "readBlocks h offset sz = map (\<lambda>k. int k * int n) ks"
  shows "readGrab offset sz h =
    (if None \<in> (\<lambda>k. cache h ! k) ` set ks then Return ([], lastErr h)
     else go_bind (assemble (int n) offset sz (map (\<lambda>k. int k * int n) ks ! 0) (map (\<lambda>k. the (cache h ! k)) ks)) (\<lambda>d. Return (d, None)))"
proof -
  have "map (\<lambda>x. cache h ! nat (x sdiv hbs h)) (map (\<lambda>k. int k * int n) ks) = map (\<lambda>k. cache h ! k) ks"
    using handle_invD(1,2) [OF assms(1)] by (simp add: sdiv_mult)
  moreover have "map the (map (\<lambda>k. cache h ! k) ks) = map (\<lambda>k. the (cache h ! k)) ks" by simp
  ultimately show ?thesis
    unfolding readGrab_def Let_def assms(2) handle_invD(2) [OF assms(1)] by (simp only: set_map)
qed


text \<open>What an undisturbed read returns, in its three cases.\<close>

lemma wantBlocks_panic:
  assumes "handle_inv c n h" and "a \<le> length c div n" and "length c div n < j"
  shows "go_fold wantBlock (map (\<lambda>k. int k * int n) [a..<Suc j]) (h, []) = Panic"
proof -
  let ?L = "length c div n"
  have "[a..<Suc ?L] @ [Suc ?L..<Suc j] = [a..<Suc j]"
    using assms(2,3) upt_add_eq_append [of a "Suc ?L" "Suc j - Suc ?L"] by simp
  moreover have "[Suc ?L..<Suc j] = Suc ?L # [Suc (Suc ?L)..<Suc j]" using assms(3) by (intro upt_conv_Cons) simp
  ultimately have "[a..<Suc j] = [a..<Suc ?L] @ Suc ?L # [Suc (Suc ?L)..<Suc j]" by simp
  moreover obtain h1 u where "go_fold wantBlock (map (\<lambda>k. int k * int n) [a..<Suc ?L]) (h, []) = Return (h1, u)"
    and "handle_inv c n h1"
    using wantBlocks_evolve [OF assms(1), of "[a..<Suc ?L]" "[]"]
    by (auto simp: evolves_def less_Suc_eq_le simp del: upt_Suc)
  moreover have "wantBlock (int (Suc ?L) * int n) (h1, u) = Panic"
    using handle_invD [OF \<open>handle_inv c n h1\<close>] unfolding wantBlock_def Let_def split_def
    by (simp add: sdiv_mult index_def del: of_nat_Suc)
  ultimately show ?thesis by (simp add: go_fold_append del: upt_Suc of_nat_Suc)
qed

lemma pfRead_panics:
  assumes "handle_inv c n h" and "0 < z" and "o' < length c" and "int o' + int z + int n < 2 ^ 63"
    and "length c div n < (o' + z - 1) div n"
  shows "pfRead peerRead known p (int o') (int z) h = Panic"
proof -
  have "o' div n \<le> length c div n" using assms(3) by (simp add: div_le_mono)
  from wantBlocks_panic [OF assms(1) this assms(5)]
  have "go_fold wantBlock (readBlocks h (int o') (int z)) (h, []) = Panic"
    unfolding readBlocks_handle [OF assms(1,2,4)] .
  then show ?thesis using assms(3) handle_invD(3) [OF assms(1)] by (simp add: pfRead_def readPlan_def Let_def)
qed

text \<open>What is collected from an idle handle once the blocks were started.\<close>

lemma readGrab_idle:
  assumes idle: "idle c n h" and z: "0 < z" and x: "x < length c" and b: "int x + int z + int n < 2 ^ 63"
    and j: "(x + z - 1) div n \<le> length c div n" and st: "\<forall>k \<in> {x div n..(x + z - 1) div n}. started h k"
  shows "readGrab (int x) (int z) h = Return (if (x + z - 1) div n * n < length c then take z (drop x c) else [], None)"
proof -
  let ?a = "x div n" and ?j = "(x + z - 1) div n"
  have inv: "handle_inv c n h" and "failfree c n h" "inflight h = []" "lastErr h = None" using idle by (auto simp: idle_def)
  note I = handle_invD [OF inv]
  note grab = readGrab_blocks [OF inv readBlocks_handle [OF inv z b]]
  have cached: "cache h ! k = (if k * n < length c then Some (block n c k) else None)" if "k \<in> {?a..?j}" for k
  proof -
    have k: "k \<le> length c div n" and "started h k" using that j st by auto
    then have "cache h ! k \<noteq> None \<or> block n c k = []" using \<open>failfree c n h\<close> \<open>inflight h = []\<close> by (simp add: failfree_def)
    then show ?thesis using I(7,16) [OF k] block_nonempty [OF I(1), of c k] by (cases "cache h ! k") auto
  qed
  have aj: "?a \<le> ?j" using z by (simp add: div_le_mono)
  show ?thesis
  proof (cases "?j * n < length c")
    case True
    have some: "cache h ! k = Some (block n c k)" if "k \<in> {?a..?j}" for k
    proof -
      have "k * n \<le> ?j * n" using that by (intro mult_le_mono1) simp
      then have "k * n < length c" using True by linarith
      then show ?thesis using cached [OF that] by simp
    qed
    obtain j' where j': "(x + z + n - 1) div n = Suc j'" "j' = ?j" using last_block [OF I(1) z refl] by metis
    have "None \<notin> (\<lambda>k. cache h ! k) ` set [?a..<Suc ?j]"
      unfolding set_upt atLeastLessThanSuc_atLeastAtMost using some by (auto simp del: atLeastAtMost_iff)
    moreover have "map (\<lambda>k. the (cache h ! k)) [?a..<Suc ?j] = map (block n c) [?a..<Suc ?j]"
      by (intro map_cong refl) (simp only: set_upt atLeastLessThanSuc_atLeastAtMost some option.sel)
    moreover have "map (\<lambda>k. int k * int n) [?a..<Suc ?j] ! 0 = int ?a * int n" using aj by (simp add: nth_append upt_conv_Cons)
    ultimately show ?thesis
      using True assemble_slice [OF I(1) z x refl j'(1) [symmetric]] unfolding grab j'(2) by (simp only: if_False if_True go_bind.simps)
  next
    case False
    moreover have "?j \<in> {?a..?j}" unfolding atLeastAtMost_iff using aj by blast
    ultimately have "cache h ! ?j = None" using cached [of ?j] by presburger
    then have "None \<in> (\<lambda>k. cache h ! k) ` set [?a..<Suc ?j]" using aj by (metis atLeastLessThan_iff image_eqI lessI set_upt)
    then show ?thesis using \<open>lastErr h = None\<close> False unfolding grab by (simp only: if_True if_False)
  qed
qed

lemma pfRead_returns:
  assumes idle: "idle c n h" and hon: "honest peerRead known (hash h) n c" and ser: "serving peerRead known (hash h) n (peers h)"
    and z: "0 < z" and o: "o' < length c" and b1: "int o' + int z + int n < 2 ^ 63"
    and j: "(o' + z - 1) div n \<le> length c div n"
    and b2: "(int ((o' + z - 1) div n) + 1 + int p) * int n < 2 ^ 63"
  shows "\<exists>h'. pfRead peerRead known p (int o') (int z) h =
      Return (h', if (o' + z - 1) div n * n < length c then take z (drop o' c) else [], None)
    \<and> idle c n h' \<and> hash h' = hash h \<and> peers h' = peers h"
proof -
  let ?a = "o' div n" and ?j = "(o' + z - 1) div n"
  have inv: "handle_inv c n h" and ff: "failfree c n h" and le: "lastErr h = None" using idle by (auto simp: idle_def)
  have aj: "?a \<le> ?j" using z by (simp add: div_le_mono)
  obtain h1 u where 1: "readPlan p (int o') (int z) h = Return (h1, u)" "evolves c n {?a..} h h1" "\<forall>k \<in> {?a..?j}. started h1 k"
    using readPlan_evolves [OF inv readBlocks_handle [OF inv z b1] aj j b2] by blast
  have e: "handle_inv c n h1" "failfree c n h1" "lastErr h1 = None" "hash h1 = hash h" "peers h1 = peers h"
    using 1(2) ff le by (auto simp: evolves_def)
  obtain h2 where 2: "finishAll peerRead known h1 = Return h2" "idle c n h2" "\<forall>k. started h1 k \<longrightarrow> started h2 k"
    "hash h2 = hash h1" "peers h2 = peers h1"
    using finishAll_idle [of peerRead known h1 n c] hon ser e by auto
  have "readGrab (int o') (int z) h2 = Return (if ?j * n < length c then take z (drop o' c) else [], None)"
    by (rule readGrab_idle [OF 2(2) z o b1 j]) (use 1(3) 2(3) in auto)
  then show ?thesis using o handle_invD(3) [OF inv] 1(1) 2 e by (simp add: pfRead_def)
qed


section \<open>Streams\<close>

lemma div_same_block:
  assumes "0 < k" and "k dvd n" and "k dvd (o' :: nat)" and "0 < n"
  shows "(o' + k - 1) div n = o' div n"
proof -
  obtain q where q: "n = k * q" using assms(2) by blast
  obtain i where i: "o' = k * i" using assms(3) by blast
  have q0: "0 < q" using assms(4) q by simp
  have "o' + k - 1 = k * i + (k - 1)" using assms(1) i by simp
  then have "(o' + k - 1) div k = i" using assms(1) by (simp only: div_mult_self4) simp
  then have "(o' + k - 1) div n = i div q" by (simp add: q div_mult2_eq)
  moreover have "o' div n = i div q" using i q assms(1) by (simp add: div_mult2_eq)
  ultimately show ?thesis by simp
qed

lemma streamRead_aligned:
  assumes "idle c n h" and "honest peerRead known (hash h) n c" and "serving peerRead known (hash h) n (peers h)"
    and k: "0 < k" "k dvd n" "k dvd o'" and "o' < length c"
    and b: "int (length c) + int k + (int p + 2) * int n < 2 ^ 63"
  shows "\<exists>h'. streamRead peerRead known p k (int o') h =
      Return (h', int (o' + length (take k (drop o' c))), Inr (take k (drop o' c), length (take k (drop o' c)) < k))
    \<and> idle c n h' \<and> hash h' = hash h \<and> peers h' = peers h"
proof -
  have n: "0 < n" using assms(1) handle_invD(1) by (auto simp: idle_def)
  let ?j = "(o' + k - 1) div n"
  have j: "?j = o' div n" by (rule div_same_block [OF k n])
  have jn: "?j * n \<le> o'" unfolding j by (rule div_times_less_eq_dividend)
  have b1: "int o' + int k + int n < 2 ^ 63"
  proof -
    have "int n \<le> (int p + 2) * int n" by (simp add: mult_le_cancel_right1 algebra_simps)
    then show ?thesis using b assms(7) by linarith
  qed
  have "int (?j * n) \<le> int o'" using jn by (simp only: of_nat_le_iff)
  then have "(int ?j + 1 + int p) * int n \<le> int o' + (int p + 2) * int n" by (simp add: algebra_simps)
  then have b2: "(int ?j + 1 + int p) * int n < 2 ^ 63" using b assms(7) by linarith
  have "?j \<le> length c div n" unfolding j using assms(7) by (simp add: div_le_mono)
  from pfRead_returns [OF assms(1-3) k(1) assms(7) b1 this b2] obtain h' where
    h': "pfRead peerRead known p (int o') (int k) h = Return (h', take k (drop o' c), None)" "idle c n h'"
      "hash h' = hash h" "peers h' = peers h" using jn assms(7) by auto
  have "i64 (int o' + int (length (take k (drop o' c)))) = int (o' + length (take k (drop o' c)))"
    using b b1 assms(7) by (subst i64_id) auto
  then show ?thesis using h' by (simp add: streamRead_def)
qed

lemma streamCopy_aligned:
  assumes "idle c n h" and "honest peerRead known (hash h) n c" and "serving peerRead known (hash h) n (peers h)"
    and k: "0 < k" "k dvd n" "k dvd o'" and b: "int (length c) + int k + (int p + 2) * int n < 2 ^ 63"
    and "length c < o' + fuel * k" and "0 < fuel" and "o' \<le> length c"
  shows "streamCopy fuel peerRead known p k (int o') h = Some (Return (Inr (drop o' c)))"
  using assms(1-3,6,8-10)
proof (induction fuel arbitrary: h o')
  case (Suc fuel)
  show ?case
  proof (cases "o' < length c")
    case False
    then have "o' = length c" using Suc.prems(7) by simp
    moreover have "hsize h = int (length c)" using Suc.prems(1) handle_invD(3) by (auto simp: idle_def)
    ultimately show ?thesis using k(1) by (simp add: streamRead_def pfRead_def)
  next
    case True
    from streamRead_aligned [OF Suc.prems(1-3) k(1,2) Suc.prems(4) True b] obtain h' where
      h': "streamRead peerRead known p k (int o') h =
        Return (h', int (o' + length (take k (drop o' c))), Inr (take k (drop o' c), length (take k (drop o' c)) < k))"
      "idle c n h'" "hash h' = hash h" "peers h' = peers h" by blast
    show ?thesis
    proof (cases "length c - o' < k")
      case short: True
      then show ?thesis using h'(1) by simp
    next
      case False
      have len: "length (take k (drop o' c)) = k" and le: "o' + k \<le> length c" using False True by auto
      have "0 < fuel" using Suc.prems(5) le by (cases fuel) auto
      then have "streamCopy fuel peerRead known p k (int (o' + k)) h' = Some (Return (Inr (drop (o' + k) c)))"
        using Suc.IH [of h' "o' + k"] Suc.prems h' le by (simp add: algebra_simps)
      moreover have "drop o' c = take k (drop o' c) @ drop (o' + k) c"
        by (metis append_take_drop_id drop_drop add.commute)
      ultimately show ?thesis using h'(1) len by (simp del: length_take)
    qed
  qed
qed simp


section \<open>Concurrent readers: the invariant\<close>

lemma readPlan_inv:
  assumes inv: "handle_inv c n h" and off: "0 \<le> offset" "offset < int (length c)" and sz: "0 \<le> sz"
    and b: "int (length c) + sz + (int p + 2) * int n < 2 ^ 63" and ret: "readPlan p offset sz h = Return (h', u)"
  shows "handle_inv c n h' \<and> hash h' = hash h \<and> peers h' = peers h \<and> nextChan h \<le> nextChan h' \<and> set u \<subseteq> {..<nextChan h'}"
proof -
  note I = handle_invD [OF inv]
  let ?a = "nat (offset div int n)" and ?m = "nat ((offset + sz + int n - 1) div int n)"
  have nn: "int n \<le> (int p + 2) * int n" "0 \<le> int p * int n" by (simp_all add: algebra_simps)
  have "offset + sz + int n < 2 ^ 63" using off sz b nn by linarith
  then have blocks: "readBlocks h offset sz = map (\<lambda>k. int k * int n) [?a..<?m]"
    using readBlocks_eq [of h offset sz] I(1,2) off sz by simp
  have "offset div int n \<le> int (length c) div int n" using off I(1) by (intro zdiv_mono1) auto
  then have aL: "?a \<le> length c div n" by (simp add: zdiv_int nat_le_iff)
  show ?thesis
  proof (cases "?a < ?m")
    case False
    then have "[?a..<?m] = []" by (simp only: upt_eq_Nil_conv not_less simp_thms)
    then have "readPlan p offset sz h = Panic" unfolding readPlan_def blocks by (simp only: list.map go_fold.simps) (simp add: purge_def)
    then show ?thesis using ret by simp
  next
    case True
    then obtain j where j: "?m = Suc j" "?a \<le> j" by (cases ?m) auto
    show ?thesis
    proof (cases "j \<le> length c div n")
      case False
      then have "go_fold wantBlock (readBlocks h offset sz) (h, []) = Panic"
        using wantBlocks_panic [OF inv aL] j(1) unfolding blocks by simp
      then show ?thesis using ret by (simp add: readPlan_def Let_def)
    next
      case jL: True
      have "int j * int n \<le> int (length c div n) * int n" using jL by (intro mult_right_mono) auto
      also have "\<dots> \<le> int (length c)" by (metis div_times_less_eq_dividend of_nat_le_iff of_nat_mult)
      finally have "(int j + 1 + int p) * int n \<le> int (length c) + (int p + 2) * int n" by (simp add: algebra_simps)
      then have "(int j + 1 + int p) * int n < 2 ^ 63" using b sz by linarith
      from readPlan_evolves [OF inv blocks [unfolded j(1)] j(2) jL this] ret show ?thesis
        by (auto simp: evolves_def)
    qed
  qed
qed

definition sys_inv :: "string \<Rightarrow> nat \<Rightarrow> fetch_sys \<Rightarrow> bool" where
  "sys_inv c n s \<longleftrightarrow> handle_inv c n (hnd s)
     \<and> (\<forall>r offset sz u. waiting s r = Some (offset, sz, u) \<longrightarrow> set u \<subseteq> {..<nextChan (hnd s)})"

lemma reach_sys_inv:
  assumes "fetch_reach peerRead known p lim h0 s" and "idle c n h0" and "honest peerRead known (hash h0) n c"
    and b: "int (length c) + lim + (int p + 2) * int n < 2 ^ 63"
  shows "sys_inv c n s \<and> hash (hnd s) = hash h0 \<and> peers (hnd s) = peers h0"
  using assms(1)
proof (induction rule: fetch_reach.induct)
  case start
  then show ?case using assms(2) by (simp add: sys_inv_def idle_def)
next
  case (step s t)
  have inv: "handle_inv c n (hnd s)" and hash: "hash (hnd s) = hash h0" "peers (hnd s) = peers h0"
    and w: "\<And>r offset sz u. waiting s r = Some (offset, sz, u) \<Longrightarrow> set u \<subseteq> {..<nextChan (hnd s)}"
    using step.IH by (auto simp: sys_inv_def)
  from step.hyps(2) show ?case
  proof cases
    case (begin_read r offset sz h' u)
    have "offset < int (length c)" using begin_read(4) handle_invD(3) [OF inv] by simp
    moreover have "int (length c) + sz + (int p + 2) * int n < 2 ^ 63" using b begin_read(6) by linarith
    ultimately have "handle_inv c n h' \<and> hash h' = hash (hnd s) \<and> peers h' = peers (hnd s)
        \<and> nextChan (hnd s) \<le> nextChan h' \<and> set u \<subseteq> {..<nextChan h'}"
      using readPlan_inv [OF inv begin_read(3) _ begin_read(5) _ begin_read(7)] by blast
    then show ?thesis using begin_read(1) hash w by (fastforce simp: sys_inv_def)
  next
    case (finish_fetch x h')
    obtain k where k: "x = int k * int n" using handle_invD(10) [OF inv finish_fetch(2)] by blast
    have n: "0 < n" "hbs (hnd s) = int n" using handle_invD(1,2) [OF inv] by auto
    have "d = block n c (nat (x div int n))" if "realFetch peerRead known (hnd s) x = Inr d" for d
      using tryPeers_honest [of peerRead known "hnd s" n c k] assms(3) that n k hash by (simp add: realFetch_def)
    then have "handle_inv c n h' \<and> hash h' = hash (hnd s) \<and> peers h' = peers (hnd s)"
      using fetchDone_result [OF inv finish_fetch(2), of "realFetch peerRead known (hnd s) x"] finish_fetch(3) by auto
    moreover have "nextChan h' = nextChan (hnd s)"
      using finish_fetch(3) by (auto simp: fetchDone_def Let_def split: option.splits if_splits sum.splits)
    ultimately show ?thesis using finish_fetch(1) hash w by (simp add: sys_inv_def)
  qed (use inv hash w in \<open>auto simp: sys_inv_def split: if_splits\<close>)
qed


lemma readGrab_cached:
  assumes inv: "handle_inv c n h" and "0 < z" and "o' < length c" and "int o' + int z + int n < 2 ^ 63"
    and "(o' + z - 1) div n \<le> length c div n"
  shows "readGrab (int o') (int z) h \<in> {Return ([], lastErr h), Return (take z (drop o' c), None)}"
proof -
  let ?a = "o' div n" and ?j = "(o' + z - 1) div n"
  note I = handle_invD [OF inv]
  note blocks = readBlocks_handle [OF inv assms(2,4)]
  have aj: "?a \<le> ?j" using assms(2) by (simp add: div_le_mono)
  show ?thesis
  proof (cases "None \<in> (\<lambda>k. cache h ! k) ` set [?a..<Suc ?j]")
    case True
    then show ?thesis unfolding readGrab_blocks [OF inv blocks] by (simp only: if_True) simp
  next
    case False
    have some: "cache h ! k = Some (block n c k)" if "k \<in> set [?a..<Suc ?j]" for k
    proof -
      have "cache h ! k \<noteq> None" using False that by (metis image_eqI)
      moreover have "k \<le> length c div n" using that assms(5) by auto
      ultimately show ?thesis using I(7) by blast
    qed
    obtain j' where j': "(o' + z + n - 1) div n = Suc j'" "j' = ?j" using last_block [OF I(1) assms(2) refl] by metis
    have "map (\<lambda>k. the (cache h ! k)) [?a..<Suc ?j] = map (block n c) [?a..<Suc ?j]"
      using some by (intro map_cong) auto
    moreover have "map (\<lambda>k. int k * int n) [?a..<Suc ?j] ! 0 = int ?a * int n" using aj by (simp add: nth_append upt_conv_Cons)
    ultimately have "readGrab (int o') (int z) h = Return (take z (drop o' c), None)"
      using assemble_slice [OF I(1) assms(2,3) refl j'(1) [symmetric]] False unfolding readGrab_blocks [OF inv blocks] j'(2)
      by (simp only: if_False go_bind.simps)
    then show ?thesis by simp
  qed
qed

lemma NewHandle_idle:
  assumes "NewHandle dial f hsh (int (length c)) ps = Return (f', Inr h)" and "blockSize f = int n" and "0 < n"
    and "int (length c) + int n < 2 ^ 63"
  shows "idle c n h \<and> hash h = hsh \<and> peers h = ps"
proof -
  have div: "int (length c) sdiv int n = int (length c div n)" using assms(3) by (simp add: sdiv_pos zdiv_int)
  have le: "int (length c div n) \<le> int (length c)" by simp
  then have "int (length c div n) + 1 < 2 ^ 63" using assms(3,4) by linarith
  then have "i64 (i64 (int (length c) sdiv int n) + 1) = int (length c div n) + 1"
    unfolding div by (simp add: i64_id)
  then have h: "h = \<lparr>hash = hsh, hsize = int (length c), peers = ps, hbs = int n,
      cache = replicate (Suc (length c div n)) None, active = replicate (Suc (length c div n)) None,
      lastErr = None, closed = [], nextChan = 0, inflight = []\<rparr>"
    using assms(1-3) by (auto simp: NewHandle_def Let_def go_bind_Return_iff nat_add_distrib split: if_splits)
  have "replicate (Suc (length c div n)) None ! k = None" if "k \<le> length c div n" for k
    using that by (intro nth_replicate) simp
  then show ?thesis unfolding h
    using assms(3,4) by (auto simp: idle_def handle_inv_def failfree_def started_def simp del: replicate.simps)
qed

section \<open>Properties\<close>

definition demo_content :: string where
  "demo_content = ''abcdefgh''"

definition demo_fetcher :: Fetcher where
  "demo_fetcher = \<lparr>fpeers = [(''u@x:1'', (''u'', ''x:1''))], blockSize = 2, f_localCacheDir = [], f_localCacheSize = 0\<rparr>"

definition demo_peerRead :: peer_read where
  "demo_peerRead p hsh offset sz = Inr (take (nat sz) (drop (nat offset) demo_content))"

definition demo_handle :: pfHandle where
  "demo_handle = \<lparr>hash = ''h'', hsize = 8, peers = [''u@x:1''], hbs = 2, cache = replicate 5 None,
     active = replicate 5 None, lastErr = None, closed = [], nextChan = 0, inflight = []\<rparr>"

lemma demo_new: "NewHandle (\<lambda>u a. None) demo_fetcher ''h'' 8 [''u@x:1''] = Return (demo_fetcher, Inr demo_handle)"
  by code_simp

lemma demo_idle: "idle demo_content 2 demo_handle" "hash demo_handle = ''h''" "peers demo_handle = [''u@x:1'']"
proof -
  have "int (length demo_content) = 8" by (simp add: demo_content_def)
  then show "idle demo_content 2 demo_handle" "hash demo_handle = ''h''" "peers demo_handle = [''u@x:1'']"
    using NewHandle_idle [of "\<lambda>u a. None" demo_fetcher "''h''" demo_content "[''u@x:1'']" demo_fetcher demo_handle 2] demo_new
    by (simp_all add: demo_fetcher_def)
qed

lemma demo_peers:
  "honest demo_peerRead [''u@x:1''] (hash demo_handle) 2 demo_content"
  "serving demo_peerRead [''u@x:1''] (hash demo_handle) 2 (peers demo_handle)"
proof -
  have nat2: "nat (int k * 2) = k * 2" for k by (simp add: nat_mult_distrib)
  then show "honest demo_peerRead [''u@x:1''] (hash demo_handle) 2 demo_content"
    "serving demo_peerRead [''u@x:1''] (hash demo_handle) 2 (peers demo_handle)"
    using demo_idle(3) by (auto simp: honest_def serving_def demo_peerRead_def block_def isl_def)
qed

text \<open>
  C9. A read on a handle whose peers answer honestly, inside of the file and not empty, ends in one
  of three ways, by the last block it touches: if that block starts inside of the file the result
  is exactly the requested slice; if it is the empty block right after a file whose size is a
  multiple of the block size, the read returns nothing, without an error; if it lies beyond, the
  block index is out of range and the program panics. The handle is ready for the next read in
  the first two cases.
\<close>

theorem pfRead_result:
  assumes "idle c n h" and "honest peerRead known (hash h) n c" and "serving peerRead known (hash h) n (peers h)"
    and "0 < z" and "x < length c" and "int (length c) + int z + (int p + 2) * int n < 2 ^ 63"
  shows "if length c div n < (x + z - 1) div n then pfRead peerRead known p (int x) (int z) h = Panic
    else \<exists>h'. pfRead peerRead known p (int x) (int z) h =
           Return (h', if (x + z - 1) div n * n < length c then take z (drop x c) else [], None)
         \<and> idle c n h' \<and> hash h' = hash h \<and> peers h' = peers h"
proof -
  let ?j = "(x + z - 1) div n"
  have nn: "int n \<le> (int p + 2) * int n" by (simp add: algebra_simps)
  have b1: "int x + int z + int n < 2 ^ 63" using assms(5,6) nn by linarith
  have inv: "handle_inv c n h" using assms(1) by (simp add: idle_def)
  show ?thesis
  proof (cases "length c div n < ?j")
    case True
    then show ?thesis using pfRead_panics [OF inv assms(4,5) b1] by simp
  next
    case False
    then have j: "?j \<le> length c div n" by simp
    have "int ?j * int n \<le> int (length c div n) * int n" using j by (intro mult_right_mono) auto
    also have "\<dots> \<le> int (length c)" by (metis div_times_less_eq_dividend of_nat_le_iff of_nat_mult)
    finally have "(int ?j + 1 + int p) * int n \<le> int (length c) + (int p + 2) * int n" by (simp add: algebra_simps)
    then have "(int ?j + 1 + int p) * int n < 2 ^ 63" using assms(6) by linarith
    from pfRead_returns [OF assms(1-5) b1 j this] False show ?thesis by simp
  qed
qed

theorem pfRead_result_witness:
  "(\<exists>h'. pfRead demo_peerRead [''u@x:1''] 0 3 4 demo_handle = Return (h', ''defg'', None))
   \<and> (\<exists>h'. pfRead demo_peerRead [''u@x:1''] 0 7 2 demo_handle = Return (h', [], None))
   \<and> pfRead demo_peerRead [''u@x:1''] 0 7 4 demo_handle = Panic"
proof -
  note r = pfRead_result [OF demo_idle(1) demo_peers, of _ _ 0]
  show ?thesis using r [of 4 3] r [of 2 7] r [of 4 7] by (auto simp: demo_content_def)
qed


text \<open>
  C10. Copying a stream to its end yields the rest of the file and then stops: for a buffer whose
  length divides the block size and the start offset (as the 32 KiB buffer of \<^verbatim>\<open>io.Copy\<close> does for
  the default block size), \<open>fuel\<close> reads are enough when \<open>fuel\<close> buffers reach past the end.
\<close>

theorem stream_copies_rest:
  assumes "idle c n h" and "honest peerRead known (hash h) n c" and "serving peerRead known (hash h) n (peers h)"
    and "0 < k" and "k dvd n" and "k dvd x" and "x \<le> length c"
    and "int (length c) + int k + (int p + 2) * int n < 2 ^ 63" and "length c < x + fuel * k"
  shows "streamCopy fuel peerRead known p k (int x) h = Some (Return (Inr (drop x c)))"
proof -
  have "0 < fuel" using assms(7,9) by (cases fuel) auto
  then show ?thesis by (intro streamCopy_aligned [OF assms(1-6,8,9) _ assms(7)])
qed

theorem stream_copies_rest_witness:
  "streamCopy 5 demo_peerRead [''u@x:1''] 1 2 2 demo_handle = Some (Return (Inr ''cdefgh''))"
  using stream_copies_rest [OF demo_idle(1) demo_peers, of 2 2 1 5] by (simp add: demo_content_def)

text \<open>
  C22. Readers and fetching goroutines may interleave in any way: with peers that answer
  a read with the right block or an error, a goroutine that ends never closes a missing or an already
  closed channel, and a channel that some
  reader waits for is closed already or belongs to a block whose goroutine still runs, so no
  reader waits for a channel that nobody is going to close.
\<close>

theorem fetch_channels_safe:
  assumes "fetch_reach peerRead known p lim h0 s" and "idle c n h0" and "honest peerRead known (hash h0) n c"
    and "int (length c) + lim + (int p + 2) * int n < 2 ^ 63"
  shows "(\<forall>x \<in> set (inflight (hnd s)). fetchDone x (realFetch peerRead known (hnd s) x) (hnd s) \<noteq> Panic)
    \<and> (\<forall>r offset sz u. waiting s r = Some (offset, sz, u) \<longrightarrow>
         (\<forall>ch \<in> set u. ch \<in> set (closed (hnd s)) \<or>
            (\<exists>k. active (hnd s) ! k = Some ch \<and> int k * int n \<in> set (inflight (hnd s)))))"
proof
  have sys: "sys_inv c n s" and hash: "hash (hnd s) = hash h0" using reach_sys_inv [OF assms] by auto
  then have inv: "handle_inv c n (hnd s)" by (simp add: sys_inv_def)
  note I = handle_invD [OF inv]
  show "\<forall>x \<in> set (inflight (hnd s)). fetchDone x (realFetch peerRead known (hnd s) x) (hnd s) \<noteq> Panic"
  proof
    fix x assume x: "x \<in> set (inflight (hnd s))"
    obtain k where k: "x = int k * int n" using I(10) [OF x] by blast
    have "d = block n c (nat (x div int n))" if "realFetch peerRead known (hnd s) x = Inr d" for d
      using tryPeers_honest [of peerRead known "hnd s" n c k] assms(3) that I(1,2) k hash by (simp add: realFetch_def)
    from fetchDone_result [OF inv x, of "realFetch peerRead known (hnd s) x", OF this] show "fetchDone x (realFetch peerRead known (hnd s) x) (hnd s) \<noteq> Panic" by auto
  qed
  show "\<forall>r offset sz u. waiting s r = Some (offset, sz, u) \<longrightarrow>
         (\<forall>ch \<in> set u. ch \<in> set (closed (hnd s)) \<or>
            (\<exists>k. active (hnd s) ! k = Some ch \<and> int k * int n \<in> set (inflight (hnd s))))"
  proof (intro allI impI ballI)
    fix r offset sz u ch assume "waiting s r = Some (offset, sz, u)" and "ch \<in> set u"
    then have "ch < nextChan (hnd s)" using sys unfolding sys_inv_def by blast
    from I(14) [OF this] I(12) show "ch \<in> set (closed (hnd s)) \<or>
        (\<exists>k. active (hnd s) ! k = Some ch \<and> int k * int n \<in> set (inflight (hnd s)))" by blast
  qed
qed

text \<open>
  C5. What a reader collects while others use the same handle is never wrong data: it is the
  requested slice, or nothing together with the last error of the handle.
\<close>

theorem concurrent_reads_correct:
  assumes "fetch_reach peerRead known p lim h0 s" and "idle c n h0" and "honest peerRead known (hash h0) n c"
    and "int (length c) + lim + (int p + 2) * int n < 2 ^ 63"
    and "0 < z" and "int z \<le> lim" and "x < length c" and "(x + z - 1) div n \<le> length c div n"
  shows "readGrab (int x) (int z) (hnd s) \<in> {Return ([], lastErr (hnd s)), Return (take z (drop x c), None)}"
proof -
  have inv: "handle_inv c n (hnd s)" using reach_sys_inv [OF assms(1-4)] by (simp add: sys_inv_def)
  have "int n \<le> (int p + 2) * int n" by (simp add: algebra_simps)
  then have "int x + int z + int n < 2 ^ 63" using assms(4,6,7) by linarith
  then show ?thesis by (rule readGrab_cached [OF inv assms(5,7) _ assms(8)])
qed

text \<open>
  A run with two readers: the first asks for the second block, the block arrives, the second reader
  asks for the third block, which purges the second one.
\<close>

definition demo_h1 :: pfHandle where
  "demo_h1 = demo_handle\<lparr>active := [None, Some 0, None, None, None], nextChan := 1, inflight := [2]\<rparr>"

definition demo_h2 :: pfHandle where
  "demo_h2 = demo_h1\<lparr>cache := [None, Some ''cd'', None, None, None], closed := [0], inflight := []\<rparr>"

definition demo_h3 :: pfHandle where
  "demo_h3 = demo_h2\<lparr>cache := replicate 5 None, active := [None, None, Some 1, None, None], nextChan := 2, inflight := [4]\<rparr>"

lemma demo_run:
  "readPlan 0 2 2 demo_handle = Return (demo_h1, [0])"
  "fetchDone 2 (realFetch demo_peerRead [''u@x:1''] demo_h1 2) demo_h1 = Return demo_h2"
  "readPlan 0 4 2 demo_h2 = Return (demo_h3, [1])"
  "readGrab 2 2 demo_h2 = Return (''cd'', None)"
  "readGrab 2 2 demo_h3 = Return ([], None)"
  by code_simp+

lemma demo_reach2:
  "fetch_reach demo_peerRead [''u@x:1''] 0 2 demo_handle \<lparr>hnd = demo_h2, waiting = [0 \<mapsto> (2, 2, [0])]\<rparr>"
proof -
  let ?a = "\<lparr>hnd = demo_handle, waiting = Map.empty\<rparr>"
  have "fetch_reach demo_peerRead [''u@x:1''] 0 2 demo_handle ?a" by (rule fetch_reach.start)
  moreover have "fetch_step demo_peerRead [''u@x:1''] 0 2 ?a \<lparr>hnd = demo_h1, waiting = [0 \<mapsto> (2, 2, [0])]\<rparr>"
    using fetch_step.begin_read [of ?a 0 2 2 2 0 demo_h1 "[0]"] demo_run(1) by (simp add: demo_handle_def)
  moreover have "fetch_step demo_peerRead [''u@x:1''] 0 2 \<lparr>hnd = demo_h1, waiting = [0 \<mapsto> (2, 2, [0])]\<rparr>
      \<lparr>hnd = demo_h2, waiting = [0 \<mapsto> (2, 2, [0])]\<rparr>"
    using fetch_step.finish_fetch [of 2 "\<lparr>hnd = demo_h1, waiting = [0 \<mapsto> (2, 2, [0])]\<rparr>" demo_peerRead "[''u@x:1'']" demo_h2 0 2]
      demo_run(2) by (simp add: demo_h1_def)
  ultimately show ?thesis by (meson fetch_reach.step)
qed

lemma demo_reach3:
  "fetch_reach demo_peerRead [''u@x:1''] 0 2 demo_handle \<lparr>hnd = demo_h3, waiting = [0 \<mapsto> (2, 2, [0]), 1 \<mapsto> (4, 2, [1])]\<rparr>"
proof (rule fetch_reach.step [OF demo_reach2])
  show "fetch_step demo_peerRead [''u@x:1''] 0 2 \<lparr>hnd = demo_h2, waiting = [0 \<mapsto> (2, 2, [0])]\<rparr>
      \<lparr>hnd = demo_h3, waiting = [0 \<mapsto> (2, 2, [0]), 1 \<mapsto> (4, 2, [1])]\<rparr>"
    using fetch_step.begin_read [of "\<lparr>hnd = demo_h2, waiting = [0 \<mapsto> (2, 2, [0])]\<rparr>" 1 4 2 2 0 demo_h3 "[1]"] demo_run(3)
    by (simp add: demo_h2_def demo_h1_def demo_handle_def)
qed

lemma demo_bound: "int (length demo_content) + 2 + (int 0 + 2) * int 2 < 2 ^ 63"
  by (simp add: demo_content_def)

theorem fetch_channels_safe_witness:
  "fetchDone 4 (realFetch demo_peerRead [''u@x:1''] demo_h3 4) demo_h3 \<noteq> Panic"
  using fetch_channels_safe [OF demo_reach3 demo_idle(1) demo_peers(1) demo_bound] by (simp add: demo_h3_def)

theorem concurrent_reads_correct_witness:
  "readGrab 2 2 demo_h2 \<in> {Return ([], None), Return (''cd'', None)}"
proof -
  have "lastErr demo_h2 = None" by (simp add: demo_h2_def demo_h1_def demo_handle_def)
  then show ?thesis
    using concurrent_reads_correct [OF demo_reach2 demo_idle(1) demo_peers(1) demo_bound, of 2 2] by (simp add: demo_content_def)
qed

text \<open>
  C36. A reader can lose its data to another one without an error: there is a run with honest peers
  and no failure in which the blocks a reader waited for have all arrived, and yet the reader
  returns an empty result and no error, because a second reader purged the block in between.
\<close>

theorem purge_race_loses_data:
  "\<exists>c n peerRead known h0 s x z.
     idle c n h0 \<and> honest peerRead known (hash h0) n c \<and> serving peerRead known (hash h0) n (peers h0)
     \<and> fetch_reach peerRead known 0 (int z) h0 s
     \<and> waiting s 0 = Some (int x, int z, [0]) \<and> 0 \<in> set (closed (hnd s))
     \<and> take z (drop x c) \<noteq> [] \<and> readGrab (int x) (int z) (hnd s) = Return ([], None)"
proof -
  let ?s = "\<lparr>hnd = demo_h3, waiting = [0 \<mapsto> (2, 2, [0]), 1 \<mapsto> (4, 2, [1])]\<rparr>"
  have "fetch_reach demo_peerRead [''u@x:1''] 0 (int 2) demo_handle ?s" using demo_reach3 by simp
  moreover have "waiting ?s 0 = Some (int 2, int 2, [0])" "0 \<in> set (closed (hnd ?s))"
    by (simp_all add: demo_h3_def demo_h2_def)
  moreover have "take 2 (drop 2 demo_content) \<noteq> []" by (simp add: demo_content_def)
  moreover have "readGrab (int 2) (int 2) (hnd ?s) = Return ([], None)" using demo_run(5) by simp
  ultimately show ?thesis using demo_idle(1) demo_peers by blast
qed

end
