(* ===== verification/Frontend_Lib.thy ===== *)
theory Frontend_Lib
  imports Block_Fetcher Go_Path "HOL-Library.List_Lexorder" "HOL-Library.Char_ord"
begin

text \<open>
  The front ends through which a user sees the shared files: the directory cache that both use
  (\<^verbatim>\<open>felib.go\<close>), the FTP driver (\<^verbatim>\<open>ftp.go\<close>) and the FUSE file system (\<^verbatim>\<open>fuse.go\<close>), which has its own
  copies of the cache functions.

  The calls to the master, \<^verbatim>\<open>GetDir\<close> and \<^verbatim>\<open>GetOwners\<close>, are arguments. The interface of a directory
  cache is the locale \<open>dir_cache\<close>; its two implementations are interpretations of it.
\<close>

section \<open>The directory cache\<close>

type_synonym get_dir = "string \<Rightarrow> go_error + GetDirReply"
type_synonym get_owners = "string \<Rightarrow> go_error + string list"

record FrontendLib =
  fcache :: "(string, GetDirReply) gomap"
  cacheExpiry :: "(string, int) gomap"
  fetcher :: Fetcher

text \<open>The body of the loop of \<^verbatim>\<open>cachePurger\<close>, run at every tick of its timer.\<close>

definition expireEntry :: "string \<times> int \<Rightarrow> FrontendLib \<Rightarrow> FrontendLib" where
  "expireEntry = (\<lambda>(dn, e) f.
     if e \<le> 1 then f\<lparr>cacheExpiry := AList.delete dn (cacheExpiry f), fcache := AList.delete dn (fcache f)\<rparr>
     else f\<lparr>cacheExpiry := AList.update dn (map_get 0 (cacheExpiry f) dn - 1) (cacheExpiry f)\<rparr>)"

definition cachePurger :: "FrontendLib \<Rightarrow> FrontendLib" where
  "cachePurger f = fold expireEntry (cacheExpiry f) f"

definition purgeCacheEntry :: "string \<Rightarrow> FrontendLib \<Rightarrow> FrontendLib" where
  "purgeCacheEntry dn f =
     (if map_of (fcache f) dn \<noteq> None
      then f\<lparr>cacheExpiry := AList.delete dn (cacheExpiry f), fcache := AList.delete dn (fcache f)\<rparr>
      else f)"

definition GetDirCached :: "get_dir \<Rightarrow> string \<Rightarrow> FrontendLib \<Rightarrow> FrontendLib \<times> (go_error + GetDirReply)" where
  "GetDirCached getDir dn0 f =
     (let dn = trim SLASH dn0 in
      case map_of (fcache f) dn of
        Some gdr \<Rightarrow> (f, Inr gdr)
      | None \<Rightarrow>
          (case getDir dn of
             Inl e \<Rightarrow> (f, Inl e)
           | Inr ret \<Rightarrow>
               (f\<lparr>fcache := AList.update dn ret (fcache f), cacheExpiry := AList.update dn 3 (cacheExpiry f)\<rparr>, Inr ret)))"

definition GetFileInfo :: "get_dir \<Rightarrow> string \<Rightarrow> FrontendLib \<Rightarrow> FrontendLib \<times> (go_error + FileInfo)" where
  "GetFileInfo getDir fn0 f =
     (let (dn, fn) = splitPath fn0 in
      case GetDirCached getDir dn f of
        (f', Inl e) \<Rightarrow> (f', Inl e)
      | (f', Inr ret) \<Rightarrow>
          (f', case map_of (Files ret) fn of Some fi \<Rightarrow> Inr fi | None \<Rightarrow> Inl FileNotFound))"

section \<open>The FTP driver\<close>

record FTPFileInfo =
  name :: string
  info :: "FileInfo option"
  isdir :: bool

definition FTPFileInfo_Size :: "FTPFileInfo \<Rightarrow> int go" where
  "FTPFileInfo_Size i = (if isdir i then Return 0 else case info i of None \<Rightarrow> Panic | Some fi \<Rightarrow> Return (Size fi))"

text \<open>The permission bits with \<^verbatim>\<open>os.ModeDir\<close>, bit 31.\<close>

definition FTPFileInfo_Mode :: "FTPFileInfo \<Rightarrow> int" where
  "FTPFileInfo_Mode i = (if isdir i then 292 + 2 ^ 31 else 292)"

definition FTPFileInfo_ModTime :: "FTPFileInfo \<Rightarrow> int go" where
  "FTPFileInfo_ModTime i = (if isdir i then Return 0 else case info i of None \<Rightarrow> Panic | Some fi \<Rightarrow> Return (Mtime fi))"

definition FTPFileInfo_Owner :: "FTPFileInfo \<Rightarrow> string" where "FTPFileInfo_Owner i = ''rufs''"
definition FTPFileInfo_Group :: "FTPFileInfo \<Rightarrow> string" where "FTPFileInfo_Group i = ''rufs''"

text \<open>Logging in to the FTP server takes the user name of the peer and any password.\<close>

definition CheckPasswd :: "string \<Rightarrow> string \<Rightarrow> string \<Rightarrow> bool" where
  "CheckPasswd a username pass \<longleftrightarrow> a = username"

definition newFTPd :: "(go_error + Fetcher) go \<Rightarrow> (go_error + FrontendLib) go" where
  "newFTPd getFetcher =
     go_bind getFetcher (\<lambda>r. Return
       (case r of
          Inl e \<Rightarrow> Inl e
        | Inr ft \<Rightarrow> Inr \<lparr>fcache = [], cacheExpiry = [], fetcher = ft\<rparr>))"

definition Stat :: "get_dir \<Rightarrow> string \<Rightarrow> FrontendLib \<Rightarrow> FrontendLib \<times> (go_error + FTPFileInfo)" where
  "Stat getDir path0 f =
     (let path = trim SLASH path0 in
      if path = [] then (f, Inr \<lparr>name = ''/'', info = None, isdir = True\<rparr>)
      else
        let (dn, fn) = splitPath path in
        case GetDirCached getDir dn f of
          (f', Inl e) \<Rightarrow> (f', Inl e)
        | (f', Inr ret) \<Rightarrow>
            (f',
             case map_of (Files ret) fn of
               Some fi \<Rightarrow> Inr \<lparr>name = fn, info = Some fi, isdir = False\<rparr>
             | None \<Rightarrow>
                 if fn \<in> set (Dirs ret) then Inr \<lparr>name = fn, info = None, isdir = True\<rparr>
                 else Inl FtpFileNotFound))"

definition ChangeDir :: "get_dir \<Rightarrow> string \<Rightarrow> FrontendLib \<Rightarrow> FrontendLib \<times> go_error option" where
  "ChangeDir getDir dir f =
     (case Stat getDir dir f of
        (f', Inl e) \<Rightarrow> (f', Some e)
      | (f', Inr i) \<Rightarrow> (f', if \<not> isdir i then Some NotADirectory else None))"




definition DeleteDir :: "string \<Rightarrow> go_error option" where "DeleteDir d = Some FtpReadonly"
definition DeleteFile :: "string \<Rightarrow> go_error option" where "DeleteFile fn = Some FtpReadonly"
definition Rename :: "string \<Rightarrow> string \<Rightarrow> go_error option" where "Rename old new = Some FtpReadonly"
definition MakeDir :: "string \<Rightarrow> go_error option" where "MakeDir d = Some FtpReadonly"
definition PutFile :: "string \<Rightarrow> string \<Rightarrow> bool \<Rightarrow> int \<times> go_error option" where "PutFile fn r app = (0, Some FtpReadonly)"

text \<open>\<^verbatim>\<open>GetFile\<close>: the size of the file and a handle, which is read as a stream from the offset.\<close>

definition GetFile ::
  "get_dir \<Rightarrow> get_owners \<Rightarrow> (string \<Rightarrow> string \<Rightarrow> go_error option) \<Rightarrow> string \<Rightarrow> int \<Rightarrow> FrontendLib
     \<Rightarrow> (FrontendLib \<times> (go_error + int \<times> pfHandle \<times> int)) go"
where
  "GetFile getDir getOwners dial fn offset f =
     (case GetFileInfo getDir fn f of
        (f', Inl e) \<Rightarrow> Return (f', Inl e)
      | (f', Inr fi) \<Rightarrow>
          (case getOwners (Hash fi) of
             Inl e \<Rightarrow> Return (f', Inl e)
           | Inr owners \<Rightarrow>
               go_bind (NewHandle dial (fetcher f') (Hash fi) (Size fi) owners) (\<lambda>(ft, r).
                 Return (f'\<lparr>fetcher := ft\<rparr>,
                   case r of Inl e \<Rightarrow> Inl e | Inr h \<Rightarrow> Inr (Size fi, h, offset)))))"

section \<open>The FUSE file system\<close>

text \<open>\<^verbatim>\<open>FuseMnt\<close> embeds the cache; \<open>None\<close> as the set of allowed users admits everybody.\<close>

record FuseMnt = FrontendLib +
  allowedUsers :: "nat list option"

datatype fs_node_ref = DirNode string | FileNode string

datatype attr = DirAttr | FileAttr int int

datatype dirent = DtDir string | DtFile string

text \<open>
  \<^verbatim>\<open>newFuseMnt\<close>: \<open>lookupUser\<close> is \<^verbatim>\<open>os/user.Lookup\<close> followed by \<^verbatim>\<open>ParseUint\<close>, whose error is dropped.
\<close>

fun allowed :: "(string \<Rightarrow> go_error + nat) \<Rightarrow> string list \<Rightarrow> go_error + nat list" where
  "allowed lookupUser [] = Inr []"
| "allowed lookupUser (u # us) =
     (case lookupUser u of
        Inl e \<Rightarrow> Inl e
      | Inr uid \<Rightarrow> (case allowed lookupUser us of Inl e \<Rightarrow> Inl e | Inr l \<Rightarrow> Inr (uid # l)))"

definition newFuseMnt :: "(string \<Rightarrow> go_error + nat) \<Rightarrow> flags \<Rightarrow> (go_error + Fetcher) go \<Rightarrow> (go_error + FuseMnt) go" where
  "newFuseMnt lookupUser fl getFetcher =
     (case (if allowUsers fl = [] then Inr None
            else case allowed lookupUser (splitOn (CHR '','') (allowUsers fl)) of Inl e \<Rightarrow> Inl e | Inr l \<Rightarrow> Inr (Some l)) of
        Inl e \<Rightarrow> Return (Inl e)
      | Inr us \<Rightarrow>
          go_bind getFetcher (\<lambda>r. Return
            (case r of
               Inl e \<Rightarrow> Inl e
             | Inr ft \<Rightarrow> Inr \<lparr>fcache = [], cacheExpiry = [], fetcher = ft, allowedUsers = us\<rparr>)))"

definition fuse_cachePurger :: "FuseMnt \<Rightarrow> FuseMnt" where
  "fuse_cachePurger f =
     fold (\<lambda>(dn, e) f.
       if e \<le> 1 then f\<lparr>cacheExpiry := AList.delete dn (cacheExpiry f), fcache := AList.delete dn (fcache f)\<rparr>
       else f\<lparr>cacheExpiry := AList.update dn (map_get 0 (cacheExpiry f) dn - 1) (cacheExpiry f)\<rparr>)
       (cacheExpiry f) f"

definition fuse_purgeCacheEntry :: "string \<Rightarrow> FuseMnt \<Rightarrow> FuseMnt" where
  "fuse_purgeCacheEntry dn f =
     (if map_of (fcache f) dn \<noteq> None
      then f\<lparr>cacheExpiry := AList.delete dn (cacheExpiry f), fcache := AList.delete dn (fcache f)\<rparr>
      else f)"

definition fuse_GetDirCached :: "get_dir \<Rightarrow> string \<Rightarrow> FuseMnt \<Rightarrow> FuseMnt \<times> (go_error + GetDirReply)" where
  "fuse_GetDirCached getDir dn0 f =
     (let dn = trim SLASH dn0 in
      case map_of (fcache f) dn of
        Some gdr \<Rightarrow> (f, Inr gdr)
      | None \<Rightarrow>
          (case getDir dn of
             Inl e \<Rightarrow> (f, Inl (if e = ENOENT then FuseENOENT else e))
           | Inr ret \<Rightarrow>
               (f\<lparr>fcache := AList.update dn ret (fcache f), cacheExpiry := AList.update dn 3 (cacheExpiry f)\<rparr>, Inr ret)))"

definition fuse_GetFileInfo :: "get_dir \<Rightarrow> string \<Rightarrow> FuseMnt \<Rightarrow> FuseMnt \<times> (go_error + FileInfo)" where
  "fuse_GetFileInfo getDir fn0 f =
     (let (dn, fn) = splitPath fn0 in
      case fuse_GetDirCached getDir dn f of
        (f', Inl e) \<Rightarrow> (f', Inl e)
      | (f', Inr ret) \<Rightarrow> (f', case map_of (Files ret) fn of Some fi \<Rightarrow> Inr fi | None \<Rightarrow> Inl FuseENOENT))"

definition Root :: fs_node_ref where
  "Root = DirNode []"

definition checkAccess :: "FuseMnt \<Rightarrow> nat \<Rightarrow> go_error option" where
  "checkAccess f uid =
     (case allowedUsers f of
        None \<Rightarrow> None
      | Some us \<Rightarrow> if uid \<notin> set us then Some FuseEPERM else None)"

definition Access :: "FuseMnt \<Rightarrow> nat \<Rightarrow> go_error option" where
  "Access f uid = checkAccess f uid"

text \<open>\<^verbatim>\<open>Attr\<close>: the attribute is the mode, with size and modification time of a file; the size is taken modulo \<open>2^64\<close>.\<close>

definition Attr :: "get_dir \<Rightarrow> string \<Rightarrow> FuseMnt \<Rightarrow> FuseMnt \<times> (go_error + attr)" where
  "Attr getDir path f =
     (if path = [] then (f, Inr DirAttr)
      else
        let (dn, fn) = splitPath path in
        case fuse_GetDirCached getDir dn f of
          (f', Inl e) \<Rightarrow> (f', Inl e)
        | (f', Inr ret) \<Rightarrow>
            (f',
             case map_of (Files ret) fn of
               Some fi \<Rightarrow> Inr (FileAttr (Size fi mod 2 ^ 64) (Mtime fi))
             | None \<Rightarrow> if fn \<in> set (Dirs ret) then Inr DirAttr else Inl FuseENOENT))"

definition Lookup :: "get_dir \<Rightarrow> string \<Rightarrow> string \<Rightarrow> FuseMnt \<Rightarrow> FuseMnt \<times> (go_error + fs_node_ref)" where
  "Lookup getDir dpath nm f =
     (let path = joinPath [dpath, nm] in
      case fuse_GetDirCached getDir dpath f of
        (f', Inl e) \<Rightarrow> (f', Inl e)
      | (f', Inr ret) \<Rightarrow>
          if map_of (Files ret) nm \<noteq> None then (f', Inr (FileNode path))
          else if nm \<in> set (Dirs ret) then (f', Inr (DirNode path))
          else (fuse_purgeCacheEntry dpath f', Inl FuseENOENT))"

definition ReadDirAll :: "get_dir \<Rightarrow> string \<Rightarrow> FuseMnt \<Rightarrow> FuseMnt \<times> (go_error + dirent list)" where
  "ReadDirAll getDir dpath f =
     (case fuse_GetDirCached getDir dpath f of
        (f', Inl e) \<Rightarrow> (f', Inl e)
      | (f', Inr ret) \<Rightarrow> (f', Inr (map DtDir (Dirs ret) @ map (DtFile \<circ> fst) (Files ret))))"

definition Open ::
  "get_dir \<Rightarrow> get_owners \<Rightarrow> (string \<Rightarrow> string \<Rightarrow> go_error option) \<Rightarrow> nat \<Rightarrow> string \<Rightarrow> FuseMnt
     \<Rightarrow> (FuseMnt \<times> (go_error + pfHandle)) go"
where
  "Open getDir getOwners dial uid path f =
     (case checkAccess f uid of
        Some e \<Rightarrow> Return (f, Inl e)
      | None \<Rightarrow>
          let (f1, r) = fuse_GetFileInfo getDir path f;
              owners = (case r of
                          Inl e \<Rightarrow> Inl e
                        | Inr fi \<Rightarrow> (case getOwners (Hash fi) of Inl e \<Rightarrow> Inl e | Inr os \<Rightarrow> Inr (fi, os)))
          in case owners of
               Inl e \<Rightarrow>
                 Return (fuse_purgeCacheEntry path f1, Inl (if e = ENOENT then FuseENOENT else e))
             | Inr (fi, os) \<Rightarrow>
                 go_bind (NewHandle dial (fetcher f1) (Hash fi) (Size fi) os) (\<lambda>(ft, h).
                   Return (f1\<lparr>fetcher := ft\<rparr>, h)))"

text \<open>\<^verbatim>\<open>Read\<close> of an open file translates the error of an interrupted wait.\<close>

definition fuse_Read :: "string \<times> go_error option \<Rightarrow> string \<times> go_error option" where
  "fuse_Read r = (case r of (d, e) \<Rightarrow> (d, if e = Some ErrInterrupted then Some FuseEINTR else e))"

text \<open>The operations that would change something are not implemented.\<close>

definition Setattr :: "go_error option" where "Setattr = Some FuseENOSYS"
definition Getxattr :: "go_error option" where "Getxattr = Some FuseENOSYS"
definition Setxattr :: "go_error option" where "Setxattr = Some FuseENOSYS"
definition Create :: "go_error option" where "Create = Some FuseENOSYS"
definition Mkdir :: "go_error option" where "Mkdir = Some FuseENOSYS"
definition Remove :: "go_error option" where "Remove = Some FuseENOSYS"
definition Write :: "go_error option" where "Write = Some FuseENOSYS"
definition Fsync :: "go_error option" where "Fsync = Some FuseENOSYS"

text \<open>
  Mounting: other users get through the kernel to the file system only when a list of allowed users
  was given. \<^verbatim>\<open>Run\<close> reports the first failure of mounting, of serving and of the mount itself; an
  error of closing the connection is reported when there is no other.
\<close>

datatype mount_option = FSName string | Subtype string | VolumeName string | ReadOnly | MaxReadahead nat | AllowOther

definition mountOptions :: "FuseMnt \<Rightarrow> mount_option list" where
  "mountOptions f =
     [FSName ''rufs'', Subtype ''rufs'', VolumeName ''rufs'', ReadOnly, MaxReadahead (1024 * 1024)] @
     (case allowedUsers f of None \<Rightarrow> [] | Some us \<Rightarrow> if length us \<noteq> 0 then [AllowOther] else [])"

definition fuse_Run :: "go_error option \<Rightarrow> go_error option \<Rightarrow> go_error option \<Rightarrow> go_error option \<Rightarrow> go_error option" where
  "fuse_Run mountErr serveErr connErr closeErr' =
     (case mountErr of
        Some e \<Rightarrow> Some e
      | None \<Rightarrow>
          let retErr = (case serveErr of Some e \<Rightarrow> Some e | None \<Rightarrow> connErr)
          in if closeErr' \<noteq> None \<and> retErr = None then closeErr' else retErr)"


section \<open>The contract of a directory cache\<close>

text \<open>
  \<open>entry\<close> and \<open>expiry\<close> read the cache. A hit is answered from the cache and does not renew the
  entry; a miss asks the master and stores a successful answer for three ticks; a tick counts the
  entries down and drops those at one.
\<close>

datatype cache_event = Get get_dir string | Tick

fun cacheRun :: "(get_dir \<Rightarrow> string \<Rightarrow> 's \<Rightarrow> 's \<times> (go_error + GetDirReply)) \<Rightarrow> ('s \<Rightarrow> 's) \<Rightarrow> cache_event list \<Rightarrow> 's \<Rightarrow> 's" where
  "cacheRun get tick [] s = s"
| "cacheRun get tick (Get g dn # es) s = cacheRun get tick es (fst (get g dn s))"
| "cacheRun get tick (Tick # es) s = cacheRun get tick es (tick s)"

locale dir_cache =
  fixes get :: "get_dir \<Rightarrow> string \<Rightarrow> 's \<Rightarrow> 's \<times> (go_error + GetDirReply)" and tick :: "'s \<Rightarrow> 's"
    and entry :: "'s \<Rightarrow> string \<Rightarrow> GetDirReply option" and expiry :: "'s \<Rightarrow> string \<Rightarrow> int option" and ok :: "'s \<Rightarrow> bool"
  assumes hit: "ok s \<Longrightarrow> entry s (trim SLASH dn) = Some r \<Longrightarrow> get g dn s = (s, Inr r)"
    and miss: "ok s \<Longrightarrow> entry s (trim SLASH dn) = None \<Longrightarrow> g (trim SLASH dn) = Inr r \<Longrightarrow>
      \<exists>s'. get g dn s = (s', Inr r) \<and> ok s' \<and> entry s' = (entry s)(trim SLASH dn \<mapsto> r) \<and> expiry s' = (expiry s)(trim SLASH dn \<mapsto> 3)"
    and fail: "ok s \<Longrightarrow> entry s (trim SLASH dn) = None \<Longrightarrow> g (trim SLASH dn) = Inl e \<Longrightarrow> \<exists>e'. get g dn s = (s, Inl e')"
    and tick: "ok s \<Longrightarrow> ok (tick s) \<and>
      entry (tick s) d = (if \<exists>e > 1. expiry s d = Some e then entry s d else None) \<and>
      expiry (tick s) d = (if \<exists>e > 1. expiry s d = Some e then Some (the (expiry s d) - 1) else None)"
    and dom: "ok s \<Longrightarrow> (entry s d = None \<longleftrightarrow> expiry s d = None) \<and> (\<forall>e. expiry s d = Some e \<longrightarrow> 1 \<le> e \<and> e \<le> 3)"
begin

lemma get_ok:
  assumes "ok s"
  shows "ok (fst (get g dn s))"
    and "entry (fst (get g dn s)) d = Some r \<Longrightarrow>
      (d = trim SLASH dn \<and> g d = Inr r) \<or> (entry s d = Some r \<and> expiry (fst (get g dn s)) d = expiry s d)"
proof -
  let ?d = "trim SLASH dn"
  have "ok (fst (get g dn s)) \<and> (entry (fst (get g dn s)) d = Some r \<longrightarrow>
      (d = ?d \<and> g d = Inr r) \<or> (entry s d = Some r \<and> expiry (fst (get g dn s)) d = expiry s d))"
  proof (cases "entry s ?d")
    case (Some x)
    then show ?thesis using hit [OF assms Some, of g] assms by simp
  next
    case None
    show ?thesis
    proof (cases "g ?d")
      case (Inl e)
      then show ?thesis using fail [of s dn g e] None assms by auto
    next
      case (Inr x)
      then show ?thesis using miss [of s dn g x] None assms by (auto split: if_splits)
    qed
  qed
  then show "ok (fst (get g dn s))"
    and "entry (fst (get g dn s)) d = Some r \<Longrightarrow>
      (d = trim SLASH dn \<and> g d = Inr r) \<or> (entry s d = Some r \<and> expiry (fst (get g dn s)) d = expiry s d)" by auto
qed

lemma run_origin:
  assumes "ok s" and "entry (cacheRun get tick es s) d = Some r"
  shows "ok (cacheRun get tick es s) \<and>
    ((\<exists>g dn. Get g dn \<in> set es \<and> trim SLASH dn = d \<and> g d = Inr r) \<or>
     (entry s d = Some r \<and> (\<exists>e. expiry s d = Some e \<and> expiry (cacheRun get tick es s) d = Some (e - int (length (filter (\<lambda>x. x = Tick) es))))))"
  using assms
proof (induction es arbitrary: s)
  case Nil
  then show ?case using dom [OF Nil.prems(1), of d] by (auto split: option.splits)
next
  case (Cons x es)
  show ?case
  proof (cases x)
    case (Get g dn)
    let ?s = "fst (get g dn s)"
    have okd: "ok ?s" using get_ok(1) [OF Cons.prems(1)] .
    have "entry (cacheRun get tick es ?s) d = Some r" using Cons.prems(2) Get by simp
    note IH = Cons.IH [OF okd this]
    show ?thesis
    proof (cases "d = trim SLASH dn \<and> g d = Inr r")
      case True
      then have "\<exists>g dn. Get g dn \<in> set (x # es) \<and> trim SLASH dn = d \<and> g d = Inr r" using Get by auto
      then show ?thesis using IH Get by simp
    next
      case False
      then show ?thesis using IH get_ok(2) [OF Cons.prems(1), of g dn d r] Get by auto
    qed
  next
    case Tick
    let ?s = "tick s"
    have t: "ok ?s" "entry ?s d = (if \<exists>e > 1. expiry s d = Some e then entry s d else None)"
      "expiry ?s d = (if \<exists>e > 1. expiry s d = Some e then Some (the (expiry s d) - 1) else None)"
      using tick [OF Cons.prems(1), of d] by auto
    have "entry (cacheRun get tick es ?s) d = Some r" using Cons.prems(2) Tick by simp
    from Cons.IH [OF t(1) this] show ?thesis using t(2,3) Tick by (auto split: if_splits)
  qed
qed

text \<open>After three ticks every cached answer was given by the master in the meantime.\<close>

lemma fresh_after_three_ticks:
  assumes "ok s" and "3 \<le> length (filter (\<lambda>x. x = Tick) es)" and "entry (cacheRun get tick es s) d = Some r"
  shows "\<exists>g dn. Get g dn \<in> set es \<and> trim SLASH dn = d \<and> g d = Inr r"
proof (rule ccontr)
  assume "\<not> ?thesis"
  with run_origin [OF assms(1,3)] obtain e where ok: "ok (cacheRun get tick es s)" and e: "expiry s d = Some e"
    and e': "expiry (cacheRun get tick es s) d = Some (e - int (length (filter (\<lambda>x. x = Tick) es)))" by blast
  have "e \<le> 3" using dom [OF assms(1), of d] e by auto
  moreover have "1 \<le> e - int (length (filter (\<lambda>x. x = Tick) es))" using dom [OF ok, of d] e' by auto
  ultimately show False using assms(2) by linarith
qed

end

section \<open>Both caches keep the contract\<close>

definition cache_ok :: "'a FrontendLib_scheme \<Rightarrow> bool" where
  "cache_ok f \<longleftrightarrow> wf_map (cacheExpiry f) \<and>
     (\<forall>d. (map_of (fcache f) d = None \<longleftrightarrow> map_of (cacheExpiry f) d = None)
        \<and> (\<forall>e. map_of (cacheExpiry f) d = Some e \<longrightarrow> 1 \<le> e \<and> e \<le> 3))"

lemma expire_all:
  assumes "wf_map (cacheExpiry f)"
    and step: "\<And>dn e f. h dn e f = (if e \<le> 1
        then f\<lparr>cacheExpiry := AList.delete dn (cacheExpiry f), fcache := AList.delete dn (fcache f)\<rparr>
        else f\<lparr>cacheExpiry := AList.update dn (map_get 0 (cacheExpiry f) dn - 1) (cacheExpiry f)\<rparr>)"
  shows "wf_map (cacheExpiry (fold (\<lambda>(dn, e). h dn e) (cacheExpiry f) f))"
    and "map_of (fcache (fold (\<lambda>(dn, e). h dn e) (cacheExpiry f) f)) d =
      (case map_of (cacheExpiry f) d of Some e \<Rightarrow> if e \<le> 1 then None else map_of (fcache f) d | None \<Rightarrow> map_of (fcache f) d)"
    and "map_of (cacheExpiry (fold (\<lambda>(dn, e). h dn e) (cacheExpiry f) f)) d =
      (case map_of (cacheExpiry f) d of Some e \<Rightarrow> if e \<le> 1 then None else Some (e - 1) | None \<Rightarrow> None)"
proof -
  let ?get = "\<lambda>f d. (map_of (fcache f) d, map_of (cacheExpiry f) d)"
  let ?g = "\<lambda>d e old. if e \<le> 1 then (None, None) else (fst old, Some ((case snd old of None \<Rightarrow> 0 | Some v \<Rightarrow> v) - 1))"
  have "wf_map (cacheExpiry (h dn e f)) \<and> ?get (h dn e f) = (?get f)(dn := ?g dn e (?get f dn))"
    if "wf_map (cacheExpiry f)" for dn e f
    using that by (auto simp: step fun_eq_iff map_get_def distinct_update distinct_delete)
  from fold_pointwise [of "\<lambda>f. wf_map (cacheExpiry f)" h ?get ?g, OF this assms(1) assms(1)]
  have all: "wf_map (cacheExpiry (fold (\<lambda>(dn, e). h dn e) (cacheExpiry f) f))"
    "?get (fold (\<lambda>(dn, e). h dn e) (cacheExpiry f) f) d =
      (case map_of (cacheExpiry f) d of None \<Rightarrow> ?get f d | Some e \<Rightarrow> ?g d e (?get f d))" for d by auto
  show "wf_map (cacheExpiry (fold (\<lambda>(dn, e). h dn e) (cacheExpiry f) f))" by (rule all(1))
  show "map_of (fcache (fold (\<lambda>(dn, e). h dn e) (cacheExpiry f) f)) d =
      (case map_of (cacheExpiry f) d of Some e \<Rightarrow> if e \<le> 1 then None else map_of (fcache f) d | None \<Rightarrow> map_of (fcache f) d)"
    "map_of (cacheExpiry (fold (\<lambda>(dn, e). h dn e) (cacheExpiry f) f)) d =
      (case map_of (cacheExpiry f) d of Some e \<Rightarrow> if e \<le> 1 then None else Some (e - 1) | None \<Rightarrow> None)"
    using all(2) [of d] by (auto split: option.splits if_splits)
qed


lemma GetDirCached_ok: "cache_ok f \<Longrightarrow> cache_ok (f\<lparr>fcache := AList.update d r (fcache f), cacheExpiry := AList.update d 3 (cacheExpiry f)\<rparr>)"
  by (auto simp: cache_ok_def distinct_update)

lemma cachePurger_tick:
  assumes "cache_ok (f :: 'a FrontendLib_scheme)" and wf: "wf_map (cacheExpiry f')"
    and c: "\<And>d. map_of (fcache f') d =
      (case map_of (cacheExpiry f) d of Some e \<Rightarrow> if e \<le> 1 then None else map_of (fcache f) d | None \<Rightarrow> map_of (fcache f) d)"
    and e: "\<And>d. map_of (cacheExpiry f') d =
      (case map_of (cacheExpiry f) d of Some e \<Rightarrow> if e \<le> 1 then None else Some (e - 1) | None \<Rightarrow> None)"
  shows "cache_ok f' \<and>
      map_of (fcache f') d = (if \<exists>e > 1. map_of (cacheExpiry f) d = Some e then map_of (fcache f) d else None) \<and>
      map_of (cacheExpiry f') d = (if \<exists>e > 1. map_of (cacheExpiry f) d = Some e then Some (the (map_of (cacheExpiry f) d) - 1) else None)"
proof -
  have dom: "map_of (fcache f) d = None \<longleftrightarrow> map_of (cacheExpiry f) d = None" for d using assms(1) by (simp add: cache_ok_def)
  have rng: "1 \<le> x \<and> x \<le> 3" if "map_of (cacheExpiry f) d = Some x" for d x using assms(1) that by (simp add: cache_ok_def)
  have "cache_ok f'" unfolding cache_ok_def
  proof (intro conjI allI impI)
    fix d x
    show "map_of (fcache f') d = None \<longleftrightarrow> map_of (cacheExpiry f') d = None"
      using c [of d] e [of d] dom [of d] by (cases "map_of (cacheExpiry f) d") auto
    show "1 \<le> x" "x \<le> 3" if "map_of (cacheExpiry f') d = Some x"
      using e [of d] rng [of d] that by (auto split: option.splits if_splits)
  qed (rule wf)
  then show ?thesis using c [of d] e [of d] dom [of d] by (auto split: option.splits)
qed

interpretation felib: dir_cache GetDirCached cachePurger "\<lambda>f. map_of (fcache f)" "\<lambda>f. map_of (cacheExpiry f)" cache_ok
proof
  fix s :: FrontendLib and dn d r g e
  assume ok: "cache_ok s"
  show "GetDirCached g dn s = (s, Inr r)" if "map_of (fcache s) (trim SLASH dn) = Some r"
    using that by (simp add: GetDirCached_def)
  show "\<exists>s'. GetDirCached g dn s = (s', Inr r) \<and> cache_ok s' \<and> map_of (fcache s') = (map_of (fcache s))(trim SLASH dn \<mapsto> r) \<and>
      map_of (cacheExpiry s') = (map_of (cacheExpiry s))(trim SLASH dn \<mapsto> 3)"
    if "map_of (fcache s) (trim SLASH dn) = None" "g (trim SLASH dn) = Inr r"
    using that GetDirCached_ok [OF ok] by (simp add: GetDirCached_def Let_def update_conv')
  show "\<exists>e'. GetDirCached g dn s = (s, Inl e')" if "map_of (fcache s) (trim SLASH dn) = None" "g (trim SLASH dn) = Inl e"
    using that by (simp add: GetDirCached_def)
  show "(map_of (fcache s) d = None \<longleftrightarrow> map_of (cacheExpiry s) d = None)
      \<and> (\<forall>e. map_of (cacheExpiry s) d = Some e \<longrightarrow> 1 \<le> e \<and> e \<le> 3)" using ok by (simp add: cache_ok_def)
  have wf: "wf_map (cacheExpiry s)" using ok by (simp add: cache_ok_def)
  have purge: "cachePurger s = fold (\<lambda>(dn, e). (\<lambda>dn e. expireEntry (dn, e)) dn e) (cacheExpiry s) s"
    by (simp add: cachePurger_def)
  show "cache_ok (cachePurger s) \<and>
      map_of (fcache (cachePurger s)) d = (if \<exists>e > 1. map_of (cacheExpiry s) d = Some e then map_of (fcache s) d else None) \<and>
      map_of (cacheExpiry (cachePurger s)) d =
        (if \<exists>e > 1. map_of (cacheExpiry s) d = Some e then Some (the (map_of (cacheExpiry s) d) - 1) else None)"
    unfolding purge
    by (rule cachePurger_tick [OF ok]) (intro expire_all [OF wf]; simp add: expireEntry_def)+
qed

interpretation fuse: dir_cache fuse_GetDirCached fuse_cachePurger "\<lambda>f. map_of (fcache f)" "\<lambda>f. map_of (cacheExpiry f)" cache_ok
proof
  fix s :: FuseMnt and dn d r g e
  assume ok: "cache_ok s"
  show "fuse_GetDirCached g dn s = (s, Inr r)" if "map_of (fcache s) (trim SLASH dn) = Some r"
    using that by (simp add: fuse_GetDirCached_def)
  show "\<exists>s'. fuse_GetDirCached g dn s = (s', Inr r) \<and> cache_ok s' \<and> map_of (fcache s') = (map_of (fcache s))(trim SLASH dn \<mapsto> r) \<and>
      map_of (cacheExpiry s') = (map_of (cacheExpiry s))(trim SLASH dn \<mapsto> 3)"
    if "map_of (fcache s) (trim SLASH dn) = None" "g (trim SLASH dn) = Inr r"
    using that GetDirCached_ok [OF ok] by (simp add: fuse_GetDirCached_def Let_def update_conv')
  show "\<exists>e'. fuse_GetDirCached g dn s = (s, Inl e')" if "map_of (fcache s) (trim SLASH dn) = None" "g (trim SLASH dn) = Inl e"
    using that by (simp add: fuse_GetDirCached_def)
  show "(map_of (fcache s) d = None \<longleftrightarrow> map_of (cacheExpiry s) d = None)
      \<and> (\<forall>e. map_of (cacheExpiry s) d = Some e \<longrightarrow> 1 \<le> e \<and> e \<le> 3)" using ok by (simp add: cache_ok_def)
  have wf: "wf_map (cacheExpiry s)" using ok by (simp add: cache_ok_def)
  show "cache_ok (fuse_cachePurger s) \<and>
      map_of (fcache (fuse_cachePurger s)) d = (if \<exists>e > 1. map_of (cacheExpiry s) d = Some e then map_of (fcache s) d else None) \<and>
      map_of (cacheExpiry (fuse_cachePurger s)) d =
        (if \<exists>e > 1. map_of (cacheExpiry s) d = Some e then Some (the (map_of (cacheExpiry s) d) - 1) else None)"
    unfolding fuse_cachePurger_def
    by (rule cachePurger_tick [OF ok]) (intro expire_all [OF wf]; simp)+
qed


section \<open>Paths of entries\<close>

definition clean_dir :: "string list \<Rightarrow> bool" where
  "clean_dir ds \<longleftrightarrow> (\<forall>x \<in> set ds. plain_part x)"

lemma trim_dir:
  assumes "clean_dir ds"
  shows "trim SLASH (joinWith ''/'' ds) = joinWith ''/'' ds" and "trim SLASH (joinWith ''/'' ds @ ''/'') = joinWith ''/'' ds"
proof -
  show t: "trim SLASH (joinWith ''/'' ds) = joinWith ''/'' ds"
    using assms by (intro trim_joinWith) (auto simp: clean_dir_def plain_part_def)
  show "trim SLASH (joinWith ''/'' ds @ ''/'') = joinWith ''/'' ds"
  proof (cases "ds = []")
    case True
    then show ?thesis by (simp add: trim_def)
  next
    case False
    then have e: "joinWith ''/'' ds \<noteq> []" "hd (joinWith ''/'' ds) \<noteq> SLASH"
      using joinWith_ends [of ds SLASH] assms by (auto simp: clean_dir_def plain_part_def)
    then have "dropWhile (\<lambda>x. x = SLASH) (joinWith ''/'' ds @ ''/'') = joinWith ''/'' ds @ ''/''"
      "dropWhile (\<lambda>x. x = SLASH) (joinWith ''/'' ds) = joinWith ''/'' ds"
      by (cases "joinWith ''/'' ds"; simp)+
    then show ?thesis using t by (simp add: trim_def)
  qed
qed

lemma entry_path:
  assumes "clean_dir ds" and "plain_part nm"
  shows "splitPath (joinPath [joinWith ''/'' ds, nm]) = (if ds = [] then [] else joinWith ''/'' ds @ ''/'', nm)"
    and "joinPath [joinWith ''/'' ds, nm] = joinWith ''/'' (ds @ [nm])"
    and "trim SLASH (joinPath [joinWith ''/'' ds, nm]) = joinPath [joinWith ''/'' ds, nm]"
    and "joinPath [joinWith ''/'' ds, nm] \<noteq> []"
proof -
  have nm: "nm \<noteq> []" "SLASH \<notin> set nm" using assms(2) by (auto simp: plain_part_def)
  have all: "clean_dir (ds @ [nm])" using assms by (simp add: clean_dir_def)
  have j: "joinPath [joinWith ''/'' ds, nm] = joinWith ''/'' (ds @ [nm])"
  proof (cases "ds = []")
    case True
    then show ?thesis using cleanPath_plain [of "[nm]"] assms(2) nm(1) by (simp add: joinPath_def)
  next
    case False
    then have "joinWith ''/'' ds \<noteq> []" using joinWith_ends [of ds SLASH] assms(1) by (auto simp: clean_dir_def plain_part_def)
    then show ?thesis using cleanPath_plain [of "ds @ [nm]"] all False by (simp add: joinPath_def joinWith_snoc clean_dir_def)
  qed
  show "joinPath [joinWith ''/'' ds, nm] = joinWith ''/'' (ds @ [nm])" by (rule j)
  show "splitPath (joinPath [joinWith ''/'' ds, nm]) = (if ds = [] then [] else joinWith ''/'' ds @ ''/'', nm)"
    using splitPath_joined [of ds nm] splitPath_plain [of nm] nm(2) unfolding j by simp
  show "trim SLASH (joinPath [joinWith ''/'' ds, nm]) = joinPath [joinWith ''/'' ds, nm]"
    unfolding j by (rule trim_dir [OF all])
  show "joinPath [joinWith ''/'' ds, nm] \<noteq> []"
    using joinWith_ends [of "ds @ [nm]" SLASH] all unfolding j by (auto simp: clean_dir_def plain_part_def)
qed

lemma trim_split_dir: "clean_dir ds \<Longrightarrow> trim SLASH (if ds = [] then [] else joinWith ''/'' ds @ ''/'') = joinWith ''/'' ds"
  using trim_dir(2) [of ds] by (simp add: trim_def)

lemma GetDirCached_again:
  "GetDirCached g dn f = (f', Inr r) \<Longrightarrow> map_of (fcache f') (trim SLASH dn) = Some r"
  "fuse_GetDirCached g dn m = (m', Inr r) \<Longrightarrow> map_of (fcache m') (trim SLASH dn) = Some r"
  by (auto simp: GetDirCached_def fuse_GetDirCached_def Let_def split: option.splits sum.splits)



section \<open>Properties\<close>

definition demo_reply :: GetDirReply where
  "demo_reply = \<lparr>Dirs = [''y'', ''x''], Files = [(''f'', \<lparr>Size = 8, Hash = ''h'', Mtime = 5\<rparr>)]\<rparr>"

definition demo_getDir :: get_dir where
  "demo_getDir dn = (if dn = ''u'' then Inr demo_reply else Inl ENOENT)"

definition demo_fe :: FrontendLib where
  "demo_fe = \<lparr>fcache = [], cacheExpiry = [], fetcher = demo_fetcher\<rparr>"

definition demo_mnt :: FuseMnt where
  "demo_mnt = \<lparr>fcache = [], cacheExpiry = [], fetcher = demo_fetcher, allowedUsers = Some [1000]\<rparr>"

text \<open>
  C23. An answer of the directory cache is never older than three ticks of its timer: whatever
  requests and ticks happened, once there were three ticks, every entry that is still cached was
  given by the master in answer to one of these requests. This holds for the cache of the FTP
  server and for the separate copy of it in the FUSE file system.
\<close>

theorem caches_fresh_after_three_ticks:
  assumes "3 \<le> length (filter (\<lambda>x. x = Tick) es)"
  shows "(cache_ok f \<longrightarrow> map_of (fcache (cacheRun GetDirCached cachePurger es f)) d = Some r \<longrightarrow>
           (\<exists>g dn. Get g dn \<in> set es \<and> trim SLASH dn = d \<and> g d = Inr r))
       \<and> (cache_ok m \<longrightarrow> map_of (fcache (cacheRun fuse_GetDirCached fuse_cachePurger es m)) d = Some r \<longrightarrow>
           (\<exists>g dn. Get g dn \<in> set es \<and> trim SLASH dn = d \<and> g d = Inr r))"
  using felib.fresh_after_three_ticks [OF _ assms] fuse.fresh_after_three_ticks [OF _ assms] by blast

lemma demo_fe_run:
  "map_of (fcache (cacheRun GetDirCached cachePurger [Tick, Get demo_getDir ''/u/'', Tick, Tick] demo_fe)) ''u'' = Some demo_reply"
  by code_simp

theorem caches_fresh_after_three_ticks_witness:
  "\<exists>g dn. Get g dn \<in> set [Tick, Get demo_getDir ''/u/'', Tick, Tick] \<and> trim SLASH dn = ''u'' \<and> g ''u'' = Inr demo_reply"
proof -
  have "cache_ok demo_fe" by (simp add: cache_ok_def demo_fe_def)
  moreover have "3 \<le> length (filter (\<lambda>x. x = Tick) [Tick, Get demo_getDir ''/u/'', Tick, Tick])" by simp
  ultimately show ?thesis using caches_fresh_after_three_ticks demo_fe_run by blast
qed

text \<open>
  The FUSE operations agree with each other: the node that \<^verbatim>\<open>Lookup\<close> returns for a name has the
  attributes that the directory listing gives the name, a file's size and time or a directory.
\<close>

theorem Lookup_Attr_agree:
  assumes "clean_dir ds" and "plain_part nm" and "Lookup getDir (joinWith ''/'' ds) nm f = (f', Inr node)"
  shows "\<exists>ret. fuse_GetDirCached getDir (joinWith ''/'' ds) f = (f', Inr ret) \<and>
    (case node of
       FileNode p \<Rightarrow> \<exists>fi. map_of (Files ret) nm = Some fi \<and> Attr getDir p f' = (f', Inr (FileAttr (Size fi mod 2 ^ 64) (Mtime fi)))
     | DirNode p \<Rightarrow> nm \<in> set (Dirs ret) \<and> Attr getDir p f' = (f', Inr DirAttr))"
proof -
  let ?d = "joinWith ''/'' ds"
  obtain ret where ret: "fuse_GetDirCached getDir ?d f = (f', Inr ret)"
    and node: "node = (if map_of (Files ret) nm \<noteq> None then FileNode (joinPath [?d, nm]) else DirNode (joinPath [?d, nm]))"
    and dir: "map_of (Files ret) nm = None \<longrightarrow> nm \<in> set (Dirs ret)"
    using assms(3) by (auto simp: Lookup_def Let_def split: prod.splits sum.splits if_splits)
  have "map_of (fcache f') ?d = Some ret" using GetDirCached_again(2) [OF ret] trim_dir(1) [OF assms(1)] by simp
  then have cached: "fuse_GetDirCached getDir (if ds = [] then [] else ?d @ ''/'') f' = (f', Inr ret)"
    using trim_split_dir [OF assms(1)] by (simp add: fuse_GetDirCached_def Let_def)
  have "Attr getDir (joinPath [?d, nm]) f' = (f', case map_of (Files ret) nm of
      Some fi \<Rightarrow> Inr (FileAttr (Size fi mod 2 ^ 64) (Mtime fi))
    | None \<Rightarrow> if nm \<in> set (Dirs ret) then Inr DirAttr else Inl FuseENOENT)"
    using entry_path(4) [OF assms(1,2)] cached unfolding Attr_def entry_path(1) [OF assms(1,2)] by simp
  then show ?thesis using ret node dir by (cases "map_of (Files ret) nm") auto
qed

theorem Lookup_Attr_agree_witness:
  "\<exists>f'. Lookup demo_getDir ''u'' ''f'' demo_mnt = (f', Inr (FileNode ''u/f'')) \<and> Attr demo_getDir ''u/f'' f' = (f', Inr (FileAttr 8 5))"
proof -
  have "snd (Lookup demo_getDir ''u'' ''f'' demo_mnt) = Inr (FileNode ''u/f'')" by code_simp
  then obtain f' where l: "Lookup demo_getDir ''u'' ''f'' demo_mnt = (f', Inr (FileNode ''u/f''))" by (metis prod.collapse)
  have "clean_dir [''u'']" "plain_part ''f''" by (simp_all add: clean_dir_def plain_part_def)
  from Lookup_Attr_agree [OF this, of demo_getDir demo_mnt f' "FileNode ''u/f''"] l obtain ret fi where
    "fuse_GetDirCached demo_getDir ''u'' demo_mnt = (f', Inr ret)" "map_of (Files ret) ''f'' = Some fi"
    "Attr demo_getDir ''u/f'' f' = (f', Inr (FileAttr (Size fi mod 2 ^ 64) (Mtime fi)))" by auto
  moreover have "snd (fuse_GetDirCached demo_getDir ''u'' demo_mnt) = Inr demo_reply" by code_simp
  ultimately show ?thesis using l by (auto simp: demo_reply_def)
qed



text \<open>
  When the master no longer knows the owners of a file, \<^verbatim>\<open>Open\<close> reports that the file does not
  exist but drops the wrong cache entry, the one of the file's own path instead of the one of its
  directory: the file stays visible to \<^verbatim>\<open>Lookup\<close>.
\<close>

theorem Open_keeps_stale_listing:
  assumes "clean_dir ds" and "plain_part nm" and "checkAccess f uid = None"
    and "map_of (fcache f) (joinWith ''/'' ds) = Some ret" and "map_of (Files ret) nm = Some fi"
    and "getOwners (Hash fi) = Inl ENOENT" and "map_of (fcache f) (joinPath [joinWith ''/'' ds, nm]) = None"
  shows "Open getDir getOwners dial uid (joinPath [joinWith ''/'' ds, nm]) f = Return (f, Inl FuseENOENT)
    \<and> Lookup getDir (joinWith ''/'' ds) nm f = (f, Inr (FileNode (joinPath [joinWith ''/'' ds, nm])))"
proof -
  let ?d = "joinWith ''/'' ds"
  have "fuse_GetDirCached getDir (if ds = [] then [] else ?d @ ''/'') f = (f, Inr ret)" "fuse_GetDirCached getDir ?d f = (f, Inr ret)"
    using assms(4) trim_split_dir [OF assms(1)] trim_dir(1) [OF assms(1)] by (simp_all add: fuse_GetDirCached_def Let_def)
  then show ?thesis
    using assms(3,5,6,7) unfolding Open_def fuse_GetFileInfo_def entry_path(1) [OF assms(1,2)]
    by (simp add: Lookup_def fuse_purgeCacheEntry_def)
qed

theorem Open_keeps_stale_listing_witness:
  "Open demo_getDir (\<lambda>h. Inl ENOENT) (\<lambda>u a. None) 1000 ''u/f'' (demo_mnt\<lparr>fcache := [(''u'', demo_reply)]\<rparr>) =
     Return (demo_mnt\<lparr>fcache := [(''u'', demo_reply)]\<rparr>, Inl FuseENOENT)"
proof -
  let ?f = "demo_mnt\<lparr>fcache := [(''u'', demo_reply)]\<rparr>"
  have p: "joinPath [joinWith ''/'' [''u''], ''f''] = ''u/f''" and "joinPath [''u'', ''f''] = ''u/f''" by code_simp+
  have "clean_dir [''u'']" "plain_part ''f''" "checkAccess ?f 1000 = None" "map_of (fcache ?f) (joinWith ''/'' [''u'']) = Some demo_reply"
    "map_of (Files demo_reply) ''f'' = Some \<lparr>Size = 8, Hash = ''h'', Mtime = 5\<rparr>" "map_of (fcache ?f) (joinPath [joinWith ''/'' [''u''], ''f'']) = None"
    by (simp_all add: \<open>joinPath [''u'', ''f''] = _\<close> clean_dir_def plain_part_def checkAccess_def demo_mnt_def demo_reply_def)
  from Open_keeps_stale_listing [OF this(1-5) _ this(6), of "\<lambda>h. Inl ENOENT" demo_getDir "\<lambda>u a. None"] show ?thesis
    unfolding p by simp
qed

end
