(* ===== verification/Rpc_Client.thy ===== *)
theory Rpc_Client
  imports Master_Service
begin

text \<open>
  The clients of the two RPC services, \<^verbatim>\<open>types.go\<close>: a call that finds its connection shut down dials
  a new one and is repeated there once; the client of the master first runs the reconnect
  callback, which signs in and re-announces the shares.

  The network is the record \<open>rpc_net\<close>: dialling and the call of \<^verbatim>\<open>net/rpc\<close> on a numbered connection,
  on a world \<open>'w\<close>. A reconnect callback is a Go closure; the program only ever installs the two
  closures of \<^verbatim>\<open>server.go\<close> (signing in, and re-exporting one share), so the composed callback is the
  list of them in the order in which \<^verbatim>\<open>AppendReconnectCallback\<close> chains them. Re-exporting sends on an
  unbuffered channel: it waits for the goroutines that publish the requests over the same client, and
  blocks if none of them takes any. A call that never returns has the result \<open>None\<close>. The network whose other
  end is the model of the master is \<open>masterNet\<close>.

  The client has no lock. What several goroutines do to one client is the step relation
  \<open>call_step\<close>, with a step for every access to the fields of the client.
\<close>

section \<open>Calls and connections\<close>

datatype rpc_request =
    ReqRegister RegisterRequest
  | ReqSignin SigninRequest
  | ReqSetFile SetFileRequest
  | ReqGetDir string
  | ReqGetOwners string
  | ReqPing
  | ReqRead ReadRequest

datatype rpc_reply =
    RegisterReply string
  | EmptyReply
  | DirReply GetDirReply
  | OwnersReply "string list"
  | ReadReply string

record 'w rpc_net =
  tlsDial :: "string \<Rightarrow> 'w \<Rightarrow> 'w \<times> (go_error + nat)"
  connCall :: "nat \<Rightarrow> rpc_request \<Rightarrow> 'w \<Rightarrow> 'w \<times> (go_error + rpc_reply)"

datatype reconn_cb = SigninCb string string | ExportCb string

record RUFSMasterClient =
  mc_addr :: string
  mc_Client :: nat
  reconnCb :: "reconn_cb list"

record RUFSClient =
  pc_addr :: string
  pc_Client :: nat

definition NewRUFSMasterClient :: "'w rpc_net \<Rightarrow> string \<Rightarrow> 'w \<Rightarrow> 'w \<times> (go_error + RUFSMasterClient)" where
  "NewRUFSMasterClient net addr w =
     (case tlsDial net addr w of
        (w', Inl e) \<Rightarrow> (w', Inl e)
      | (w', Inr k) \<Rightarrow> (w', Inr \<lparr>mc_addr = addr, mc_Client = k, reconnCb = []\<rparr>))"

definition SetReconnectCallback :: "reconn_cb \<Rightarrow> RUFSMasterClient \<Rightarrow> RUFSMasterClient" where
  "SetReconnectCallback cb c = c\<lparr>reconnCb := [cb]\<rparr>"

definition AppendReconnectCallback :: "reconn_cb \<Rightarrow> RUFSMasterClient \<Rightarrow> RUFSMasterClient" where
  "AppendReconnectCallback cb c = c\<lparr>reconnCb := reconnCb c @ [cb]\<rparr>"

text \<open>The composed callback: the parts in order, up to the first that fails.\<close>

fun runCallbacks ::
  "('cb \<Rightarrow> 's \<Rightarrow> ('s \<times> go_error option) option) \<Rightarrow> 'cb list \<Rightarrow> 's \<Rightarrow> ('s \<times> go_error option) option"
where
  "runCallbacks run [] s = Some (s, None)"
| "runCallbacks run (cb # cbs) s =
     (case run cb s of
        None \<Rightarrow> None
      | Some (s', Some e) \<Rightarrow> Some (s', Some e)
      | Some (s', None) \<Rightarrow> runCallbacks run cbs s')"

text \<open>
  The body of \<^verbatim>\<open>RUFSMasterClient.Call\<close>. The deferred function puts the callback back on every return
  after the reconnect. \<open>run\<close> executes one closure.
\<close>

definition callWith ::
  "(reconn_cb \<Rightarrow> RUFSMasterClient \<times> 'w \<Rightarrow> ((RUFSMasterClient \<times> 'w) \<times> go_error option) option) \<Rightarrow> 'w rpc_net \<Rightarrow> rpc_request
     \<Rightarrow> RUFSMasterClient \<times> 'w \<Rightarrow> ((RUFSMasterClient \<times> 'w) \<times> (go_error + rpc_reply)) option"
where
  "callWith run net q = (\<lambda>(c, w).
     case connCall net (mc_Client c) q w of
       (w1, Inr r) \<Rightarrow> Some ((c, w1), Inr r)
     | (w1, Inl err) \<Rightarrow>
         if err = ErrShutdown then
           (case NewRUFSMasterClient net (mc_addr c) w1 of
              (w2, Inl e) \<Rightarrow> Some ((c, w2), Inl (ReconnectFailed e))
            | (w2, Inr rc) \<Rightarrow>
                let cb = reconnCb c;
                    c1 = c\<lparr>mc_Client := mc_Client rc, reconnCb := []\<rparr>
                in case runCallbacks run cb (c1, w2) of
                     None \<Rightarrow> None
                   | Some ((c2, w3), Some e) \<Rightarrow> Some ((c2\<lparr>reconnCb := cb\<rparr>, w3), Inl (ReconnectFailed e))
                   | Some ((c2, w3), None) \<Rightarrow>
                       let (w4, r) = connCall net (mc_Client c2) q w3 in Some ((c2\<lparr>reconnCb := cb\<rparr>, w4), r))
         else Some ((c, w1), Inl err))"

text \<open>
  While the callback runs, the callback of the client is the empty one, so a call made meanwhile,
  by a closure or by another goroutine, is \<open>callWith\<close> with nothing to run (\<open>callWith_Nil\<close> below).
\<close>

definition innerCall ::
  "'w rpc_net \<Rightarrow> rpc_request \<Rightarrow> RUFSMasterClient \<times> 'w \<Rightarrow> ((RUFSMasterClient \<times> 'w) \<times> (go_error + rpc_reply)) option"
where
  "innerCall net = callWith (\<lambda>_ s. Some (s, None)) net"

text \<open>What the goroutines do with the requests they take off the channel: an error is only logged.\<close>

fun sendRequests :: "'w rpc_net \<Rightarrow> SetFileRequest list \<Rightarrow> RUFSMasterClient \<times> 'w \<Rightarrow> (RUFSMasterClient \<times> 'w) option" where
  "sendRequests net [] s = Some s"
| "sendRequests net (q # qs) s =
     (case innerCall net (ReqSetFile q) s of None \<Rightarrow> None | Some (s', _) \<Rightarrow> sendRequests net qs s')"

text \<open>
  The closure that signs in sends protocol version 1. The closure that re-exports a share changes the
  state of the peer and returns once all its requests are taken: \<open>reexport\<close> is that change with the
  requests as the goroutines publish them until then, or \<open>None\<close> if it blocks for ever.
\<close>

definition signinRequest :: "string \<Rightarrow> string \<Rightarrow> rpc_request" where
  "signinRequest addr u = ReqSignin \<lparr>ProtocolVersion = 1, si_User = u, si_Address = addr\<rparr>"

type_synonym 'w reexport = "string \<Rightarrow> 'w \<Rightarrow> ('w \<times> SetFileRequest list) option"

definition runCb ::
  "'w rpc_net \<Rightarrow> 'w reexport \<Rightarrow> reconn_cb \<Rightarrow> RUFSMasterClient \<times> 'w \<Rightarrow> ((RUFSMasterClient \<times> 'w) \<times> go_error option) option"
where
  "runCb net reexport cb s =
     (case cb of
        SigninCb addr u \<Rightarrow>
          (case innerCall net (signinRequest addr u) s of
             None \<Rightarrow> None
           | Some (s', Inl e) \<Rightarrow> Some (s', Some (SigninFailed e))
           | Some (s', Inr _) \<Rightarrow> Some (s', None))
      | ExportCb sh \<Rightarrow>
          (case reexport sh (snd s) of
             None \<Rightarrow> None
           | Some (w, qs) \<Rightarrow>
               (case sendRequests net qs (fst s, w) of None \<Rightarrow> None | Some s' \<Rightarrow> Some (s', None))))"

definition Call ::
  "'w rpc_net \<Rightarrow> 'w reexport \<Rightarrow> rpc_request \<Rightarrow> RUFSMasterClient \<times> 'w
     \<Rightarrow> ((RUFSMasterClient \<times> 'w) \<times> (go_error + rpc_reply)) option"
where
  "Call net reexport = callWith (runCb net reexport) net"

section \<open>The methods of the master\<close>

text \<open>A reply of another shape than the method has cannot be decoded.\<close>

definition badReply :: go_error where
  "badReply = NetError ''reading body''"

definition client_Register where
  "client_Register net reexport u token pub s =
     map_option (\<lambda>x. case x of
        (s', Inr (RegisterReply cert)) \<Rightarrow> (s', Inr cert)
      | (s', Inr _) \<Rightarrow> (s', Inl badReply)
      | (s', Inl e) \<Rightarrow> (s', Inl e))
       (Call net reexport (ReqRegister \<lparr>rr_User = u, rr_Token = token, rr_PublicKey = pub\<rparr>) s)"

definition client_Signin where
  "client_Signin net reexport addr u s =
     map_option (\<lambda>x. case x of
        (s', Inr EmptyReply) \<Rightarrow> (s', None)
      | (s', Inr _) \<Rightarrow> (s', Some badReply)
      | (s', Inl e) \<Rightarrow> (s', Some e))
       (Call net reexport (signinRequest addr u) s)"

definition client_SetFile where
  "client_SetFile net reexport q s =
     map_option (\<lambda>x. case x of
        (s', Inr EmptyReply) \<Rightarrow> (s', None)
      | (s', Inr _) \<Rightarrow> (s', Some badReply)
      | (s', Inl e) \<Rightarrow> (s', Some e))
       (Call net reexport (ReqSetFile q) s)"

definition client_GetDir where
  "client_GetDir net reexport path s =
     map_option (\<lambda>x. case x of
        (s', Inr (DirReply r)) \<Rightarrow> (s', Inr r)
      | (s', Inr _) \<Rightarrow> (s', Inl badReply)
      | (s', Inl e) \<Rightarrow> (s', Inl e))
       (Call net reexport (ReqGetDir path) s)"

definition client_GetOwners where
  "client_GetOwners net reexport h s =
     map_option (\<lambda>x. case x of
        (s', Inr (OwnersReply os)) \<Rightarrow> (s', Inr os)
      | (s', Inr _) \<Rightarrow> (s', Inl badReply)
      | (s', Inl e) \<Rightarrow> (s', Inl e))
       (Call net reexport (ReqGetOwners h) s)"

section \<open>The client of a peer\<close>

definition NewRUFSClient :: "'w rpc_net \<Rightarrow> string \<Rightarrow> 'w \<Rightarrow> 'w \<times> (go_error + RUFSClient)" where
  "NewRUFSClient net addr w =
     (case tlsDial net addr w of
        (w', Inl e) \<Rightarrow> (w', Inl e)
      | (w', Inr k) \<Rightarrow> (w', Inr \<lparr>pc_addr = addr, pc_Client = k\<rparr>))"

definition peer_Call ::
  "'w rpc_net \<Rightarrow> rpc_request \<Rightarrow> RUFSClient \<times> 'w \<Rightarrow> (RUFSClient \<times> 'w) \<times> (go_error + rpc_reply)"
where
  "peer_Call net q = (\<lambda>(c, w).
     case connCall net (pc_Client c) q w of
       (w1, Inr r) \<Rightarrow> ((c, w1), Inr r)
     | (w1, Inl err) \<Rightarrow>
         if err = ErrShutdown then
           (case NewRUFSClient net (pc_addr c) w1 of
              (w2, Inl e) \<Rightarrow> ((c, w2), Inl e)
            | (w2, Inr rc) \<Rightarrow>
                let c1 = c\<lparr>pc_Client := pc_Client rc\<rparr>;
                    (w3, r) = connCall net (pc_Client c1) q w2
                in ((c1, w3), r))
         else ((c, w1), Inl err))"

definition peer_Ping where
  "peer_Ping net s =
     (case peer_Call net ReqPing s of
        (s', Inr EmptyReply) \<Rightarrow> (s', None)
      | (s', Inr _) \<Rightarrow> (s', Some badReply)
      | (s', Inl e) \<Rightarrow> (s', Some e))"

definition peer_Read where
  "peer_Read net h offset n s =
     (case peer_Call net (ReqRead \<lparr>rd_Hash = h, rd_Offset = offset, rd_Size = n\<rparr>) s of
        (s', Inr (ReadReply d)) \<Rightarrow> (s', Inr d)
      | (s', Inr _) \<Rightarrow> (s', Inl badReply)
      | (s', Inl e) \<Rightarrow> (s', Inl e))"

section \<open>The network that leads to the master\<close>

text \<open>
  The world is the master with its open connections, whether its process runs, the number of the
  next connection and the state of the peer. A handler that panics ends the process: the caller
  sees the connection close, and later calls find it shut down. \<open>tls\<close> is what the master sees of
  a connection of this peer.
\<close>

record ('db, 's) net_world =
  nw_master :: "'db Master"
  nw_up :: bool
  nw_next :: nat
  nw_peer :: 's

definition masterHandle ::
  "'db db_ops \<Rightarrow> ('k, 'p, 'c) crypto_env \<Rightarrow> ('k, 'c) MasterVault \<Rightarrow> net_env \<Rightarrow> rpc_request \<Rightarrow> tls_conn \<Rightarrow> Peer \<Rightarrow> 'db
     \<Rightarrow> ('db \<times> Peer \<times> (go_error + rpc_reply)) go"
where
  "masterHandle ops env mv nenv q conn p d =
     (case q of
        ReqRegister r \<Rightarrow> go_bind (Register env mv r) (\<lambda>x. Return (d, p, case x of Inl e \<Rightarrow> Inl e | Inr c \<Rightarrow> Inr (RegisterReply c)))
      | ReqSignin r \<Rightarrow> go_bind (Signin conn nenv r p) (\<lambda>(p', e). Return (d, p', case e of Some e \<Rightarrow> Inl e | None \<Rightarrow> Inr EmptyReply))
      | ReqSetFile r \<Rightarrow> go_bind (rpc_SetFile ops d p r) (\<lambda>(d', e). Return (d', p, case e of Some e \<Rightarrow> Inl e | None \<Rightarrow> Inr EmptyReply))
      | ReqGetDir path \<Rightarrow> Return (d, p, case rpc_GetDir ops d p path of Inl e \<Rightarrow> Inl e | Inr r \<Rightarrow> Inr (DirReply r))
      | ReqGetOwners h \<Rightarrow> Return (d, p, case rpc_GetOwners ops d p h of Inl e \<Rightarrow> Inl e | Inr r \<Rightarrow> Inr (OwnersReply r))
      | _ \<Rightarrow> Return (d, p, Inl (NetError ''rpc: can't find service'')))"

definition masterCall ::
  "'db db_ops \<Rightarrow> ('k, 'p, 'c) crypto_env \<Rightarrow> ('k, 'c) MasterVault \<Rightarrow> net_env \<Rightarrow> nat \<Rightarrow> rpc_request
     \<Rightarrow> ('db, 's) net_world \<Rightarrow> ('db, 's) net_world \<times> (go_error + rpc_reply)"
where
  "masterCall ops env mv nenv k q w =
     (case sessions (nw_master w) k of
        None \<Rightarrow> (w, Inl ErrShutdown)
      | Some (conn, p) \<Rightarrow>
          (case masterHandle ops env mv nenv q conn p (mdb (nw_master w)) of
             Panic \<Rightarrow> (w\<lparr>nw_up := False, nw_master := (nw_master w)\<lparr>sessions := Map.empty\<rparr>\<rparr>, Inl (NetError ''unexpected EOF''))
           | Return (d', p', r) \<Rightarrow>
               (w\<lparr>nw_master := \<lparr>mdb = d', sessions = (sessions (nw_master w))(k \<mapsto> (conn, p'))\<rparr>\<rparr>, r)))"

definition masterDial :: "tls_conn \<Rightarrow> string \<Rightarrow> ('db, 's) net_world \<Rightarrow> ('db, 's) net_world \<times> (go_error + nat)" where
  "masterDial tls addr w =
     (if nw_up w then
        (w\<lparr>nw_master := (nw_master w)\<lparr>sessions := (sessions (nw_master w))(nw_next w \<mapsto> (tls, emptyPeer))\<rparr>, nw_next := nw_next w + 1\<rparr>,
         Inr (nw_next w))
      else (w, Inl (NetError ''connection refused'')))"

definition masterNet ::
  "'db db_ops \<Rightarrow> ('k, 'p, 'c) crypto_env \<Rightarrow> ('k, 'c) MasterVault \<Rightarrow> net_env \<Rightarrow> tls_conn \<Rightarrow> ('db, 's) net_world rpc_net"
where
  "masterNet ops env mv nenv tls = \<lparr>tlsDial = masterDial tls, connCall = masterCall ops env mv nenv\<rparr>"

definition onPeer :: "'s reexport \<Rightarrow> ('db, 's) net_world reexport" where
  "onPeer f sh w = map_option (\<lambda>(s, qs). (w\<lparr>nw_peer := s\<rparr>, qs)) (f sh (nw_peer w))"

section \<open>Several goroutines on one client\<close>

text \<open>
  \<open>cl_conn\<close> and \<open>cl_cb\<close> are the fields of the client, \<open>cl_live\<close> the connections that are not shut down,
  \<open>cl_signed\<close> the connections on which a sign-in went through, and \<open>cl_pc\<close> tells where each goroutine
  is in \<^verbatim>\<open>Call\<close>: in its first call on a connection, past the failure of it, past the exchange of the
  connection, in the callback (what it took and what is left of it), in the second call.
\<close>

datatype call_pc =
    Calling nat
  | Dialing
  | Dialed
  | Running "reconn_cb list" "reconn_cb list"
  | Retrying "reconn_cb list" nat
  | Finished nat

record call_sys =
  cl_conn :: nat
  cl_cb :: "reconn_cb list"
  cl_live :: "nat set"
  cl_signed :: "nat set"
  cl_next :: nat
  cl_pc :: "nat \<rightharpoonup> call_pc"

inductive call_step :: "call_sys \<Rightarrow> call_sys \<Rightarrow> bool" where
  enter: "cl_pc s g \<in> {None} \<union> (Some ` range Finished) \<Longrightarrow>
     call_step s (s\<lparr>cl_pc := (cl_pc s)(g \<mapsto> Calling (cl_conn s))\<rparr>)"
| answered: "cl_pc s g = Some (Calling k) \<Longrightarrow> k \<in> cl_live s \<Longrightarrow> call_step s (s\<lparr>cl_pc := (cl_pc s)(g \<mapsto> Finished k)\<rparr>)"
| shutdown: "cl_pc s g = Some (Calling k) \<Longrightarrow> k \<notin> cl_live s \<Longrightarrow> call_step s (s\<lparr>cl_pc := (cl_pc s)(g \<mapsto> Dialing)\<rparr>)"
| dialed: "cl_pc s g = Some Dialing \<Longrightarrow>
     call_step s (s\<lparr>cl_conn := cl_next s, cl_live := insert (cl_next s) (cl_live s), cl_next := cl_next s + 1,
                    cl_pc := (cl_pc s)(g \<mapsto> Dialed)\<rparr>)"
| grab: "cl_pc s g = Some Dialed \<Longrightarrow>
     call_step s (s\<lparr>cl_cb := [], cl_pc := (cl_pc s)(g \<mapsto> Running (cl_cb s) (cl_cb s))\<rparr>)"
| signed: "cl_pc s g = Some (Running cb (SigninCb a u # rest)) \<Longrightarrow> cl_conn s \<in> cl_live s \<Longrightarrow>
     call_step s (s\<lparr>cl_signed := insert (cl_conn s) (cl_signed s), cl_pc := (cl_pc s)(g \<mapsto> Running cb rest)\<rparr>)"
| exported: "cl_pc s g = Some (Running cb (ExportCb sh # rest)) \<Longrightarrow>
     call_step s (s\<lparr>cl_pc := (cl_pc s)(g \<mapsto> Running cb rest)\<rparr>)"
| retry: "cl_pc s g = Some (Running cb []) \<Longrightarrow> call_step s (s\<lparr>cl_pc := (cl_pc s)(g \<mapsto> Retrying cb (cl_conn s))\<rparr>)"
| return: "cl_pc s g = Some (Retrying cb k) \<Longrightarrow> call_step s (s\<lparr>cl_cb := cb, cl_pc := (cl_pc s)(g \<mapsto> Finished k)\<rparr>)"
| lost: "call_step s (s\<lparr>cl_live := cl_live s - {k}\<rparr>)"

inductive call_reach :: "call_sys \<Rightarrow> call_sys \<Rightarrow> bool" for s0 where
  start: "call_reach s0 s0"
| step: "call_reach s0 s \<Longrightarrow> call_step s t \<Longrightarrow> call_reach s0 t"

inductive_cases call_stepE: "call_step s t"


section \<open>The sequential client\<close>

text \<open>Without callbacks nothing is run, which is why the calls of a closure need no \<open>run\<close>.\<close>

lemma callWith_Nil:
  "reconnCb c = [] \<Longrightarrow> callWith run net q (c, w) = callWith run' net q (c, w)"
  by (simp add: callWith_def split: prod.splits sum.splits)

lemma callWith_keeps:
  assumes "callWith run net q (c, w) = Some ((c', w'), r)"
    and "\<And>cb s s' e. run cb s = Some (s', e) \<Longrightarrow> mc_addr (fst s') = mc_addr (fst s)"
  shows "reconnCb c' = reconnCb c" and "mc_addr c' = mc_addr c"
proof -
  have run: "runCallbacks run cbs s = Some (s', e) \<Longrightarrow> mc_addr (fst s') = mc_addr (fst s)" for cbs s s' e
  proof (induction cbs arbitrary: s)
    case (Cons cb cbs)
    then obtain s1 e1 where s1: "run cb s = Some (s1, e1)" by (auto split: option.splits)
    then have "mc_addr (fst s1) = mc_addr (fst s)" by (rule assms(2))
    then show ?case using Cons s1 by (cases e1) auto
  qed simp
  have "reconnCb c' = reconnCb c \<and> mc_addr c' = mc_addr c"
  proof (cases "\<exists>w1. connCall net (mc_Client c) q w = (w1, Inl ErrShutdown)")
    case False
    then show ?thesis using assms(1) by (auto simp: callWith_def split: prod.splits sum.splits if_splits)
  next
    case True
    then obtain w1 where w1: "connCall net (mc_Client c) q w = (w1, Inl ErrShutdown)" by blast
    obtain w2 d where w2: "NewRUFSMasterClient net (mc_addr c) w1 = (w2, d)" by fastforce
    show ?thesis
    proof (cases d)
      case (Inl e)
      then show ?thesis using assms(1) w1 w2 by (simp add: callWith_def)
    next
      case (Inr rc)
      then obtain c2 w3 e where r: "runCallbacks run (reconnCb c) (c\<lparr>mc_Client := mc_Client rc, reconnCb := []\<rparr>, w2) = Some ((c2, w3), e)"
        using assms(1) w1 w2 by (auto simp: callWith_def Let_def split: option.splits)
      then have "mc_addr c2 = mc_addr c" using run [OF r] by simp
      then show ?thesis using assms(1) w1 w2 Inr r
        by (cases e) (auto simp: callWith_def Let_def split: prod.splits)
    qed
  qed
  then show "reconnCb c' = reconnCb c" and "mc_addr c' = mc_addr c" by auto
qed

lemma innerCall_keeps: "innerCall net q s = Some (s', r) \<Longrightarrow> mc_addr (fst s') = mc_addr (fst s)"
  using callWith_keeps(2) [of "\<lambda>_ s. Some (s, None)" net q "fst s" "snd s" "fst s'" "snd s'" r] by (simp add: innerCall_def)

lemma sendRequests_keeps: "sendRequests net qs s = Some s' \<Longrightarrow> mc_addr (fst s') = mc_addr (fst s)"
  by (induction qs arbitrary: s) (auto split: option.splits dest: innerCall_keeps)

lemma runCb_keeps: "runCb net reexport cb s = Some (s', e) \<Longrightarrow> mc_addr (fst s') = mc_addr (fst s)"
  by (cases cb) (fastforce simp: runCb_def split: option.splits sum.splits dest: innerCall_keeps sendRequests_keeps)+

text \<open>Calls end unless a re-export blocks.\<close>

lemma innerCall_returns: "\<exists>s' r. innerCall net q s = Some (s', r)"
proof -
  have "runCallbacks (\<lambda>_ s. Some (s, None)) cbs s = Some (s, None)" for cbs :: "reconn_cb list" and s :: "RUFSMasterClient \<times> 'a"
    by (induction cbs) auto
  then show ?thesis by (cases s) (auto simp: innerCall_def callWith_def Let_def split: prod.split sum.split)
qed

section \<open>The client over the master\<close>

text \<open>Signing in on a connection that was just dialled.\<close>

lemma fresh_signin:
  assumes "sessions (nw_master w) (mc_Client c) = Some (tls, emptyPeer)" and "reconnCb c = []"
    and "verifiedChains tls = (u # rest) # chs" and "u \<noteq> []" and "addr \<noteq> []"
    and "dialPeer nenv (backAddr tls addr) u = None" and "pingPeer nenv (backAddr tls addr) = None"
  shows "runCb (masterNet ops env mv nenv tls) reexport (SigninCb addr u) (c, w) =
    Some ((c, w\<lparr>nw_master := (nw_master w)\<lparr>sessions := (sessions (nw_master w))(mc_Client c \<mapsto> (tls,
        \<lparr>user = u, address = backAddr tls addr, ident = u @ ''@'' @ backAddr tls addr\<rparr>))\<rparr>\<rparr>), None)"
proof -
  have "Signin tls nenv \<lparr>ProtocolVersion = 1, si_User = u, si_Address = addr\<rparr> emptyPeer =
      Return (\<lparr>user = u, address = backAddr tls addr, ident = u @ ''@'' @ backAddr tls addr\<rparr>, None)"
    using assms(3-7) by (simp add: Signin_def Let_def emptyPeer_def)
  then show ?thesis using assms(1)
    by (simp add: runCb_def innerCall_def callWith_def masterNet_def masterCall_def masterHandle_def signinRequest_def)
qed

text \<open>A peer that is signed in on a connection stays so while files are published over it.\<close>

definition signedOn :: "tls_conn \<Rightarrow> Peer \<Rightarrow> nat \<Rightarrow> (Database, 's) net_world \<Rightarrow> bool" where
  "signedOn tls p k w \<longleftrightarrow> sessions (nw_master w) k = Some (tls, p) \<and> inmem_inv (mdb (nw_master w))"

lemma rpc_publish:
  assumes "inmem_inv d" and "sf_Info q \<noteq> None"
  shows "\<exists>d' e. rpc_SetFile inmem_ops d p q = Return (d', e) \<and> inmem_inv d' \<and> e \<noteq> Some ErrShutdown"
proof -
  let ?ex = "user p # splitOn (CHR ''/'') (sf_Path q)"
  obtain fi where fi: "sf_Info q = Some fi" using assms(2) by blast
  obtain d' where "op_SetFile inmem_ops d ?ex (Some fi) (ident p) = Return (d', None)"
    using inmem.publish [OF assms(1), of ?ex fi "ident p"] by auto
  moreover from this have "inmem_inv d'" using inmem.set_invar [OF assms(1)] by blast
  ultimately show ?thesis using assms(1) fi by (auto simp: rpc_SetFile_def Let_def split: option.split)
qed

lemma sendRequests_signed:
  assumes "signedOn tls p (mc_Client c) w" and "\<forall>q \<in> set qs. sf_Info q \<noteq> None"
  shows "\<exists>w'. sendRequests (masterNet inmem_ops env mv nenv tls) qs (c, w) = Some (c, w')
    \<and> signedOn tls p (mc_Client c) w' \<and> nw_peer w' = nw_peer w"
  using assms
proof (induction qs arbitrary: w)
  case (Cons q qs)
  obtain d' e where d': "rpc_SetFile inmem_ops (mdb (nw_master w)) p q = Return (d', e)" "inmem_inv d'" "e \<noteq> Some ErrShutdown"
    using rpc_publish [of "mdb (nw_master w)" q p] Cons.prems by (auto simp: signedOn_def)
  let ?w = "w\<lparr>nw_master := \<lparr>mdb = d', sessions = (sessions (nw_master w))(mc_Client c \<mapsto> (tls, p))\<rparr>\<rparr>"
  have "\<exists>r. innerCall (masterNet inmem_ops env mv nenv tls) (ReqSetFile q) (c, w) = Some ((c, ?w), r)"
    using d' Cons.prems(1)
    by (cases e) (auto simp: innerCall_def callWith_def masterNet_def masterCall_def masterHandle_def signedOn_def)
  moreover have "signedOn tls p (mc_Client c) ?w" using d'(2) by (simp add: signedOn_def)
  ultimately show ?case using Cons.IH [of ?w] Cons.prems(2) by auto
qed simp

lemma exports_signed:
  fixes F :: "string \<Rightarrow> 's \<Rightarrow> 's \<times> SetFileRequest list"
  assumes "signedOn tls p (mc_Client c) w" and "\<forall>sh \<in> set shs. \<forall>s. \<forall>q \<in> set (snd (F sh s)). sf_Info q \<noteq> None"
  shows "\<exists>w'. runCallbacks (runCb (masterNet inmem_ops env mv nenv tls) (onPeer (\<lambda>sh s. Some (F sh s)))) (map ExportCb shs) (c, w) =
      Some ((c, w'), None)
    \<and> signedOn tls p (mc_Client c) w' \<and> nw_peer w' = fold (\<lambda>sh s. fst (F sh s)) shs (nw_peer w)"
  using assms
proof (induction shs arbitrary: w)
  case (Cons sh shs)
  obtain s qs where F: "F sh (nw_peer w) = (s, qs)" by fastforce
  then have "\<forall>q \<in> set qs. sf_Info q \<noteq> None" using Cons.prems(2) by (metis list.set_intros(1) snd_conv)
  moreover have "signedOn tls p (mc_Client c) (w\<lparr>nw_peer := s\<rparr>)" using Cons.prems(1) by (simp add: signedOn_def)
  ultimately obtain w1 where w1: "sendRequests (masterNet inmem_ops env mv nenv tls) qs (c, w\<lparr>nw_peer := s\<rparr>) = Some (c, w1)"
    "signedOn tls p (mc_Client c) w1" "nw_peer w1 = s" using sendRequests_signed by fastforce
  then have run: "runCb (masterNet inmem_ops env mv nenv tls) (onPeer (\<lambda>sh s. Some (F sh s))) (ExportCb sh) (c, w) = Some ((c, w1), None)"
    using F by (simp add: runCb_def onPeer_def)
  obtain w2 where "runCallbacks (runCb (masterNet inmem_ops env mv nenv tls) (onPeer (\<lambda>sh s. Some (F sh s)))) (map ExportCb shs) (c, w1) =
      Some ((c, w2), None)" "signedOn tls p (mc_Client c) w2" "nw_peer w2 = fold (\<lambda>sh s. fst (F sh s)) shs (nw_peer w1)"
    using Cons.IH [OF w1(2)] Cons.prems(2) by auto
  then show ?case using run F w1(3) by simp
qed simp

text \<open>A call on a lost connection runs on a new one, where the peer is signed in and re-exported its shares.\<close>

lemma Call_after_loss:
  fixes F :: "string \<Rightarrow> 's \<Rightarrow> 's \<times> SetFileRequest list" and w :: "(Database, 's) net_world"
  assumes "sessions (nw_master w) (mc_Client c) = None" and "nw_up w" and "inmem_inv (mdb (nw_master w))"
    and "reconnCb c = SigninCb addr u # map ExportCb shs"
    and "\<forall>sh \<in> set shs. \<forall>s. \<forall>q \<in> set (snd (F sh s)). sf_Info q \<noteq> None"
    and "verifiedChains tls = (u # rest) # chs" and "u \<noteq> []" and "addr \<noteq> []"
    and "dialPeer nenv (backAddr tls addr) u = None" and "pingPeer nenv (backAddr tls addr) = None"
  defines "p \<equiv> \<lparr>user = u, address = backAddr tls addr, ident = u @ ''@'' @ backAddr tls addr\<rparr>"
  shows "\<exists>w'. signedOn tls p (nw_next w) w' \<and> nw_peer w' = fold (\<lambda>sh s. fst (F sh s)) shs (nw_peer w) \<and>
    Call (masterNet inmem_ops env mv nenv tls) (onPeer (\<lambda>sh s. Some (F sh s))) q (c, w) =
      (let (w4, r) = masterCall inmem_ops env mv nenv (nw_next w) q w' in Some ((c\<lparr>mc_Client := nw_next w\<rparr>, w4), r))"
proof -
  let ?net = "masterNet inmem_ops env mv nenv tls" and ?re = "onPeer (\<lambda>sh s. Some (F sh s))"
  let ?w2 = "w\<lparr>nw_master := (nw_master w)\<lparr>sessions := (sessions (nw_master w))(nw_next w \<mapsto> (tls, emptyPeer))\<rparr>, nw_next := nw_next w + 1\<rparr>"
  let ?w3 = "?w2\<lparr>nw_master := (nw_master w)\<lparr>sessions := (sessions (nw_master w))(nw_next w \<mapsto> (tls, p))\<rparr>\<rparr>"
  let ?c1 = "c\<lparr>mc_Client := nw_next w, reconnCb := []\<rparr>"
  have lost: "connCall ?net (mc_Client c) q w = (w, Inl ErrShutdown)"
    using assms(1) by (simp add: masterNet_def masterCall_def)
  have dial: "NewRUFSMasterClient ?net (mc_addr c) w = (?w2, Inr \<lparr>mc_addr = mc_addr c, mc_Client = nw_next w, reconnCb = []\<rparr>)"
    using assms(2) by (simp add: NewRUFSMasterClient_def masterNet_def masterDial_def)
  have sign: "runCb ?net ?re (SigninCb addr u) (?c1, ?w2) = Some ((?c1, ?w3), None)"
    using fresh_signin [of ?w2 ?c1 tls u rest chs addr nenv inmem_ops env mv ?re] assms(6-10) unfolding p_def by simp
  have "signedOn tls p (mc_Client ?c1) ?w3" using assms(3) by (simp add: signedOn_def)
  from exports_signed [OF this assms(5), of env mv nenv] obtain w' where
    w': "runCallbacks (runCb ?net ?re) (map ExportCb shs) (?c1, ?w3) = Some ((?c1, w'), None)"
    "signedOn tls p (nw_next w) w'" "nw_peer w' = fold (\<lambda>sh s. fst (F sh s)) shs (nw_peer w)" by auto
  have cbs: "runCallbacks (runCb ?net ?re) (reconnCb c) (?c1, ?w2) = Some ((?c1, w'), None)"
    unfolding assms(4) runCallbacks.simps sign using w'(1) by simp
  have net: "connCall ?net = masterCall inmem_ops env mv nenv" by (simp add: masterNet_def)
  have "Call ?net ?re q (c, w) =
      (let (w4, r) = masterCall inmem_ops env mv nenv (nw_next w) q w' in Some ((c\<lparr>mc_Client := nw_next w\<rparr>, w4), r))"
    unfolding Call_def callWith_def
    by (simp only: prod.case lost sum.case dial Let_def simp_thms if_True RUFSMasterClient.simps cbs option.case)
      (simp add: net Let_def split: prod.splits)
  then show ?thesis using w'(2,3) by blast
qed


section \<open>Goroutines that reconnect at the same time\<close>

text \<open>Once the callback is lost and no goroutine holds it, it stays lost.\<close>

definition no_callback :: "call_sys \<Rightarrow> bool" where
  "no_callback s \<longleftrightarrow> cl_cb s = [] \<and>
     (\<forall>g cb rest. cl_pc s g = Some (Running cb rest) \<longrightarrow> cb = [] \<and> rest = []) \<and>
     (\<forall>g cb k. cl_pc s g = Some (Retrying cb k) \<longrightarrow> cb = [])"

lemma no_callback_step:
  assumes "call_step s t" and "no_callback s"
  shows "no_callback t \<and> cl_signed t = cl_signed s"
  using assms(1)
proof (cases rule: call_step.cases)
  case (return g cb k)
  then have "cb = []" using assms(2) unfolding no_callback_def by blast
  then show ?thesis using return assms(2) by (auto simp: no_callback_def)
qed (use assms(2) in \<open>auto simp: no_callback_def split: if_splits\<close>)

lemma no_callback_reach:
  "call_reach s t \<Longrightarrow> no_callback s \<Longrightarrow> no_callback t \<and> cl_signed t = cl_signed s"
  by (induction rule: call_reach.induct) (auto dest: no_callback_step)

text \<open>The next step of a goroutine that is inside \<^verbatim>\<open>Call\<close>; a schedule is the list of goroutines that move.\<close>

definition move :: "nat \<Rightarrow> call_sys \<Rightarrow> call_sys" where
  "move g s =
     (case cl_pc s g of
        Some (Calling k) \<Rightarrow> s\<lparr>cl_pc := (cl_pc s)(g \<mapsto> if k \<in> cl_live s then Finished k else Dialing)\<rparr>
      | Some Dialing \<Rightarrow> s\<lparr>cl_conn := cl_next s, cl_live := insert (cl_next s) (cl_live s), cl_next := cl_next s + 1,
                       cl_pc := (cl_pc s)(g \<mapsto> Dialed)\<rparr>
      | Some Dialed \<Rightarrow> s\<lparr>cl_cb := [], cl_pc := (cl_pc s)(g \<mapsto> Running (cl_cb s) (cl_cb s))\<rparr>
      | Some (Running cb []) \<Rightarrow> s\<lparr>cl_pc := (cl_pc s)(g \<mapsto> Retrying cb (cl_conn s))\<rparr>
      | Some (Running cb (SigninCb a u # rest)) \<Rightarrow>
          if cl_conn s \<in> cl_live s
          then s\<lparr>cl_signed := insert (cl_conn s) (cl_signed s), cl_pc := (cl_pc s)(g \<mapsto> Running cb rest)\<rparr> else s
      | Some (Running cb (ExportCb sh # rest)) \<Rightarrow> s\<lparr>cl_pc := (cl_pc s)(g \<mapsto> Running cb rest)\<rparr>
      | Some (Retrying cb k) \<Rightarrow> s\<lparr>cl_cb := cb, cl_pc := (cl_pc s)(g \<mapsto> Finished k)\<rparr>
      | _ \<Rightarrow> s)"

lemma move_step: "move g s = s \<or> call_step s (move g s)"
  using call_step.dialed [of s g] unfolding move_def by (auto intro: call_step.intros split: option.splits call_pc.splits list.splits reconn_cb.splits)

lemma reach_schedule: "call_reach s0 s \<Longrightarrow> call_reach s0 (fold move gs s)"
proof (induction gs arbitrary: s)
  case (Cons g gs)
  then have "call_reach s0 (move g s)" using move_step [of g s] call_reach.step [of s0 s "move g s"] by auto
  then show ?case using Cons.IH by simp
qed simp

text \<open>Two goroutines are in a call when connection 0 is lost.\<close>

definition demo_calls :: "string \<Rightarrow> string \<Rightarrow> call_sys" where
  "demo_calls a u = \<lparr>cl_conn = 0, cl_cb = [SigninCb a u], cl_live = {0}, cl_signed = {0}, cl_next = 1, cl_pc = Map.empty\<rparr>"

definition demo_race :: "string \<Rightarrow> string \<Rightarrow> call_sys" where
  "demo_race a u = fold move [1, 2, 1, 1, 1, 2, 2, 1, 2, 1, 2]
     (demo_calls a u\<lparr>cl_live := {}, cl_pc := [1 \<mapsto> Calling 0, 2 \<mapsto> Calling 0]\<rparr>)"

lemma demo_race_reach: "call_reach (demo_calls a u) (demo_race a u)"
proof -
  let ?s = "demo_calls a u"
  let ?s1 = "?s\<lparr>cl_pc := [1 \<mapsto> Calling 0]\<rparr>" and ?s2 = "?s\<lparr>cl_pc := [1 \<mapsto> Calling 0, 2 \<mapsto> Calling 0]\<rparr>"
  have "call_step ?s ?s1" using call_step.enter [of ?s 1] by (simp add: demo_calls_def)
  moreover have "call_step ?s1 ?s2" using call_step.enter [of ?s1 2] by (simp add: demo_calls_def)
  moreover have "call_step ?s2 (?s\<lparr>cl_live := {}, cl_pc := [1 \<mapsto> Calling 0, 2 \<mapsto> Calling 0]\<rparr>)"
    using call_step.lost [of ?s2 0] by (simp add: demo_calls_def)
  ultimately have "call_reach ?s (?s\<lparr>cl_live := {}, cl_pc := [1 \<mapsto> Calling 0, 2 \<mapsto> Calling 0]\<rparr>)"
    using call_reach.start [of ?s] by (meson call_reach.step)
  then show ?thesis unfolding demo_race_def by (rule reach_schedule)
qed

lemma demo_race_result:
  "demo_race a u = \<lparr>cl_conn = 2, cl_cb = [], cl_live = {1, 2}, cl_signed = {0, 1}, cl_next = 3,
     cl_pc = [1 \<mapsto> Finished 2, 2 \<mapsto> Finished 2]\<rparr>"
  by (auto simp: demo_race_def demo_calls_def move_def fun_eq_iff)

section \<open>Properties\<close>

text \<open>
  C15. A request of the master's client survives the loss of its connection: if the master runs and the
  peer's certificate and address are good, \<^verbatim>\<open>SetFile\<close> on a connection that was shut down succeeds.
  The client dials a new connection, signs in there before the request is sent again, re-exports
  its shares in order, with all their requests published over the new connection meanwhile, and keeps its
  callback for the next loss; the master then holds the file under the name of the user. The re-exports
  are taken to return (their requests are taken off the channel) and to publish files.
\<close>

theorem SetFile_survives_reconnect:
  fixes F :: "string \<Rightarrow> 's \<Rightarrow> 's \<times> SetFileRequest list" and w :: "(Database, 's) net_world"
  assumes "sessions (nw_master w) (mc_Client c) = None" and "nw_up w" and "inmem_inv (mdb (nw_master w))"
    and "reconnCb c = SigninCb addr u # map ExportCb shs"
    and "\<forall>sh \<in> set shs. \<forall>s. \<forall>q \<in> set (snd (F sh s)). sf_Info q \<noteq> None"
    and "verifiedChains tls = (u # rest) # chs" and "u \<noteq> []" and "addr \<noteq> []" and "backAddr tls addr \<noteq> []"
    and "dialPeer nenv (backAddr tls addr) u = None" and "pingPeer nenv (backAddr tls addr) = None"
    and "\<forall>x \<in> set (u # splitOn (CHR ''/'') path). \<not> bad_part x"
  shows "\<exists>c' w'. client_SetFile (masterNet inmem_ops env mv nenv tls) (onPeer (\<lambda>sh s. Some (F sh s)))
        \<lparr>sf_Path = path, sf_Info = Some fi\<rparr> (c, w) = Some ((c', w'), None)
    \<and> reconnCb c' = reconnCb c \<and> nw_peer w' = fold (\<lambda>sh s. fst (F sh s)) shs (nw_peer w)
    \<and> sessions (nw_master w') (mc_Client c') =
        Some (tls, \<lparr>user = u, address = backAddr tls addr, ident = u @ ''@'' @ backAddr tls addr\<rparr>)
    \<and> lookupFile (fileTree (mdb (nw_master w'))) (u # splitOn (CHR ''/'') path) = Some fi"
proof -
  let ?p = "u # splitOn (CHR ''/'') path" and ?q = "\<lparr>sf_Path = path, sf_Info = Some fi\<rparr>"
  let ?id = "u @ ''@'' @ backAddr tls addr"
  let ?peer = "\<lparr>user = u, address = backAddr tls addr, ident = ?id\<rparr>"
  obtain w1 where w1: "signedOn tls ?peer (nw_next w) w1" "nw_peer w1 = fold (\<lambda>sh s. fst (F sh s)) shs (nw_peer w)"
    and call: "Call (masterNet inmem_ops env mv nenv tls) (onPeer (\<lambda>sh s. Some (F sh s))) (ReqSetFile ?q) (c, w) =
      (let (w4, r) = masterCall inmem_ops env mv nenv (nw_next w) (ReqSetFile ?q) w1 in Some ((c\<lparr>mc_Client := nw_next w\<rparr>, w4), r))"
    using Call_after_loss [OF assms(1-8,10,11), of env mv "ReqSetFile ?q"] by blast
  obtain d' where d': "op_SetFile inmem_ops (mdb (nw_master w1)) ?p (Some fi) ?id = Return (d', None)"
    and look: "lookupFile (fileTree d') ?p = Some fi"
    using inmem.publish [of "mdb (nw_master w1)" ?p fi ?id] w1(1) by (auto simp: signedOn_def)
  have "find bad_part ?p = None" using assms(12) by (simp add: find_None)
  then have "rpc_SetFile inmem_ops (mdb (nw_master w1)) ?peer ?q = Return (d', None)"
    using assms(9) d' by (simp add: rpc_SetFile_def)
  then show ?thesis using w1 call look by (simp add: client_SetFile_def masterCall_def masterHandle_def signedOn_def)
qed

definition demo_world :: "(Database, string list) net_world" where
  "demo_world = \<lparr>nw_master = \<lparr>mdb = newDatabase, sessions = Map.empty\<rparr>, nw_up = True, nw_next = 7, nw_peer = []\<rparr>"

definition demo_client :: RUFSMasterClient where
  "demo_client = \<lparr>mc_addr = ''m:1'', mc_Client = 3, reconnCb = [SigninCb ''10.0.0.2:80'' ''al'', ExportCb ''docs'']\<rparr>"

text \<open>The shares of the example re-export one file each.\<close>

definition demo_export :: "string \<Rightarrow> string list \<Rightarrow> string list \<times> SetFileRequest list" where
  "demo_export sh l = (sh # l, [\<lparr>sf_Path = sh @ ''/y'', sf_Info = Some demo_info\<rparr>])"

theorem SetFile_survives_reconnect_witness:
  "\<exists>c' w'. client_SetFile (masterNet inmem_ops demo_env \<lparr>ca = ''c'', priv = ''k''\<rparr> demo_net demo_conn) (onPeer (\<lambda>sh l. Some (demo_export sh l)))
       \<lparr>sf_Path = ''d/x'', sf_Info = Some demo_info\<rparr> (demo_client, demo_world) = Some ((c', w'), None)
     \<and> reconnCb c' = reconnCb demo_client \<and> nw_peer w' = [''docs'']
     \<and> lookupFile (fileTree (mdb (nw_master w'))) [''al'', ''d'', ''x''] = Some demo_info"
  using SetFile_survives_reconnect [of demo_world demo_client "''10.0.0.2:80''" "''al''" "[''docs'']" demo_export demo_conn "[''rufs-master'']" "[]" demo_net "''d/x''"
      demo_env "\<lparr>ca = ''c'', priv = ''k''\<rparr>" demo_info]
  by (auto simp: demo_export_def demo_world_def demo_client_def demo_conn_def demo_net_def inmem_inv_def newDatabase_def backAddr_def hasPrefix_def bad_part_def)

text \<open>
  C37. Reconnecting is not safe for concurrent callers, and the program has four goroutines that send
  requests over one client: there is a run from a signed-in client in which two callers find the
  connection lost, both return, and the reconnect callback is gone; the connection that the client
  is left with was never signed in on, and no later call, whatever connections are lost, ever
  signs in again.
\<close>

theorem reconnect_race_loses_callback:
  "\<exists>s0 s. cl_cb s0 = [SigninCb a u] \<and> cl_conn s0 \<in> cl_live s0 \<inter> cl_signed s0 \<and> cl_pc s0 = Map.empty \<and> call_reach s0 s
     \<and> ran (cl_pc s) \<subseteq> range Finished \<and> cl_conn s \<in> cl_live s - cl_signed s
     \<and> {t. call_reach s t} \<subseteq> {t. cl_cb t = [] \<and> cl_signed t = cl_signed s}"
proof (intro exI conjI)
  let ?s = "demo_race a u"
  show "call_reach (demo_calls a u) ?s" by (rule demo_race_reach)
  have "no_callback ?s" by (auto simp: no_callback_def demo_race_result split: if_splits)
  then show "{t. call_reach ?s t} \<subseteq> {t. cl_cb t = [] \<and> cl_signed t = cl_signed ?s}"
    using no_callback_reach [of ?s] by (auto simp: no_callback_def)
qed (auto simp: demo_race_result demo_calls_def ran_def)

end
