(* ===== verification/Main_Program.thy ===== *)
theory Main_Program
  imports Master_Service Peer_Server Frontend_Lib
begin

text \<open>
  The start of the program, \<^verbatim>\<open>main.go\<close>, and of the master, \<^verbatim>\<open>master.go\<close>: which modules the flags select,
  their construction and set-up with the ways the process can end there, key generation and the
  printing of a registration token, and how \<^verbatim>\<open>main\<close> collects the results of the running modules.

  \<^verbatim>\<open>log.Fatalln\<close> ends the process with code 1. The modules run concurrently and report over a channel
  of capacity one; this part is the step relation \<open>main_step\<close>.
\<close>

section \<open>The master\<close>

record ('k, 'c, 'db) MasterProc =
  mp_port :: int
  mp_dir :: string
  mp_vault :: "('k, 'c) MasterVault"
  mp_db :: 'db

definition ensureDirExists :: "(string \<Rightarrow> go_error option) \<Rightarrow> string \<Rightarrow> unit go" where
  "ensureDirExists mkdirErr dir = (if mkdirErr dir \<noteq> None then Panic else Return ())"

abbreviation "caKey dir \<equiv> joinPath [dir, ''ca.key'']"
abbreviation "caCrt dir \<equiv> joinPath [dir, ''ca.crt'']"

definition newMaster ::
  "('k, 'p, 'c) crypto_env \<Rightarrow> (string \<Rightarrow> go_error option) \<Rightarrow> go_error + 'db \<Rightarrow> flags \<Rightarrow> filesys \<Rightarrow> int
     \<Rightarrow> (go_error + ('k, 'c, 'db) MasterProc) go"
where
  "newMaster env mkdirErr newDb fl fs prt =
     go_bind (getPath fl (masterDir fl)) (\<lambda>dir.
     go_bind (ensureDirExists mkdirErr dir) (\<lambda>_. Return
       (case loadMasterVault env fs (caKey dir) (caCrt dir) of
          Inl e \<Rightarrow> Inl e
        | Inr vault \<Rightarrow>
            (case newDb of
               Inl e \<Rightarrow> Inl e
             | Inr db \<Rightarrow> Inr \<lparr>mp_port = prt, mp_dir = dir, mp_vault = vault, mp_db = db\<rparr>))))"

text \<open>The ways a set-up ends: the module is ready, an error, or the process exits after printing a line.\<close>

datatype setup_result = SetupOk | SetupErr go_error | PrintAndExit string

definition master_Setup ::
  "('k, 'p, 'c) crypto_env \<Rightarrow> (string \<Rightarrow> go_error option) \<Rightarrow> flags \<Rightarrow> ('k, 'c, 'db) MasterProc \<Rightarrow> setup_result"
where
  "master_Setup env tlsListenErr fl m =
     (if getAuthToken fl \<noteq> [] then PrintAndExit (createAuthToken env (mp_vault m) (getAuthToken fl))
      else case tlsListenErr ('':'' @ intStr (mp_port m)) of
        Some e \<Rightarrow> SetupErr e
      | None \<Rightarrow> SetupOk)"

definition genMasterKeys ::
  "('k, 'p, 'c) crypto_env \<Rightarrow> (string \<Rightarrow> go_error option) \<Rightarrow> flags \<Rightarrow> filesys \<Rightarrow> (filesys \<times> go_error option) go"
where
  "genMasterKeys env mkdirErr fl fs =
     go_bind (getPath fl (masterDir fl)) (\<lambda>dir.
     go_bind (ensureDirExists mkdirErr dir) (\<lambda>_.
     go_bind (createCA env fs (caKey dir) (caCrt dir) ''rufs-master'') (\<lambda>(fs', e).
       Return (fs',
         case e of
           Some e \<Rightarrow> Some e
         | None \<Rightarrow>
             (case loadMasterVault env fs' (caKey dir) (caCrt dir) of
                Inl e \<Rightarrow> Some e
              | Inr _ \<Rightarrow> None)))))"

section \<open>Modules\<close>

datatype ('m, 's, 'f, 'u) module = MasterModule 'm | ServerModule 's | FtpModule 'f | FuseModule 'u

text \<open>
  The constructors of the modules, as the program calls them. The front ends register theirs in
  \<^verbatim>\<open>init\<close>; the files of a package are initialised in the order of their names, so the FTP server
  comes before the FUSE file system.
\<close>

record ('m, 's, 'f, 'u) makers =
  mkMaster :: "int \<Rightarrow> (go_error + 'm) go"
  mkServer :: "string \<Rightarrow> (go_error + 's) go"
  mkFTPd :: "'s \<Rightarrow> (go_error + 'f) go"
  mkFuse :: "'s \<Rightarrow> (go_error + 'u) go"

type_synonym ('m, 's, 'f, 'u) server_mod = "'s \<Rightarrow> (go_error + ('m, 's, 'f, 'u) module option) go"

definition ftpMod :: "flags \<Rightarrow> ('m, 's, 'f, 'u) makers \<Rightarrow> ('m, 's, 'f, 'u) server_mod" where
  "ftpMod fl mk s =
     (if ftpPort fl > 0
      then go_bind (mkFTPd mk s) (\<lambda>r. Return (case r of Inl e \<Rightarrow> Inl e | Inr f \<Rightarrow> Inr (Some (FtpModule f))))
      else Return (Inr None))"

definition fuseMod :: "flags \<Rightarrow> ('m, 's, 'f, 'u) makers \<Rightarrow> ('m, 's, 'f, 'u) server_mod" where
  "fuseMod fl mk s =
     (if mountpoint fl \<noteq> []
      then go_bind (mkFuse mk s) (\<lambda>r. Return (case r of Inl e \<Rightarrow> Inl e | Inr u \<Rightarrow> Inr (Some (FuseModule u))))
      else Return (Inr None))"

definition registerServerModule ::
  "('m, 's, 'f, 'u) server_mod \<Rightarrow> ('m, 's, 'f, 'u) server_mod list \<Rightarrow> ('m, 's, 'f, 'u) server_mod list"
where
  "registerServerModule f mods = mods @ [f]"

definition serverMods :: "flags \<Rightarrow> ('m, 's, 'f, 'u) makers \<Rightarrow> ('m, 's, 'f, 'u) server_mod list" where
  "serverMods fl mk = registerServerModule (fuseMod fl mk) (registerServerModule (ftpMod fl mk) [])"

fun addServerMods ::
  "('m, 's, 'f, 'u) server_mod list \<Rightarrow> 's \<Rightarrow> ('m, 's, 'f, 'u) module list \<Rightarrow> (go_error + ('m, 's, 'f, 'u) module list) go"
where
  "addServerMods [] s mods = Return (Inr mods)"
| "addServerMods (f # fs) s mods =
     go_bind (f s) (\<lambda>r.
     case r of
       Inl e \<Rightarrow> Return (Inl e)
     | Inr None \<Rightarrow> addServerMods fs s mods
     | Inr (Some sm) \<Rightarrow> addServerMods fs s (mods @ [sm]))"

definition selectModules :: "flags \<Rightarrow> ('m, 's, 'f, 'u) makers \<Rightarrow> (go_error + ('m, 's, 'f, 'u) module list) go" where
  "selectModules fl mk =
     go_bind
       (if masterPort fl \<noteq> 0 \<or> getAuthToken fl \<noteq> []
        then go_bind (mkMaster mk (masterPort fl)) (\<lambda>r. Return (case r of Inl e \<Rightarrow> Inl e | Inr m \<Rightarrow> Inr [MasterModule m]))
        else Return (Inr [])) (\<lambda>r.
     case r of
       Inl e \<Rightarrow> Return (Inl e)
     | Inr mods \<Rightarrow>
         go_bind
           (if masterAddr fl \<noteq> []
            then go_bind (mkServer mk (masterAddr fl)) (\<lambda>r.
                 case r of
                   Inl e \<Rightarrow> Return (Inl e)
                 | Inr s \<Rightarrow> addServerMods (serverMods fl mk) s (mods @ [ServerModule s]))
            else Return (Inr mods)) (\<lambda>r.
         Return (case r of Inl e \<Rightarrow> Inl e | Inr mods \<Rightarrow> if length mods = 0 then Inl NoModules else Inr mods)))"

text \<open>The loop over \<^verbatim>\<open>Setup\<close>; the process may end in it.\<close>

datatype start_result = Exit nat "string list" | Launched nat

fun setupAll :: "('a \<Rightarrow> setup_result go) \<Rightarrow> 'a list \<Rightarrow> start_result option go" where
  "setupAll setup [] = Return None"
| "setupAll setup (m # ms) =
     go_bind (setup m) (\<lambda>r.
     case r of
       SetupOk \<Rightarrow> setupAll setup ms
     | SetupErr e \<Rightarrow> Return (Some (Exit 1 []))
     | PrintAndExit t \<Rightarrow> Return (Some (Exit 0 [t])))"

definition main_start ::
  "flags \<Rightarrow> go_error option go \<Rightarrow> ('m, 's, 'f, 'u) makers \<Rightarrow> (('m, 's, 'f, 'u) module \<Rightarrow> setup_result go) \<Rightarrow> start_result go"
where
  "main_start fl genKeys mk setup =
     (if masterGenKeys fl
      then go_bind genKeys (\<lambda>e. Return (case e of Some e \<Rightarrow> Exit 1 [] | None \<Rightarrow> Exit 0 []))
      else
        go_bind (selectModules fl mk) (\<lambda>r.
        case r of
          Inl e \<Rightarrow> Return (Exit 1 [])
        | Inr mods \<Rightarrow>
            go_bind (setupAll setup mods) (\<lambda>x.
            Return (case x of Some res \<Rightarrow> res | None \<Rightarrow> Launched (length mods)))))"

section \<open>Collecting the results\<close>

text \<open>
  \<open>running\<close> are the modules whose \<^verbatim>\<open>Run\<close> has not returned; \<open>sending\<close> are results whose goroutine is
  blocked on the channel or about to send; \<open>chanBuf\<close> is the buffer of the channel \<^verbatim>\<open>ret\<close>, of capacity
  one; \<open>received\<close> records what \<^verbatim>\<open>main\<close> took out. \<^verbatim>\<open>main\<close> is in its \<^verbatim>\<open>select\<close>, in the receive after a
  signal, at the head of the loop body with the index, the last result and the exit code, in the
  receive at the end of the loop body, or it has exited. \<open>ctxCancelled\<close> says that \<^verbatim>\<open>cancel()\<close> was called, in
  either branch of the \<^verbatim>\<open>select\<close>.

  A module is known by what its \<^verbatim>\<open>Run\<close> does: \<open>quits m\<close> if it may return by itself, as with an error,
  and \<open>obeys m\<close> if it returns after the context was cancelled. A module that does neither can be
  expressed: the FUSE module whose unmounting fails, for one.
\<close>

datatype main_pc =
    Selecting
  | Signalled
  | LoopBody nat "go_error option" nat
  | Receiving nat nat
  | Exited nat

record main_sys =
  running :: "nat list"
  sending :: "go_error option list"
  chanBuf :: "go_error option list"
  received :: "go_error option list"
  ctxCancelled :: bool
  mpc :: main_pc

inductive main_step :: "(nat \<Rightarrow> bool) \<Rightarrow> (nat \<Rightarrow> bool) \<Rightarrow> nat \<Rightarrow> main_sys \<Rightarrow> main_sys \<Rightarrow> bool"
  for quits obeys :: "nat \<Rightarrow> bool" and n :: nat
where
  runReturns: "running s = as @ m # bs \<Longrightarrow> quits m \<or> ctxCancelled s \<and> obeys m \<Longrightarrow>
     main_step quits obeys n s (s\<lparr>running := as @ bs, sending := sending s @ [r]\<rparr>)"
| send: "sending s = as @ r # bs \<Longrightarrow> length (chanBuf s) < 1 \<Longrightarrow>
     main_step quits obeys n s (s\<lparr>sending := as @ bs, chanBuf := chanBuf s @ [r]\<rparr>)"
| sig: "mpc s = Selecting \<Longrightarrow> main_step quits obeys n s (s\<lparr>ctxCancelled := True, mpc := Signalled\<rparr>)"
| firstSig: "mpc s = Signalled \<Longrightarrow> chanBuf s = r # rs \<Longrightarrow>
     main_step quits obeys n s (s\<lparr>chanBuf := rs, received := received s @ [r], mpc := LoopBody (n - 1) r 0\<rparr>)"
| firstRet: "mpc s = Selecting \<Longrightarrow> chanBuf s = r # rs \<Longrightarrow>
     main_step quits obeys n s (s\<lparr>chanBuf := rs, received := received s @ [r], ctxCancelled := True,
       mpc := LoopBody (n - 1) r 0\<rparr>)"
| body: "mpc s = LoopBody i err ec \<Longrightarrow> ec' = (if err \<noteq> None then 1 else ec) \<Longrightarrow>
     main_step quits obeys n s (s\<lparr>mpc := if i > 0 then Receiving i ec' else Exited ec'\<rparr>)"
| recv: "mpc s = Receiving i ec \<Longrightarrow> chanBuf s = r # rs \<Longrightarrow>
     main_step quits obeys n s (s\<lparr>chanBuf := rs, received := received s @ [r], mpc := LoopBody (i - 1) r ec\<rparr>)"

inductive main_reach :: "(nat \<Rightarrow> bool) \<Rightarrow> (nat \<Rightarrow> bool) \<Rightarrow> nat \<Rightarrow> main_sys \<Rightarrow> bool"
  for quits obeys :: "nat \<Rightarrow> bool" and n :: nat
where
  launch: "main_reach quits obeys n \<lparr>running = [0..<n], sending = [], chanBuf = [], received = [],
     ctxCancelled = False, mpc = Selecting\<rparr>"
| step: "main_reach quits obeys n s \<Longrightarrow> main_step quits obeys n s t \<Longrightarrow> main_reach quits obeys n t"

inductive_cases main_stepE [consumes 1, case_names runReturns send sig firstSig firstRet body recv]:
  "main_step quits obeys n s t"

section \<open>The exit code\<close>

definition exitCode :: "go_error option list \<Rightarrow> nat" where
  "exitCode rs = (if \<exists>r \<in> set rs. r \<noteq> None then 1 else 0)"

fun pc_inv :: "nat \<Rightarrow> go_error option list \<Rightarrow> main_pc \<Rightarrow> bool" where
  "pc_inv n rs Selecting \<longleftrightarrow> rs = []"
| "pc_inv n rs Signalled \<longleftrightarrow> rs = []"
| "pc_inv n rs (LoopBody i err ec) \<longleftrightarrow> (\<exists>ss. rs = ss @ [err] \<and> length rs + i = n \<and> ec = exitCode ss)"
| "pc_inv n rs (Receiving i ec) \<longleftrightarrow> 0 < i \<and> length rs + i = n \<and> ec = exitCode rs"
| "pc_inv n rs (Exited ec) \<longleftrightarrow> length rs = n \<and> ec = exitCode rs"

definition main_inv :: "nat \<Rightarrow> main_sys \<Rightarrow> bool" where
  "main_inv n s \<longleftrightarrow> length (running s) + length (sending s) + length (chanBuf s) + length (received s) = n
     \<and> pc_inv n (received s) (mpc s) \<and> (mpc s \<noteq> Selecting \<longrightarrow> ctxCancelled s)"

lemma exitCode_snoc: "exitCode (rs @ [r]) = (if r \<noteq> None then 1 else exitCode rs)"
  by (auto simp: exitCode_def)

lemma main_inv_step:
  assumes "main_step quits obeys n s t" and "main_inv n s" and "0 < n"
  shows "main_inv n t"
  using assms(1)
proof (cases rule: main_stepE)
  case (firstSig r rs)
  then have "received s = []" using assms(2) by (auto simp: main_inv_def)
  then show ?thesis using firstSig assms(2,3) by (auto simp: main_inv_def exitCode_def)
next
  case (firstRet r rs)
  then have "received s = []" using assms(2) by (auto simp: main_inv_def)
  then show ?thesis using firstRet assms(2,3) by (auto simp: main_inv_def exitCode_def)
next
  case (body i err ec)
  then show ?thesis using assms(2) by (auto simp: main_inv_def exitCode_snoc)
qed (use assms(2) in \<open>auto simp: main_inv_def\<close>)

lemma main_inv_reach: "main_reach quits obeys n s \<Longrightarrow> 0 < n \<Longrightarrow> main_inv n s"
proof (induction rule: main_reach.induct)
  case (step s t)
  then show ?case using main_inv_step by blast
qed (simp add: main_inv_def)

lemma main_inv_steps: "(main_step quits obeys n)\<^sup>*\<^sup>* s t \<Longrightarrow> main_inv n s \<Longrightarrow> 0 < n \<Longrightarrow> main_inv n t"
  by (induction rule: rtranclp_induct) (auto dest: main_inv_step)

text \<open>A module that neither quits nor obeys keeps running.\<close>

lemma stubborn_keeps_running:
  "(main_step quits obeys n)\<^sup>*\<^sup>* s t \<Longrightarrow> m \<in> set (running s) \<Longrightarrow> \<not> quits m \<Longrightarrow> \<not> obeys m \<Longrightarrow> m \<in> set (running t)"
proof (induction rule: rtranclp_induct)
  case (step t u)
  then have "m \<in> set (running t)" by blast
  with step.hyps(2) step.prems(2,3) show ?case by (cases rule: main_stepE) auto
qed

text \<open>Every step makes the work that is left smaller.\<close>

fun pc_work :: "nat \<Rightarrow> main_pc \<Rightarrow> nat" where
  "pc_work n Selecting = 2 * n + 2"
| "pc_work n Signalled = 2 * n + 1"
| "pc_work n (LoopBody i err ec) = 2 * i + 1"
| "pc_work n (Receiving i ec) = 2 * i"
| "pc_work n (Exited ec) = 0"

definition main_work :: "nat \<Rightarrow> main_sys \<Rightarrow> nat" where
  "main_work n s = 3 * length (running s) + 2 * length (sending s) + length (chanBuf s) + pc_work n (mpc s)"

lemma main_work_step:
  assumes "main_step quits obeys n s t" and "main_inv n s"
  shows "main_work n t < main_work n s"
  using assms(1)
proof (cases rule: main_stepE)
  case (recv i ec r rs)
  then have "0 < i" using assms(2) by (auto simp: main_inv_def)
  then show ?thesis using recv by (auto simp: main_work_def)
qed (auto simp: main_work_def)

lemma main_stuck:
  assumes "main_inv n s" and "0 < n" and "\<nexists>t. main_step quits obeys n s t"
    and "\<forall>m \<in> set (running s). quits m \<or> obeys m"
  shows "\<exists>ec. mpc s = Exited ec"
proof -
  have sel: "mpc s \<noteq> Selecting" using assms(3) main_step.sig by blast
  have running: "running s = []"
  proof (rule ccontr)
    assume "running s \<noteq> []"
    then obtain m ms where m: "running s = [] @ m # ms" by (cases "running s") auto
    then have "quits m \<or> ctxCancelled s \<and> obeys m" using assms(1,4) sel by (auto simp: main_inv_def)
    then show False using assms(3) main_step.runReturns [OF m] by blast
  qed
  have sending: "sending s = []" if "chanBuf s = []"
  proof (rule ccontr)
    assume "sending s \<noteq> []"
    then obtain r rs where "sending s = [] @ r # rs" by (cases "sending s") auto
    then show False using assms(3) that main_step.send [of s "[]" r rs] by auto
  qed
  have left: "\<not> (\<exists>r rs. chanBuf s = r # rs)" if "mpc s = Signalled \<or> (\<exists>i ec. mpc s = Receiving i ec)"
    using that assms(3) main_step.firstSig main_step.recv by blast
  show ?thesis
  proof (cases "mpc s")
    case (LoopBody i err ec)
    then show ?thesis using assms(3) main_step.body by blast
  next
    case (Receiving i ec)
    then have "chanBuf s = []" using left by (cases "chanBuf s") auto
    then show ?thesis using running sending Receiving assms(1) by (auto simp: main_inv_def)
  next
    case Signalled
    then have "chanBuf s = []" using left by (cases "chanBuf s") auto
    then show ?thesis using running sending Signalled assms(1,2) by (auto simp: main_inv_def)
  qed (use sel in simp_all)
qed

section \<open>Properties\<close>

text \<open>
  C26. The program ends once it is told to or one of its modules ends, if the modules heed the
  cancelled context. Every step of the launched program makes progress on a finite amount of work. A
  state without a further step is the exit, unless a module is still running that neither returns
  by itself nor when the context is cancelled; with such a module the program never exits. At the exit
  every module has returned, no goroutine is blocked on the channel of results, and the exit code is 1
  exactly when one of the modules returned an error.
\<close>

theorem main_exits:
  assumes "main_reach quits obeys n s" and "0 < n"
  shows "(\<forall>t. main_step quits obeys n s t \<longrightarrow> main_work n t < main_work n s)
    \<and> ((\<nexists>t. main_step quits obeys n s t) \<and> (\<forall>m \<in> set (running s). quits m \<or> obeys m) \<longrightarrow> (\<exists>ec. mpc s = Exited ec))
    \<and> ((\<exists>m \<in> set (running s). \<not> quits m \<and> \<not> obeys m) \<longrightarrow>
         (\<forall>t ec. (main_step quits obeys n)\<^sup>*\<^sup>* s t \<longrightarrow> mpc t \<noteq> Exited ec))
    \<and> (\<forall>ec. mpc s = Exited ec \<longrightarrow> length (received s) = n \<and> running s = [] \<and> sending s = [] \<and> chanBuf s = []
         \<and> ec = (if \<exists>r \<in> set (received s). r \<noteq> None then 1 else 0))"
proof -
  have inv: "main_inv n s" by (rule main_inv_reach [OF assms])
  have exited: "length (received t) = n \<and> running t = [] \<and> sending t = [] \<and> chanBuf t = [] \<and> ec = exitCode (received t)"
    if "main_inv n t" "mpc t = Exited ec" for t ec using that by (auto simp: main_inv_def)
  have "mpc t \<noteq> Exited ec"
    if "m \<in> set (running s)" "\<not> quits m" "\<not> obeys m" "(main_step quits obeys n)\<^sup>*\<^sup>* s t" for m t ec
    using exited [OF main_inv_steps [OF that(4) inv assms(2)], of ec] stubborn_keeps_running [OF that(4,1-3)] by auto
  then show ?thesis
    using main_work_step [OF _ inv] main_stuck [OF inv assms(2)] exited [OF inv] unfolding exitCode_def by blast
qed

text \<open>Two modules, of which the first fails by itself and the second waits for the context.\<close>

definition demo_exit :: main_sys where
  "demo_exit = \<lparr>running = [], sending = [], chanBuf = [], received = [Some ENOENT, None], ctxCancelled = True, mpc = Exited 1\<rparr>"

lemma demo_exit_reach: "main_reach (\<lambda>m. m = 0) (\<lambda>m. True) 2 demo_exit"
proof -
  let ?s = "\<lambda>ru se ch re cx pc. \<lparr>running = ru, sending = se, chanBuf = ch, received = re, ctxCancelled = cx, mpc = pc\<rparr>"
  let ?e = "Some ENOENT" and ?step = "main_step (\<lambda>m. m = 0) (\<lambda>m. True) 2"
  have "main_reach (\<lambda>m. m = 0) (\<lambda>m. True) 2 (?s [0, 1] [] [] [] False Selecting)"
    using main_reach.launch [of "\<lambda>m. m = 0" "\<lambda>m. True" 2] by (simp add: upt_rec)
  moreover have "?step (?s [0, 1] [] [] [] False Selecting) (?s [1] [?e] [] [] False Selecting)"
    using main_step.runReturns [of "?s [0, 1] [] [] [] False Selecting" "[]" 0 "[1]"] by simp
  moreover have "?step (?s [1] [?e] [] [] False Selecting) (?s [1] [] [?e] [] False Selecting)"
    using main_step.send [of "?s [1] [?e] [] [] False Selecting" "[]" ?e "[]"] by simp
  moreover have "?step (?s [1] [] [?e] [] False Selecting) (?s [1] [] [] [?e] True (LoopBody 1 ?e 0))"
    using main_step.firstRet [of "?s [1] [] [?e] [] False Selecting" ?e "[]" _ _ 2] by simp
  moreover have "?step (?s [1] [] [] [?e] True (LoopBody 1 ?e 0)) (?s [1] [] [] [?e] True (Receiving 1 1))"
    using main_step.body [of "?s [1] [] [] [?e] True (LoopBody 1 ?e 0)" 1 ?e 0] by simp
  moreover have "?step (?s [1] [] [] [?e] True (Receiving 1 1)) (?s [] [None] [] [?e] True (Receiving 1 1))"
    using main_step.runReturns [of "?s [1] [] [] [?e] True (Receiving 1 1)" "[]" 1 "[]"] by simp
  moreover have "?step (?s [] [None] [] [?e] True (Receiving 1 1)) (?s [] [] [None] [?e] True (Receiving 1 1))"
    using main_step.send [of "?s [] [None] [] [?e] True (Receiving 1 1)" "[]" None "[]"] by simp
  moreover have "?step (?s [] [] [None] [?e] True (Receiving 1 1)) (?s [] [] [] [?e, None] True (LoopBody 0 None 1))"
    using main_step.recv [of "?s [] [] [None] [?e] True (Receiving 1 1)" 1 1 None "[]"] by simp
  moreover have "?step (?s [] [] [] [?e, None] True (LoopBody 0 None 1)) demo_exit"
    using main_step.body [of "?s [] [] [] [?e, None] True (LoopBody 0 None 1)" 0 None 1 1] by (simp add: demo_exit_def)
  ultimately show ?thesis by (meson main_reach.step)
qed

theorem main_exits_witness:
  "main_reach (\<lambda>m. m = 0) (\<lambda>m. True) 2 demo_exit \<and> mpc demo_exit = Exited 1 \<and> length (received demo_exit) = 2"
  using main_exits [OF demo_exit_reach] demo_exit_reach by (simp add: demo_exit_def)

text \<open>What the flags select when every constructor succeeds.\<close>

lemma selectModules_ok:
  assumes "\<And>p. mkMaster mk p = Return (Inr (m p))" and "\<And>a. mkServer mk a = Return (Inr (sv a))"
    and "\<And>x. mkFTPd mk x = Return (Inr (f x))" and "\<And>x. mkFuse mk x = Return (Inr (u x))"
  shows "selectModules fl mk = Return
    (let mods = (if masterPort fl \<noteq> 0 \<or> getAuthToken fl \<noteq> [] then [MasterModule (m (masterPort fl))] else []) @
       (if masterAddr fl = [] then []
        else let x = sv (masterAddr fl) in
          ServerModule x # (if ftpPort fl > 0 then [FtpModule (f x)] else []) @ (if mountpoint fl \<noteq> [] then [FuseModule (u x)] else []))
     in if mods = [] then Inl NoModules else Inr mods)"
  using assms by (simp add: selectModules_def serverMods_def registerServerModule_def ftpMod_def fuseMod_def Let_def)

text \<open>The keys that were generated and tested are the keys of every master started on the same directory.\<close>

lemma genMasterKeys_ok:
  assumes "genMasterKeys env mkdirErr fl fs = Return (fs', None)"
  obtains vault dir where "getPath fl (masterDir fl) = Return dir" and "ensureDirExists mkdirErr dir = Return ()"
    and "loadMasterVault env fs' (caKey dir) (caCrt dir) = Inr vault"
proof -
  from assms obtain dir where dir: "getPath fl (masterDir fl) = Return dir"
    by (auto simp: genMasterKeys_def go_bind_Return_iff)
  with assms have mk: "ensureDirExists mkdirErr dir = Return ()"
    by (auto simp: genMasterKeys_def go_bind_Return_iff)
  from assms dir mk obtain vault where "loadMasterVault env fs' (caKey dir) (caCrt dir) = Inr vault"
    by (auto simp: genMasterKeys_def go_bind_Return_iff split: option.splits sum.splits)
  then show ?thesis using that dir mk by blast
qed

lemma newMaster_ok:
  assumes "getPath fl (masterDir fl) = Return dir" and "ensureDirExists mkdirErr dir = Return ()"
    and "loadMasterVault env fs (caKey dir) (caCrt dir) = Inr vault" and "getPath fl' (masterDir fl') = getPath fl (masterDir fl)"
  shows "newMaster env mkdirErr (Inr db) fl' fs prt = Return (Inr \<lparr>mp_port = prt, mp_dir = dir, mp_vault = vault, mp_db = db\<rparr>)"
  using assms by (simp add: newMaster_def)

text \<open>
  C27. From a new installation to a registered peer: after \<^verbatim>\<open>--master_gen_keys\<close> succeeded, a run with
  \<^verbatim>\<open>--get_auth_token\<close> for a user prints one token and exits with code 0, and the master that is
  started on the same directory accepts this token and answers with a certificate.
\<close>

theorem printed_token_registers:
  assumes "genMasterKeys env mkdirErr fl fs = Return (fs', None)"
    and "getPath fl1 (masterDir fl1) = getPath fl (masterDir fl)" and "getPath fl2 (masterDir fl2) = getPath fl (masterDir fl)"
    and "\<not> masterGenKeys fl1" and "getAuthToken fl1 = u" and "u \<noteq> []" and "masterAddr fl1 = []"
    and "mkMaster mk = newMaster env mkdirErr (Inr db1) fl1 fs'"
    and "\<And>m. setup (MasterModule m) = Return (master_Setup env listen fl1 m)"
    and "parsePKIX env pub = Inr pk" and "randInt env = Inr serial" and "\<forall>t c k. \<exists>der. signWith env t c pk k = Inr der"
  shows "\<exists>token m cert. main_start fl1 gk mk setup = Return (Exit 0 [token])
    \<and> newMaster env mkdirErr (Inr db2) fl2 fs' prt = Return (Inr m)
    \<and> Register env (mp_vault m) \<lparr>rr_User = u, rr_Token = token, rr_PublicKey = pub\<rparr> = Return (Inr cert)"
proof -
  obtain vault dir where keys: "getPath fl (masterDir fl) = Return dir" "ensureDirExists mkdirErr dir = Return ()"
    "loadMasterVault env fs' (caKey dir) (caCrt dir) = Inr vault"
    by (rule genMasterKeys_ok [OF assms(1)])
  note m1 = newMaster_ok [OF keys, of fl1 db1, OF assms(2)] and m2 = newMaster_ok [OF keys, of fl2 db2 prt, OF assms(3)]
  have "main_start fl1 gk mk setup = Return (Exit 0 [createAuthToken env vault u])"
    using assms(4-9) m1 by (simp add: main_start_def selectModules_def master_Setup_def)
  moreover have "\<exists>cert. Register env vault \<lparr>rr_User = u, rr_Token = createAuthToken env vault u, rr_PublicKey = pub\<rparr> = Return (Inr cert)"
  proof -
    obtain t where "createCertTemplate env False u = Return t" using assms(11) by (simp add: createCertTemplate_def)
    moreover obtain der where "signWith env t (ca vault) pk (priv vault) = Inr der" using assms(12) by blast
    ultimately show ?thesis using assms(10) by (simp add: Register_def signClient_def)
  qed
  ultimately show ?thesis using m2 by auto
qed

definition demo_install :: flags where
  "demo_install = demo_flags\<lparr>masterDir := ''/m'', masterAddr := [], getAuthToken := ''al''\<rparr>"

definition demo_makers :: "filesys \<Rightarrow> ((string, string, Database) MasterProc, unit, unit, unit) makers" where
  "demo_makers fs = \<lparr>mkMaster = newMaster demo_env (\<lambda>d. None) (Inr newDatabase) demo_install fs,
     mkServer = (\<lambda>a. Return (Inr ())), mkFTPd = (\<lambda>x. Return (Inr ())), mkFuse = (\<lambda>x. Return (Inr ()))\<rparr>"

definition demo_setup :: "((string, string, Database) MasterProc, unit, unit, unit) module \<Rightarrow> setup_result go" where
  "demo_setup m = (case m of MasterModule p \<Rightarrow> Return (master_Setup demo_env (\<lambda>a. None) demo_install p) | _ \<Rightarrow> Return SetupOk)"

lemma demo_genKeys:
  "genMasterKeys demo_env (\<lambda>d. None) demo_install [] =
     Return ([(''/m/ca.key'', ''RSA PRIVATE KEY'' @ NUL # ''K''), (''/m/ca.crt'', ''CERTIFICATE'' @ NUL # ''rufs-master'')], None)"
proof -
  have g: "getPath demo_install (masterDir demo_install) = Return ''/m''"
    using getPath_plain [of "''/m''" demo_install]
    by (simp add: demo_install_def hasPrefix_def marker_def sublist_Cons_right)
  have "createCA demo_env [] (caKey ''/m'') (caCrt ''/m'') ''rufs-master'' =
      Return ([(''/m/ca.key'', ''RSA PRIVATE KEY'' @ NUL # ''K''), (''/m/ca.crt'', ''CERTIFICATE'' @ NUL # ''rufs-master'')], None)"
    by code_simp
  moreover have "loadMasterVault demo_env [(''/m/ca.key'', ''RSA PRIVATE KEY'' @ NUL # ''K''), (''/m/ca.crt'', ''CERTIFICATE'' @ NUL # ''rufs-master'')]
      (caKey ''/m'') (caCrt ''/m'') = Inr \<lparr>ca = ''rufs-master'', priv = ''K''\<rparr>"
    by code_simp
  ultimately show ?thesis using g by (simp add: genMasterKeys_def ensureDirExists_def)
qed

theorem printed_token_registers_witness:
  "\<exists>fs token m cert.
     genMasterKeys demo_env (\<lambda>d. None) demo_install [] = Return (fs, None)
   \<and> main_start demo_install (Return None) (demo_makers fs) demo_setup = Return (Exit 0 [token])
   \<and> newMaster demo_env (\<lambda>d. None) (Inr newDatabase) demo_install fs 1666 = Return (Inr m)
   \<and> Register demo_env (mp_vault m) \<lparr>rr_User = ''al'', rr_Token = token, rr_PublicKey = ''P''\<rparr> = Return (Inr cert)"
proof -
  have "mkMaster (demo_makers fs) = newMaster demo_env (\<lambda>d. None) (Inr newDatabase) demo_install fs"
    "\<And>m. demo_setup (MasterModule m) = Return (master_Setup demo_env (\<lambda>a. None) demo_install m)" for fs
    by (simp_all add: demo_makers_def demo_setup_def)
  from printed_token_registers [OF demo_genKeys refl refl _ refl _ _ this, of "''P''" "''P''" 7 "Return None" newDatabase 1666] demo_genKeys
  show ?thesis by (auto simp: demo_install_def demo_flags_def demo_env_def)
qed

end
