(* ===== verification/Database_Sqlite.thy ===== *)
theory Database_Sqlite
  imports Database_Api
begin

text \<open>
  The SQLite implementation of the database, \<^verbatim>\<open>database_sqlite.go\<close>: one table \<^verbatim>\<open>fs\<close> with a row for each
  path and peer, six prepared statements, and a cache in memory of the sub-directories of every
  directory.

  The SQL engine is third-party code. The statements are the fields of the record \<open>sql_ops\<close> on the
  engine's state \<open>'t\<close>; the locale \<open>sql_engine\<close> states what the documentation of the engine says each
  prepared statement does to the table, seen as a map from the primary key (directory, file, peer)
  to the other columns. The relational reading of the statements on a list of rows, \<open>tableSql\<close>, is
  an interpretation of it. In a statement with \<^verbatim>\<open>GROUP BY\<close> the other columns come from some row of
  the group.
\<close>

section \<open>The statements\<close>

type_synonym row_key = "string \<times> string \<times> string"
type_synonym row_data = "int \<times> int \<times> string"

record 't sql_ops =
  sqlBegin :: "'t \<Rightarrow> go_error + 't"
  sqlCommit :: "'t \<Rightarrow> 't \<times> go_error option"
  stmtAddFile :: "row_key \<Rightarrow> row_data \<Rightarrow> 't \<Rightarrow> 't \<times> go_error option"
  stmtDeleteFile :: "row_key \<Rightarrow> 't \<Rightarrow> 't \<times> go_error option"
  stmtDisconnect :: "string \<Rightarrow> 't \<Rightarrow> 't \<times> go_error option"
  stmtGetOwners :: "string \<Rightarrow> 't \<Rightarrow> go_error + string list"
  stmtGetDir :: "string \<Rightarrow> 't \<Rightarrow> go_error + (string \<times> row_data) list"
  stmtGetAllDirs :: "'t \<Rightarrow> go_error + string list \<times> go_error option"

text \<open>The last query yields rows and then possibly an error, because its caller keeps the rows.\<close>

record 't SqliteDb =
  sdb :: 't
  dirCache :: "(string, string list) gomap option"

text \<open>
  \<^verbatim>\<open>newDatabase\<close>: an old file is removed, the table and its indices are made, the statements are prepared
  in order; the first failure is returned.
\<close>

datatype sql_text =
    CreateTableFs | PragmaSynchronousOff | PragmaJournalModeOff | PragmaLockingModeExclusive
  | InsertFs | DeleteFs | DeletePeer | SelectOwners | SelectDir | SelectDirectories

record 't sql_driver =
  sqlOpen :: "string \<Rightarrow> go_error + 't"
  sqlExec :: "sql_text \<Rightarrow> 't \<Rightarrow> go_error + 't"
  sqlPrepare :: "sql_text \<Rightarrow> 't \<Rightarrow> go_error + 't"

fun sqlAll :: "('q \<Rightarrow> 't \<Rightarrow> go_error + 't) \<Rightarrow> 'q list \<Rightarrow> 't \<Rightarrow> go_error + 't" where
  "sqlAll f [] t = Inr t"
| "sqlAll f (q # qs) t = (case f q t of Inl e \<Rightarrow> Inl e | Inr t' \<Rightarrow> sqlAll f qs t')"

definition sqlite_newDatabase :: "'t sql_driver \<Rightarrow> string go \<Rightarrow> (go_error + 't SqliteDb) go" where
  "sqlite_newDatabase drv path =
     go_bind path (\<lambda>fn. Return
       (case sqlOpen drv fn of
          Inl e \<Rightarrow> Inl e
        | Inr t \<Rightarrow>
            (case sqlAll (sqlExec drv) [CreateTableFs, PragmaSynchronousOff, PragmaJournalModeOff, PragmaLockingModeExclusive] t of
               Inl e \<Rightarrow> Inl e
             | Inr t1 \<Rightarrow>
                 (case sqlAll (sqlPrepare drv) [InsertFs, DeleteFs, DeletePeer, SelectOwners, SelectDir, SelectDirectories] t1 of
                    Inl e \<Rightarrow> Inl e
                  | Inr t2 \<Rightarrow> Inr \<lparr>sdb = t2, dirCache = None\<rparr>))))"

section \<open>The cache of directories\<close>

text \<open>The loop of \<^verbatim>\<open>SetFile\<close> over the ancestors of a directory that is not in the cache.\<close>

fun addParents :: "string list \<Rightarrow> nat \<Rightarrow> (string, string list) gomap \<Rightarrow> (string, string list) gomap" where
  "addParents fnEx 0 c = c"
| "addParents fnEx (Suc s) c =
     (let dn = joinWith ''/'' (take (Suc s) fnEx) in
      if map_of c dn \<noteq> None then c
      else
        let pdn = joinWith ''/'' (take s fnEx) in
        addParents fnEx s (AList.update pdn (map_get [] c pdn @ [fnEx ! s]) c))"

definition rememberDir :: "string list \<Rightarrow> (string, string list) gomap \<Rightarrow> (string, string list) gomap" where
  "rememberDir fnEx c =
     (let dn = joinWith ''/'' (butlast fnEx) in
      if map_of c dn = None then AList.update dn [] (addParents fnEx (length fnEx - 1) c) else c)"

definition invalidateDirCache :: "'t SqliteDb \<Rightarrow> 't SqliteDb" where
  "invalidateDirCache d = d\<lparr>dirCache := None\<rparr>"

text \<open>The loop of \<^verbatim>\<open>updateDirCache\<close> over one directory and its ancestors.\<close>

fun addChain :: "string list \<Rightarrow> nat \<Rightarrow> (string, string list) gomap \<Rightarrow> (string, string list) gomap" where
  "addChain ex 0 c = c"
| "addChain ex (Suc s) c =
     (let dn = joinWith ''/'' (take s ex) in
      if ex ! s \<in> set (map_get [] c dn) then c
      else addChain ex s (AList.update dn (map_get [] c dn @ [ex ! s]) c))"

definition addDir :: "string \<Rightarrow> (string, string list) gomap \<Rightarrow> (string, string list) gomap" where
  "addDir dir c = (let ex = splitOn (CHR ''/'') dir in addChain ex (length ex) c)"

definition updateDirCache :: "'t sql_ops \<Rightarrow> 't SqliteDb \<Rightarrow> 't SqliteDb \<times> go_error option" where
  "updateDirCache sql d =
     (case stmtGetAllDirs sql (sdb d) of
        Inl e \<Rightarrow> (d, Some e)
      | Inr (dirs, e) \<Rightarrow> (d\<lparr>dirCache := Some (fold addDir dirs [])\<rparr>, e))"

section \<open>Operations\<close>

text \<open>Times are stored in whole seconds: \<^verbatim>\<open>fi.Mtime.Unix()\<close> and \<^verbatim>\<open>time.Unix(mtime, 0)\<close>.\<close>

definition rowOf :: "FileInfo \<Rightarrow> row_data" where
  "rowOf fi = (Size fi, Mtime fi div 10 ^ 9, Hash fi)"

definition infoOf :: "row_data \<Rightarrow> FileInfo" where
  "infoOf = (\<lambda>(sz, mtime, h). \<lparr>Size = sz, Hash = h, Mtime = mtime * 10 ^ 9\<rparr>)"

definition sqlite_SetFile ::
  "'t sql_ops \<Rightarrow> 't SqliteDb \<Rightarrow> string list \<Rightarrow> FileInfo option \<Rightarrow> string \<Rightarrow> ('t SqliteDb \<times> go_error option) go"
where
  "sqlite_SetFile sql d fnEx fi owner =
     (case sqlBegin sql (sdb d) of
        Inl e \<Rightarrow> Return (d, Some e)
      | Inr t0 \<Rightarrow>
          if fnEx = [] then Panic
          else
            let dn = joinWith ''/'' (butlast fnEx); f = last fnEx in
            case stmtDeleteFile sql (dn, f, owner) t0 of
              (t1, Some e) \<Rightarrow> Return (d\<lparr>sdb := t1\<rparr>, Some e)
            | (t1, None) \<Rightarrow>
                (case fi of
                   Some i \<Rightarrow>
                     (case stmtAddFile sql (dn, f, owner) (rowOf i) t1 of
                        (t2, Some e) \<Rightarrow> Return (d\<lparr>sdb := t2\<rparr>, Some e)
                      | (t2, None) \<Rightarrow>
                          (case sqlCommit sql t2 of
                             (t3, e) \<Rightarrow> Return (d\<lparr>sdb := t3, dirCache := map_option (rememberDir fnEx) (dirCache d)\<rparr>, e)))
                 | None \<Rightarrow>
                     (case sqlCommit sql t1 of (t2, e) \<Rightarrow> Return (invalidateDirCache (d\<lparr>sdb := t2\<rparr>), e))))"

definition sqlite_PeerDisconnected ::
  "'t sql_ops \<Rightarrow> 't SqliteDb \<Rightarrow> string \<Rightarrow> 't SqliteDb \<times> go_error option"
where
  "sqlite_PeerDisconnected sql d owner =
     (case stmtDisconnect sql owner (sdb d) of (t, err) \<Rightarrow> (invalidateDirCache (d\<lparr>sdb := t\<rparr>), err))"

definition sqlite_GetOwners :: "'t sql_ops \<Rightarrow> 't SqliteDb \<Rightarrow> string \<Rightarrow> go_error + string list" where
  "sqlite_GetOwners sql d h = stmtGetOwners sql h (sdb d)"

definition sqlite_GetDir ::
  "'t sql_ops \<Rightarrow> 't SqliteDb \<Rightarrow> string \<Rightarrow> 't SqliteDb \<times> (go_error + (string, FileInfo) gomap \<times> string list)"
where
  "sqlite_GetDir sql d dir =
     (let d1 = (if dirCache d = None then fst (updateDirCache sql d) else d);
          dirs = (case dirCache d1 of None \<Rightarrow> [] | Some c \<Rightarrow> map_get [] c dir)
      in (d1,
          case stmtGetDir sql dir (sdb d1) of
            Inl e \<Rightarrow> Inl e
          | Inr rows \<Rightarrow> Inr (fold (\<lambda>(file, r) m. AList.update file (infoOf r) m) rows [], dirs)))"

section \<open>The contract of the engine\<close>

locale sql_engine =
  fixes sql :: "'t sql_ops" and rows :: "'t \<Rightarrow> row_key \<Rightarrow> row_data option"
  assumes begin_rows: "sqlBegin sql t = Inr t' \<Longrightarrow> rows t' = rows t"
    and commit_rows: "sqlCommit sql t = (t', None) \<Longrightarrow> rows t' = rows t"
    and add_rows: "stmtAddFile sql k r t = (t', None) \<Longrightarrow> rows t' = (rows t)(k \<mapsto> r)"
    and delete_rows: "stmtDeleteFile sql k t = (t', None) \<Longrightarrow> rows t' = (rows t)(k := None)"
    and disconnect_rows: "stmtDisconnect sql p t = (t', None) \<Longrightarrow>
      rows t' = (\<lambda>(dn, f, q). if q = p then None else rows t (dn, f, q))"
    and owners_rows: "stmtGetOwners sql h t = Inr ps \<Longrightarrow>
      distinct ps \<and> set ps = {p. \<exists>dn f sz m. rows t (dn, f, p) = Some (sz, m, h)}"
    and dir_rows: "stmtGetDir sql dn t = Inr rs \<Longrightarrow>
      distinct (map fst rs) \<and> fst ` set rs = {f. \<exists>p. rows t (dn, f, p) \<noteq> None} \<and>
      (\<forall>(f, r) \<in> set rs. \<exists>p. rows t (dn, f, p) = Some r)"
    and alldirs_rows: "stmtGetAllDirs sql t = Inr (ds, None) \<Longrightarrow> set ds = {dn. \<exists>f p. rows t (dn, f, p) \<noteq> None}"

text \<open>The relational reading of the statements; every one of them succeeds.\<close>

type_synonym fs_table = "(row_key \<times> row_data) list"

definition tableSql :: "fs_table sql_ops" where
  "tableSql = \<lparr>
     sqlBegin = Inr,
     sqlCommit = (\<lambda>t. (t, None)),
     stmtAddFile = (\<lambda>k r t. (AList.update k r t, None)),
     stmtDeleteFile = (\<lambda>k t. (AList.delete k t, None)),
     stmtDisconnect = (\<lambda>p t. (filter (\<lambda>((dn, f, q), r). q \<noteq> p) t, None)),
     stmtGetOwners = (\<lambda>h t. Inr (remdups (map (\<lambda>((dn, f, p), r). p)
        (filter (\<lambda>((dn, f, p), (sz, m, h')). h' = h) (AList.clearjunk t))))),
     stmtGetDir = (\<lambda>dir t. Inr (AList.clearjunk (map (\<lambda>((dn, f, p), r). (f, r))
        (filter (\<lambda>((dn, f, p), r). dn = dir) (AList.clearjunk t))))),
     stmtGetAllDirs = (\<lambda>t. Inr (remdups (map (fst \<circ> fst) t), None))\<rparr>"

lemma clearjunk_mem: "(k, v) \<in> set (AList.clearjunk m) \<longleftrightarrow> map_of m k = Some v"
  by (metis distinct_clearjunk map_of_clearjunk map_of_eq_Some_iff)

lemma clearjunk_subset: "(k, v) \<in> set (AList.clearjunk m) \<Longrightarrow> (k, v) \<in> set m"
  unfolding clearjunk_mem by (rule map_of_SomeD)

lemma table_dirs: "(fst \<circ> fst) ` set t = {dn. \<exists>f p. map_of t (dn, f, p) \<noteq> None}"
proof -
  have "(fst \<circ> fst) ` set t = {dn. \<exists>f p. (dn, f, p) \<in> fst ` set t}" by force
  then show ?thesis unfolding map_of_None_iff by simp
qed

lemma map_of_filter_peer:
  "map_of (filter (\<lambda>((dn, f, q), r). q \<noteq> p) t) (dn, f, q) = (if q = p then None else map_of t (dn, f, q))"
  by (induction t) auto

lemma fst_image_iff: "f \<in> fst ` A \<longleftrightarrow> (\<exists>r. (f, r) \<in> A)"
  by force

lemma dir_rows_mem:
  "(f, r) \<in> set (map (\<lambda>((dn, f, p), r). (f, r)) (filter (\<lambda>((dn', f, p), r). dn' = dn) l)) \<longleftrightarrow>
     (\<exists>p. ((dn, f, p), r) \<in> set l)"
  by (induction l) auto

interpretation table: sql_engine tableSql map_of
proof
  fix t t' :: fs_table and k :: row_key and r :: row_data and p h dn :: string and ps ds rs
  show "map_of t' = map_of t" if "sqlBegin tableSql t = Inr t'" using that by (simp add: tableSql_def)
  show "map_of t' = map_of t" if "sqlCommit tableSql t = (t', None)" using that by (simp add: tableSql_def)
  show "map_of t' = (map_of t)(k \<mapsto> r)" if "stmtAddFile tableSql k r t = (t', None)"
    using that by (auto simp: tableSql_def update_conv')
  show "map_of t' = (map_of t)(k := None)" if "stmtDeleteFile tableSql k t = (t', None)"
    using that by (auto simp: tableSql_def delete_conv')
  show "map_of t' = (\<lambda>(dn, f, q). if q = p then None else map_of t (dn, f, q))" if "stmtDisconnect tableSql p t = (t', None)"
    using that by (auto simp: tableSql_def map_of_filter_peer fun_eq_iff)
  show "distinct ps \<and> set ps = {p. \<exists>dn f sz m. map_of t (dn, f, p) = Some (sz, m, h)}" if "stmtGetOwners tableSql h t = Inr ps"
    using that by (force simp: tableSql_def clearjunk_mem image_iff)
  show "distinct (map fst rs) \<and> fst ` set rs = {f. \<exists>p. map_of t (dn, f, p) \<noteq> None} \<and>
      (\<forall>(f, r) \<in> set rs. \<exists>p. map_of t (dn, f, p) = Some r)" if "stmtGetDir tableSql dn t = Inr rs"
  proof -
    let ?ms = "map (\<lambda>((dn, f, p), r). (f, r)) (filter (\<lambda>((dn', f, p), r). dn' = dn) (AList.clearjunk t))"
    have rs: "rs = AList.clearjunk ?ms" using that by (simp add: tableSql_def)
    have mem: "(f, r) \<in> set ?ms \<longleftrightarrow> (\<exists>p. map_of t (dn, f, p) = Some r)" for f r
      unfolding dir_rows_mem clearjunk_mem by (rule refl)
    have "fst ` set rs = fst ` set ?ms" unfolding rs by (rule dom_clearjunk)
    moreover have "fst ` set ?ms = {f. \<exists>p. map_of t (dn, f, p) \<noteq> None}"
      unfolding set_eq_iff fst_image_iff mem mem_Collect_eq by blast
    moreover have "\<forall>(f, r) \<in> set rs. \<exists>p. map_of t (dn, f, p) = Some r"
      unfolding rs using clearjunk_subset [of _ _ ?ms] unfolding mem by blast
    moreover have "distinct (map fst rs)" unfolding rs by (rule distinct_clearjunk)
    ultimately show ?thesis by simp
  qed
  show "set ds = {dn. \<exists>f p. map_of t (dn, f, p) \<noteq> None}" if "stmtGetAllDirs tableSql t = Inr (ds, None)"
  proof -
    have "ds = remdups (map (fst \<circ> fst) t)" using that by (simp add: tableSql_def)
    then show ?thesis by (simp only: set_remdups set_map table_dirs)
  qed
qed


section \<open>Paths\<close>

text \<open>Lists of path components as the master passes them: not empty and without a slash.\<close>

definition parts :: "string list \<Rightarrow> bool" where
  "parts p \<longleftrightarrow> (\<forall>x \<in> set p. x \<noteq> [] \<and> CHR ''/'' \<notin> set x)"

lemma parts_simps [simp]:
  "parts []" "parts (x # p) \<longleftrightarrow> x \<noteq> [] \<and> CHR ''/'' \<notin> set x \<and> parts p" "parts (p @ q) \<longleftrightarrow> parts p \<and> parts q"
  by (auto simp: parts_def)

lemma parts_take: "parts p \<Longrightarrow> parts (take n p)"
  by (metis append_take_drop_id parts_simps(3))

lemma parts_butlast: "parts p \<Longrightarrow> parts (butlast p)"
  by (auto simp: parts_def dest: in_set_butlastD)

lemma parts_join_Nil: "parts p \<Longrightarrow> joinWith ''/'' p = [] \<longleftrightarrow> p = []"
  using joinWith_ends [of p "CHR ''/''"] by (auto simp: parts_def)

lemma parts_join_eq: "parts p \<Longrightarrow> parts q \<Longrightarrow> joinWith ''/'' p = joinWith ''/'' q \<longleftrightarrow> p = q"
proof
  assume a: "parts p" "parts q" "joinWith ''/'' p = joinWith ''/'' q"
  show "p = q"
  proof (cases "p = [] \<or> q = []")
    case True
    then show ?thesis using a parts_join_Nil by fastforce
  next
    case False
    then show ?thesis using a by (intro joinWith_inj [of "CHR ''/''"]) (auto simp: parts_def)
  qed
qed simp

lemma split_join_parts: "parts p \<Longrightarrow> p \<noteq> [] \<Longrightarrow> splitOn (CHR ''/'') (joinWith ''/'' p) = p"
  by (rule splitOn_joinWith) (auto simp: parts_def)

lemma prefix_snoc_take: "prefix (p @ [x]) q \<longleftrightarrow> (\<exists>j < length q. p = take j q \<and> x = q ! j)"
proof
  assume "prefix (p @ [x]) q"
  then obtain r where "q = p @ x # r" by (auto simp: prefix_def)
  then show "\<exists>j < length q. p = take j q \<and> x = q ! j" by (intro exI [of _ "length p"]) auto
next
  assume "\<exists>j < length q. p = take j q \<and> x = q ! j"
  then obtain j where "j < length q" "p = take j q" "x = q ! j" by blast
  then have "p @ [x] = take (Suc j) q" by (simp add: take_Suc_conv_app_nth)
  then show "prefix (p @ [x]) q" by (simp add: take_is_prefix)
qed

section \<open>Rebuilding the cache\<close>

definition below :: "string list set \<Rightarrow> string list \<Rightarrow> string set" where
  "below D p = {x. \<exists>q \<in> D. prefix (p @ [x]) q}"

definition listed :: "(string, string list) gomap \<Rightarrow> string list \<Rightarrow> string list" where
  "listed c p = map_get [] c (joinWith ''/'' p)"

lemma listed_update:
  "parts p \<Longrightarrow> parts q \<Longrightarrow> listed (AList.update (joinWith ''/'' p) v c) q = (if q = p then v else listed c q)"
  by (auto simp: listed_def parts_join_eq)

definition dir_index :: "string list set \<Rightarrow> (string, string list) gomap \<Rightarrow> bool" where
  "dir_index D c \<longleftrightarrow> (\<forall>p. parts p \<longrightarrow> distinct (listed c p) \<and> set (listed c p) = below D p)"

text \<open>What the loop has done when it still has the ancestors below depth \<open>s\<close> to visit.\<close>

definition chain_from :: "nat \<Rightarrow> string list \<Rightarrow> string list \<Rightarrow> string set" where
  "chain_from s ex p = {x. \<exists>j. s \<le> j \<and> j < length ex \<and> p = take j ex \<and> x = ex ! j}"

lemma chain_from_Suc:
  "s < length ex \<Longrightarrow> chain_from s ex p = chain_from (Suc s) ex p \<union> (if p = take s ex then {ex ! s} else {})"
proof -
  assume s: "s < length ex"
  have le: "s \<le> j \<longleftrightarrow> j = s \<or> Suc s \<le> j" for j by auto
  show ?thesis unfolding chain_from_def le using s by (auto simp: conj_disj_distribR ex_disj_distrib)
qed

lemma chain_from_all: "below (insert ex D) p = below D p \<union> chain_from 0 ex p"
  by (auto simp: below_def chain_from_def prefix_snoc_take)

lemma chain_from_covered:
  assumes "prefix (take s ex) q" and "q \<in> D"
  shows "below D p \<union> chain_from s ex p = below (insert ex D) p"
proof -
  have "x \<in> below D p" if "j < s" "j < length ex" "p = take j ex" "x = ex ! j" for x j
  proof -
    have "p @ [x] = take (Suc j) ex" using that by (simp add: take_Suc_conv_app_nth)
    moreover have "prefix (take (Suc j) ex) (take s ex)" using that by (metis Suc_leI min.absorb1 take_is_prefix take_take)
    ultimately show ?thesis using assms prefix_order.trans unfolding below_def by fastforce
  qed
  then have "chain_from 0 ex p \<subseteq> below D p \<union> chain_from s ex p"
    unfolding chain_from_def using linorder_not_le by blast
  moreover have "chain_from s ex p \<subseteq> chain_from 0 ex p" by (auto simp: chain_from_def)
  ultimately show ?thesis unfolding chain_from_all by blast
qed

lemma addChain_index:
  assumes "parts ex" and "s \<le> length ex"
    and "\<forall>p. parts p \<longrightarrow> distinct (listed c p) \<and> set (listed c p) = below D p \<union> chain_from s ex p"
  shows "dir_index (insert ex D) (addChain ex s c)"
  using assms(2,3)
proof (induction s arbitrary: c)
  case 0
  then show ?case by (simp add: dir_index_def chain_from_all)
next
  case (Suc s)
  let ?p = "take s ex"
  have p: "parts ?p" using parts_take [OF assms(1)] by blast
  note inv = Suc.prems(2) [rule_format]
  show ?case
  proof (cases "ex ! s \<in> set (listed c ?p)")
    case True
    have "ex ! s \<notin> chain_from (Suc s) ex ?p"
      using Suc.prems(1) by (auto simp: chain_from_def dest: arg_cong [of _ _ length])
    then have "ex ! s \<in> below D ?p" using True inv [OF p] by blast
    then obtain q where q: "q \<in> D" "prefix (take (Suc s) ex) q"
      using Suc.prems(1) by (auto simp: below_def take_Suc_conv_app_nth)
    then show ?thesis using True inv chain_from_covered [OF q(2,1)] by (simp add: dir_index_def listed_def)
  next
    case False
    let ?c = "AList.update (joinWith ''/'' ?p) (listed c ?p @ [ex ! s]) c"
    have "distinct (listed ?c q) \<and> set (listed ?c q) = below D q \<union> chain_from s ex q" if "parts q" for q
    proof (cases "q = ?p")
      case True
      have "listed ?c ?p = listed c ?p @ [ex ! s]" using listed_update [OF p p] by simp
      moreover have "chain_from s ex ?p = insert (ex ! s) (chain_from (Suc s) ex ?p)"
        using chain_from_Suc [of s ex ?p] Suc.prems(1) by simp
      ultimately show ?thesis using inv [OF p] False True by simp
    next
      case neq: False
      then show ?thesis using inv [OF that] listed_update [OF p that] chain_from_Suc [of s ex q] Suc.prems(1) by simp
    qed
    then have "dir_index (insert ex D) (addChain ex s ?c)" using Suc.prems(1) by (intro Suc.IH) auto
    then show ?thesis using False by (simp add: listed_def Let_def)
  qed
qed

lemma addDir_index:
  assumes "dir_index D c" and "parts q" and "q \<noteq> []"
  shows "dir_index (insert q D) (addDir (joinWith ''/'' q) c)"
proof -
  have "chain_from (length q) q p = {}" for p by (auto simp: chain_from_def)
  then show ?thesis using addChain_index [of q "length q" c D] assms
    by (simp add: addDir_def split_join_parts dir_index_def)
qed

lemma rebuild_index:
  assumes "\<forall>q \<in> set qs. parts q \<and> q \<noteq> []"
  shows "dir_index (set qs) (fold addDir (map (joinWith ''/'') qs) [])"
proof -
  have "dir_index (D \<union> set qs) (fold addDir (map (joinWith ''/'') qs) c)" if "dir_index D c" for D c
    using assms that
  proof (induction qs arbitrary: D c)
    case (Cons q qs)
    then have "dir_index (insert q D) (addDir (joinWith ''/'' q) c)" by (intro addDir_index) auto
    then show ?case using Cons by fastforce
  qed simp
  moreover have "dir_index {} []" by (simp add: dir_index_def listed_def below_def)
  ultimately show ?thesis by fastforce
qed


section \<open>The table behind the operations\<close>

lemma fold_rows_map_of:
  "wf_map xs \<Longrightarrow> map_of (fold (\<lambda>(k, v) m. AList.update k (g v) m) xs m) f =
     (case map_of xs f of Some r \<Rightarrow> Some (g r) | None \<Rightarrow> map_of m f)"
proof (induction xs arbitrary: m)
  case (Cons x xs)
  obtain k v where x: "x = (k, v)" by fastforce
  then have "map_of xs k = None" using Cons.prems by (simp add: map_of_None_iff)
  then show ?case using Cons x by (auto split: option.splits)
qed simp

text \<open>What each operation does to the rows when the engine reports no error.\<close>

context sql_engine
begin

lemma SetFile_rows:
  assumes "sqlite_SetFile sql d p fi ow = Return (d', None)"
  shows "rows (sdb d') = (rows (sdb d))((joinWith ''/'' (butlast p), last p, ow) := map_option rowOf fi)"
    and "dirCache d' = (if fi = None then None else map_option (rememberDir p) (dirCache d))"
proof -
  let ?k = "(joinWith ''/'' (butlast p), last p, ow)"
  from assms obtain t0 t1 where t0: "sqlBegin sql (sdb d) = Inr t0" and p: "p \<noteq> []" and t1: "stmtDeleteFile sql ?k t0 = (t1, None)"
    by (auto simp: sqlite_SetFile_def Let_def split: sum.splits if_splits prod.splits option.splits)
  have r1: "rows t1 = (rows (sdb d))(?k := None)" using begin_rows [OF t0] delete_rows [OF t1] by simp
  have "rows (sdb d') = (rows (sdb d))(?k := map_option rowOf fi)
    \<and> dirCache d' = (if fi = None then None else map_option (rememberDir p) (dirCache d))"
  proof (cases fi)
    case None
    then have "sqlCommit sql t1 = (sdb d', None)" "dirCache d' = None"
      using assms t0 p t1 by (auto simp: sqlite_SetFile_def invalidateDirCache_def split: prod.splits)
    then show ?thesis using commit_rows r1 None by simp
  next
    case (Some i)
    then obtain t2 where t2: "stmtAddFile sql ?k (rowOf i) t1 = (t2, None)" "sqlCommit sql t2 = (sdb d', None)"
      "dirCache d' = map_option (rememberDir p) (dirCache d)"
      using assms t0 p t1 by (auto simp: sqlite_SetFile_def split: prod.splits option.splits)
    then show ?thesis using add_rows [OF t2(1)] commit_rows [OF t2(2)] r1 Some by simp
  qed
  then show "rows (sdb d') = (rows (sdb d))(?k := map_option rowOf fi)"
    and "dirCache d' = (if fi = None then None else map_option (rememberDir p) (dirCache d))" by auto
qed

lemma PeerDisconnected_rows:
  assumes "sqlite_PeerDisconnected sql d ow = (d', None)"
  shows "rows (sdb d') = (\<lambda>(dn, f, q). if q = ow then None else rows (sdb d) (dn, f, q))" and "dirCache d' = None"
  using assms disconnect_rows
  by (auto simp: sqlite_PeerDisconnected_def invalidateDirCache_def split: prod.splits)

lemma GetDir_db: "sdb (fst (sqlite_GetDir sql d dir)) = sdb d"
  by (auto simp: sqlite_GetDir_def updateDirCache_def Let_def split: sum.splits)

lemma GetDir_files:
  assumes "snd (sqlite_GetDir sql d dir) = Inr (fs, ds)"
  shows "case map_of fs f of None \<Rightarrow> (\<forall>ow. rows (sdb d) (dir, f, ow) = None)
    | Some fi \<Rightarrow> (\<exists>ow r. rows (sdb d) (dir, f, ow) = Some r \<and> fi = infoOf r)"
proof -
  let ?d1 = "if dirCache d = None then fst (updateDirCache sql d) else d"
  have d1: "sdb ?d1 = sdb d" by (auto simp: updateDirCache_def split: sum.splits)
  from assms obtain rs where rs: "stmtGetDir sql dir (sdb d) = Inr rs"
    and fs: "fs = fold (\<lambda>(file, r) m. AList.update file (infoOf r) m) rs []"
    unfolding sqlite_GetDir_def Let_def d1 by (auto split: sum.splits)
  have D: "distinct (map fst rs)" and K: "fst ` set rs = {f. \<exists>p. rows (sdb d) (dir, f, p) \<noteq> None}"
    and V: "\<And>f r. (f, r) \<in> set rs \<Longrightarrow> \<exists>p. rows (sdb d) (dir, f, p) = Some r" using dir_rows [OF rs] by auto
  have m: "map_of fs f = (case map_of rs f of Some r \<Rightarrow> Some (infoOf r) | None \<Rightarrow> None)"
    unfolding fs fold_rows_map_of [OF D] by (simp split: option.split)
  show ?thesis
  proof (cases "map_of rs f")
    case None
    then have "f \<notin> {f. \<exists>p. rows (sdb d) (dir, f, p) \<noteq> None}" unfolding map_of_None_iff K .
    then have "rows (sdb d) (dir, f, ow) = None" for ow by blast
    then show ?thesis using m None by simp
  next
    case (Some r)
    then show ?thesis using m V [OF map_of_SomeD [OF Some]] by (auto simp del: split_paired_Ex)
  qed
qed

end

section \<open>Runs\<close>

text \<open>
  A run of successful operations, with listings in between because they fill the cache, and the
  table it stands for: for each path and peer what the peer published there.
\<close>

datatype sq_event = SqSet "string list" "FileInfo option" string | SqDisconnect string | SqList string

fun sq_run :: "'t sql_ops \<Rightarrow> sq_event list \<Rightarrow> 't SqliteDb \<Rightarrow> 't SqliteDb option" where
  "sq_run sql [] d = Some d"
| "sq_run sql (SqSet p fi ow # es) d =
     (case sqlite_SetFile sql d p fi ow of Return (d', None) \<Rightarrow> sq_run sql es d' | _ \<Rightarrow> None)"
| "sq_run sql (SqDisconnect ow # es) d =
     (case sqlite_PeerDisconnected sql d ow of (d', None) \<Rightarrow> sq_run sql es d' | _ \<Rightarrow> None)"
| "sq_run sql (SqList dir # es) d = sq_run sql es (fst (sqlite_GetDir sql d dir))"

type_synonym holdings = "string list \<Rightarrow> string \<Rightarrow> FileInfo option"

fun sq_spec :: "sq_event list \<Rightarrow> holdings \<Rightarrow> holdings" where
  "sq_spec [] m = m"
| "sq_spec (SqSet p fi ow # es) m = sq_spec es (m(p := (m p)(ow := fi)))"
| "sq_spec (SqDisconnect ow # es) m = sq_spec es (\<lambda>p q. if q = ow then None else m p q)"
| "sq_spec (SqList dir # es) m = sq_spec es m"

fun event_ok :: "sq_event \<Rightarrow> bool" where
  "event_ok (SqSet p fi ow) \<longleftrightarrow> 2 \<le> length p \<and> parts p"
| "event_ok e \<longleftrightarrow> True"

definition holds :: "(row_key \<Rightarrow> row_data option) \<Rightarrow> holdings \<Rightarrow> bool" where
  "holds r m \<longleftrightarrow> (\<forall>p ow. m p ow \<noteq> None \<longrightarrow> 2 \<le> length p \<and> parts p) \<and>
     (\<forall>p ow. 2 \<le> length p \<longrightarrow> parts p \<longrightarrow> r (joinWith ''/'' (butlast p), last p, ow) = map_option rowOf (m p ow)) \<and>
     (\<forall>dn f ow. r (dn, f, ow) \<noteq> None \<longrightarrow> (\<exists>p. 2 \<le> length p \<and> parts p \<and> dn = joinWith ''/'' (butlast p) \<and> f = last p))"

lemma row_key_eq:
  assumes "2 \<le> length p" "parts p" "2 \<le> length q" "parts q"
  shows "joinWith ''/'' (butlast p) = joinWith ''/'' (butlast q) \<and> last p = last q \<longleftrightarrow> p = q"
  using assms parts_join_eq [of "butlast p" "butlast q"] append_butlast_last_id [of p] append_butlast_last_id [of q]
  by (metis One_nat_def Suc_1 list.size(3) not_numeral_le_zero parts_butlast)

lemma holds_set:
  assumes "holds r m" and "2 \<le> length p" and "parts p"
  shows "holds (r((joinWith ''/'' (butlast p), last p, ow) := map_option rowOf fi)) (m(p := (m p)(ow := fi)))"
  unfolding holds_def
proof (intro conjI allI impI)
  let ?r = "r((joinWith ''/'' (butlast p), last p, ow) := map_option rowOf fi)"
  show "2 \<le> length q" "parts q" if "(m(p := (m p)(ow := fi))) q ow' \<noteq> None" for q ow'
    using that assms by (auto simp: holds_def split: if_splits)
  show "?r (joinWith ''/'' (butlast q), last q, ow') = map_option rowOf ((m(p := (m p)(ow := fi))) q ow')"
    if "2 \<le> length q" "parts q" for q ow'
    using row_key_eq [OF that assms(2,3)] assms(1) that by (auto simp: holds_def)
  show "\<exists>p. 2 \<le> length p \<and> parts p \<and> dn = joinWith ''/'' (butlast p) \<and> f = last p" if "?r (dn, f, ow') \<noteq> None" for dn f ow'
  proof (cases "(dn, f, ow') = (joinWith ''/'' (butlast p), last p, ow)")
    case True
    then show ?thesis using assms(2,3) by blast
  next
    case False
    then have "r (dn, f, ow') \<noteq> None" using that by (simp split: if_splits)
    then show ?thesis using assms(1) unfolding holds_def by blast
  qed
qed

lemma holds_disconnect:
  "holds r m \<Longrightarrow> holds (\<lambda>(dn, f, q). if q = ow then None else r (dn, f, q)) (\<lambda>p q. if q = ow then None else m p q)"
  unfolding holds_def prod.case
proof (elim conjE, intro conjI)
  assume *: "\<forall>dn f ow. r (dn, f, ow) \<noteq> None \<longrightarrow> (\<exists>p. 2 \<le> length p \<and> parts p \<and> dn = joinWith ''/'' (butlast p) \<and> f = last p)"
  show "\<forall>dn f q. (if q = ow then None else r (dn, f, q)) \<noteq> None \<longrightarrow>
      (\<exists>p. 2 \<le> length p \<and> parts p \<and> dn = joinWith ''/'' (butlast p) \<and> f = last p)"
  proof (intro allI impI)
    fix dn f q assume "(if q = ow then None else r (dn, f, q)) \<noteq> None"
    then have "r (dn, f, q) \<noteq> None" by presburger
    with * show "\<exists>p. 2 \<le> length p \<and> parts p \<and> dn = joinWith ''/'' (butlast p) \<and> f = last p" by blast
  qed
qed auto

lemma run_holds:
  assumes "sql_engine sql rows" and "sq_run sql es d = Some d'" and "\<forall>e \<in> set es. event_ok e" and "holds (rows (sdb d)) m"
  shows "holds (rows (sdb d')) (sq_spec es m)"
  using assms(2-4)
proof (induction es arbitrary: d m)
  case (Cons e es)
  show ?case
  proof (cases e)
    case (SqSet p fi ow)
    then obtain d1 where d1: "sqlite_SetFile sql d p fi ow = Return (d1, None)" "sq_run sql es d1 = Some d'"
      using Cons.prems(1) by (auto split: go.splits prod.splits option.splits)
    have "holds (rows (sdb d1)) (m(p := (m p)(ow := fi)))"
      unfolding sql_engine.SetFile_rows(1) [OF assms(1) d1(1)] using SqSet Cons.prems(2,3) by (intro holds_set) auto
    then show ?thesis using Cons.IH [OF d1(2)] Cons.prems(2) SqSet by simp
  next
    case (SqDisconnect ow)
    then obtain d1 where d1: "sqlite_PeerDisconnected sql d ow = (d1, None)" "sq_run sql es d1 = Some d'"
      using Cons.prems(1) by (auto split: prod.splits option.splits)
    have "holds (rows (sdb d1)) (\<lambda>p q. if q = ow then None else m p q)"
      unfolding sql_engine.PeerDisconnected_rows(1) [OF assms(1) d1(1)] by (rule holds_disconnect [OF Cons.prems(3)])
    then show ?thesis using Cons.IH [OF d1(2)] Cons.prems(2) SqDisconnect by simp
  next
    case (SqList dir)
    then show ?thesis using Cons sql_engine.GetDir_db [OF assms(1), of d dir] by simp
  qed
qed simp

lemma infoOf_rowOf: "infoOf (rowOf fi) = fi\<lparr>Mtime := Mtime fi div 10 ^ 9 * 10 ^ 9\<rparr>"
  by (simp add: infoOf_def rowOf_def)

text \<open>The rows of a table that stands for \<open>m\<close>, and what the queries see of them.\<close>

lemma holds_row_iff:
  assumes "holds R m"
  shows "R (dn, f, ow) = Some r \<longleftrightarrow>
    (\<exists>p fi. m p ow = Some fi \<and> rowOf fi = r \<and> 2 \<le> length p \<and> parts p \<and> dn = joinWith ''/'' (butlast p) \<and> f = last p)"
proof
  assume r: "R (dn, f, ow) = Some r"
  then obtain p where p: "2 \<le> length p" "parts p" "dn = joinWith ''/'' (butlast p)" "f = last p"
    using assms unfolding holds_def by blast
  then have "map_option rowOf (m p ow) = Some r" using assms r unfolding holds_def by metis
  then show "\<exists>p fi. m p ow = Some fi \<and> rowOf fi = r \<and> 2 \<le> length p \<and> parts p \<and> dn = joinWith ''/'' (butlast p) \<and> f = last p"
    using p by auto
next
  assume "\<exists>p fi. m p ow = Some fi \<and> rowOf fi = r \<and> 2 \<le> length p \<and> parts p \<and> dn = joinWith ''/'' (butlast p) \<and> f = last p"
  then show "R (dn, f, ow) = Some r" using assms unfolding holds_def by fastforce
qed

lemma holds_owners:
  assumes "holds R m"
  shows "{ow. \<exists>dn f sz t. R (dn, f, ow) = Some (sz, t, h)} = {ow. \<exists>p fi. m p ow = Some fi \<and> Hash fi = h}"
proof -
  have "2 \<le> length p \<and> parts p" if "m p ow = Some fi" for p ow fi using assms that unfolding holds_def by blast
  then show ?thesis unfolding holds_row_iff [OF assms] rowOf_def by fastforce
qed

lemma holds_dirs:
  assumes "holds R m"
  shows "{dn. \<exists>f ow. R (dn, f, ow) \<noteq> None} = joinWith ''/'' ` {q. q \<noteq> [] \<and> parts q \<and> (\<exists>f ow. m (q @ [f]) ow \<noteq> None)}"
proof (intro equalityI subsetI)
  fix dn assume "dn \<in> {dn. \<exists>f ow. R (dn, f, ow) \<noteq> None}"
  then obtain f ow r where "R (dn, f, ow) = Some r" by auto
  then obtain p fi where p: "m p ow = Some fi" "2 \<le> length p" "parts p" "dn = joinWith ''/'' (butlast p)" "f = last p"
    unfolding holds_row_iff [OF assms] by blast
  obtain q where q: "p = q @ [f]" using p(2,5) by (cases p rule: rev_cases) auto
  then show "dn \<in> joinWith ''/'' ` {q. q \<noteq> [] \<and> parts q \<and> (\<exists>f ow. m (q @ [f]) ow \<noteq> None)}"
    using p(1-4) by (intro image_eqI [of _ _ q]) auto
next
  fix dn assume "dn \<in> joinWith ''/'' ` {q. q \<noteq> [] \<and> parts q \<and> (\<exists>f ow. m (q @ [f]) ow \<noteq> None)}"
  then obtain q f ow fi where q: "dn = joinWith ''/'' q" "m (q @ [f]) ow = Some fi" by auto
  then have "2 \<le> length (q @ [f]) \<and> parts (q @ [f])" using assms unfolding holds_def by blast
  then have "R (dn, f, ow) = Some (rowOf fi)" unfolding holds_row_iff [OF assms] using q by (metis butlast_snoc last_snoc)
  then show "dn \<in> {dn. \<exists>f ow. R (dn, f, ow) \<noteq> None}" unfolding mem_Collect_eq by (metis option.distinct(1))
qed

section \<open>Properties\<close>

text \<open>
  C12. Refinement of the table of holdings by the SQLite database: after any run of successful
  operations, \<^verbatim>\<open>GetOwners\<close> lists without repetition exactly the peers that hold a file with the hash,
  also after disconnects and for files that several peers hold, and the listing of a directory shows
  exactly the files some peer holds there, with what one of these peers published; the time is
  rounded down to a second.
\<close>

theorem sqlite_refines:
  assumes "sql_engine sql rows" and "rows t0 = Map.empty" and "sq_run sql es \<lparr>sdb = t0, dirCache = None\<rparr> = Some d"
    and "\<forall>e \<in> set es. event_ok e" and "m = sq_spec es (\<lambda>p ow. None)"
  shows "(\<forall>h os. sqlite_GetOwners sql d h = Inr os \<longrightarrow>
       distinct os \<and> set os = {ow. \<exists>p fi. m p ow = Some fi \<and> Hash fi = h})
    \<and> (\<forall>ps fs ds f. snd (sqlite_GetDir sql d (joinWith ''/'' ps)) = Inr (fs, ds) \<longrightarrow> parts ps \<longrightarrow> ps \<noteq> [] \<longrightarrow> parts [f] \<longrightarrow>
       (case map_of fs f of
          None \<Rightarrow> \<forall>ow. m (ps @ [f]) ow = None
        | Some fi \<Rightarrow> \<exists>ow fj. m (ps @ [f]) ow = Some fj \<and> fi = fj\<lparr>Mtime := Mtime fj div 10 ^ 9 * 10 ^ 9\<rparr>))"
proof (intro conjI allI impI)
  have "holds (rows t0) (\<lambda>p ow. None)" by (simp add: holds_def assms(2))
  then have m: "holds (rows (sdb d)) m" using run_holds [OF assms(1,3,4)] assms(5) by simp
  fix h os assume "sqlite_GetOwners sql d h = Inr os"
  then show "distinct os" "set os = {ow. \<exists>p fi. m p ow = Some fi \<and> Hash fi = h}"
    using sql_engine.owners_rows [OF assms(1), of h "sdb d" os] unfolding sqlite_GetOwners_def holds_owners [OF m] by simp_all
next
  fix ps fs ds f
  assume g: "snd (sqlite_GetDir sql d (joinWith ''/'' ps)) = Inr (fs, ds)" and ps: "parts ps" "ps \<noteq> []" "parts [f]"
  have "holds (rows t0) (\<lambda>p ow. None)" by (simp add: holds_def assms(2))
  then have m: "holds (rows (sdb d)) m" using run_holds [OF assms(1,3,4)] assms(5) by simp
  have "2 \<le> length (ps @ [f])" "parts (ps @ [f])" using ps by (cases ps, auto)
  then have r: "rows (sdb d) (joinWith ''/'' ps, f, ow) = map_option rowOf (m (ps @ [f]) ow)" for ow
    using m unfolding holds_def by (metis butlast_snoc last_snoc)
  note files = sql_engine.GetDir_files [OF assms(1) g, of f, unfolded r]
  show "case map_of fs f of None \<Rightarrow> \<forall>ow. m (ps @ [f]) ow = None
        | Some fi \<Rightarrow> \<exists>ow fj. m (ps @ [f]) ow = Some fj \<and> fi = fj\<lparr>Mtime := Mtime fj div 10 ^ 9 * 10 ^ 9\<rparr>"
  proof (cases "map_of fs f")
    case (Some fi)
    then obtain ow fj where "m (ps @ [f]) ow = Some fj" "fi = infoOf (rowOf fj)" using files by auto
    then show ?thesis using Some infoOf_rowOf by auto
  qed (use files in simp)
qed

definition demo_fi :: FileInfo where
  "demo_fi = \<lparr>Size = 3, Hash = ''h'', Mtime = 1500000000\<rparr>"

definition demo_events :: "sq_event list" where
  "demo_events = [SqList [], SqSet [''al'', ''d'', ''x''] (Some demo_fi) ''al@a'', SqSet [''bo'', ''y''] (Some demo_fi) ''bo@b'', SqDisconnect ''al@a'']"

lemma demo_events_run: "sq_run tableSql demo_events \<lparr>sdb = [], dirCache = None\<rparr> =
    Some \<lparr>sdb = [((''bo'', ''y'', ''bo@b''), (3, 1, ''h''))], dirCache = None\<rparr>"
  by code_simp

theorem sqlite_refines_witness:
  "\<exists>d os. sq_run tableSql demo_events \<lparr>sdb = [], dirCache = None\<rparr> = Some d
     \<and> sqlite_GetOwners tableSql d ''h'' = Inr os \<and> os = [''bo@b'']
     \<and> set os = {ow. \<exists>p fi. sq_spec demo_events (\<lambda>p ow. None) p ow = Some fi \<and> Hash fi = ''h''}"
proof -
  let ?d = "\<lparr>sdb = [((''bo'', ''y'', ''bo@b''), (3, 1, ''h''))], dirCache = None\<rparr>"
  have ok: "\<forall>e \<in> set demo_events. event_ok e" by (simp add: demo_events_def)
  have o: "sqlite_GetOwners tableSql ?d ''h'' = Inr [''bo@b'']" by code_simp
  have "map_of [] = (Map.empty :: row_key \<Rightarrow> row_data option)" by simp
  from sqlite_refines [OF table.sql_engine_axioms this demo_events_run ok refl, THEN conjunct1] o
  have "set [''bo@b''] = {ow. \<exists>p fi. sq_spec demo_events (\<lambda>p ow. None) p ow = Some fi \<and> Hash fi = ''h''}" by blast
  with demo_events_run o show ?thesis by blast
qed

text \<open>
  C13. A rebuilt cache lists directories exactly: when the cache was invalidated before, the listing of a
  directory names, each once, exactly the sub-directories in which, at any depth, a file is stored.
\<close>

theorem sqlite_fresh_listing:
  assumes "sql_engine sql rows" and "dirCache d = None" and "stmtGetAllDirs sql (sdb d) = Inr (all, None)"
    and "holds (rows (sdb d)) m" and "parts p" and "sqlite_GetDir sql d (joinWith ''/'' p) = (d', Inr (fs, ds))"
  shows "distinct ds \<and> set ds = {x. \<exists>q f ow. m (q @ [f]) ow \<noteq> None \<and> prefix (p @ [x]) q}"
proof -
  let ?Q = "{q. q \<noteq> [] \<and> parts q \<and> (\<exists>f ow. m (q @ [f]) ow \<noteq> None)}"
  have all: "set all = joinWith ''/'' ` ?Q" using sql_engine.alldirs_rows [OF assms(1,3)] holds_dirs [OF assms(4)] by simp
  define qs where "qs = map (splitOn (CHR ''/'')) all"
  have "splitOn (CHR ''/'') (joinWith ''/'' q) = q" if "q \<in> ?Q" for q using that split_join_parts by auto
  then have "(splitOn (CHR ''/'') \<circ> joinWith ''/'') ` ?Q = id ` ?Q" by (intro image_cong refl) (simp only: comp_apply id_apply)
  then have qs: "set qs = ?Q" unfolding qs_def set_map all image_comp by (simp only: image_id id_apply)
  have "map (joinWith ''/'') qs = all" unfolding qs_def by (simp add: joinWith_splitOn map_idI)
  then have "dir_index (set qs) (fold addDir all [])" using rebuild_index [of qs] qs by auto
  moreover have "ds = listed (fold addDir all []) p"
    using assms(2,3,6) by (auto simp: sqlite_GetDir_def updateDirCache_def listed_def Let_def split: sum.splits)
  ultimately have ds: "distinct ds" "set ds = below ?Q p" using assms(5) qs by (auto simp: dir_index_def)
  have "parts q" if "m (q @ [f]) ow \<noteq> None" for q f ow
  proof -
    have "parts (q @ [f])" using assms(4) that unfolding holds_def by blast
    then show ?thesis using parts_butlast [of "q @ [f]"] by simp
  qed
  moreover have "q \<noteq> []" if "prefix (p @ [x]) q" for x q using that by auto
  ultimately have "below ?Q p = {x. \<exists>q f ow. m (q @ [f]) ow \<noteq> None \<and> prefix (p @ [x]) q}"
    unfolding below_def by (intro Collect_cong) blast
  then show ?thesis using ds by simp
qed

theorem sqlite_fresh_listing_witness:
  "\<exists>d' fs. sqlite_GetDir tableSql \<lparr>sdb = [((''al/d/e'', ''x'', ''al@a''), (3, 1, ''h''))], dirCache = None\<rparr> ''al'' = (d', Inr (fs, [''d'']))
     \<and> set [''d''] = {x. \<exists>q f ow. ((\<lambda>p ow. None)([''al'', ''d'', ''e'', ''x''] := [''al@a'' \<mapsto> demo_fi])) (q @ [f]) ow \<noteq> None \<and> prefix ([''al''] @ [x]) q}"
proof -
  let ?m = "(\<lambda>p ow. None)([''al'', ''d'', ''e'', ''x''] := [''al@a'' \<mapsto> demo_fi])"
  let ?d = "\<lparr>sdb = [((''al/d/e'', ''x'', ''al@a''), (3, 1, ''h''))], dirCache = None\<rparr>"
  have "holds Map.empty (\<lambda>p ow. None)" by (simp add: holds_def)
  from holds_set [OF this, of "[''al'', ''d'', ''e'', ''x'']" "''al@a''" "Some demo_fi"]
  have h: "holds (map_of (sdb ?d)) ?m" by (simp add: demo_fi_def rowOf_def)
  have "snd (sqlite_GetDir tableSql ?d ''al'') = Inr ([], [''d''])" by code_simp
  then obtain d' where g: "sqlite_GetDir tableSql ?d (joinWith ''/'' [''al'']) = (d', Inr ([], [''d'']))"
    by simp (metis prod.collapse)
  have a: "stmtGetAllDirs tableSql (sdb ?d) = Inr ([''al/d/e''], None)" by (simp add: tableSql_def)
  have "dirCache ?d = None" "parts [''al'']" by simp_all
  from sqlite_fresh_listing [OF table.sql_engine_axioms this(1) a h this(2) g] g show ?thesis by auto
qed

text \<open>The cache after a file was published in a directory the cache does not have.\<close>

lemma rememberDir_listed:
  assumes "parts ds" and "2 \<le> length ds" and "map_of c (joinWith ''/'' ds) = None" and "parts p"
  shows "listed (rememberDir (ds @ [f]) c) p =
    (if p = ds then [] else if p = butlast ds then listed c p @ [last ds] else listed c p)"
proof -
  obtain n where n: "length ds = Suc (Suc n)" using assms(2) by (intro that [of "length ds - 2"]) simp
  let ?p = "take (Suc n) ds"
  have bl: "?p = butlast ds" using n by (simp add: butlast_conv_take)
  have last: "ds ! Suc n = last ds" using n last_conv_nth [of ds] by (cases ds) auto
  have key: "map_of (AList.update (joinWith ''/'' ?p) v c) (joinWith ''/'' ?p) \<noteq> None" for v by simp
  have t: "take (Suc (Suc n)) (ds @ [f]) = ds" "take (Suc n) (ds @ [f]) = ?p" "(ds @ [f]) ! Suc n = last ds"
    using n last by (simp_all add: nth_append)
  let ?c = "AList.update (joinWith ''/'' ?p) (listed c ?p @ [last ds]) c"
  have "addParents (ds @ [f]) (Suc n) ?c = ?c"
    unfolding addParents.simps(2) t(2) Let_def using key by (simp only: simp_thms if_True)
  then have "addParents (ds @ [f]) (Suc (Suc n)) c = ?c"
    unfolding addParents.simps(2) [of _ "Suc n"] t Let_def listed_def using assms(3) by (simp only: simp_thms if_False)
  then have r: "rememberDir (ds @ [f]) c = AList.update (joinWith ''/'' ds) [] (AList.update (joinWith ''/'' ?p) (listed c ?p @ [last ds]) c)"
    using assms(3) n by (simp add: rememberDir_def)
  show ?thesis unfolding r listed_update [OF assms(1,4)] bl listed_update [OF parts_butlast [OF assms(1)] assms(4)] by simp
qed

text \<open>
  C38. The cache that \<^verbatim>\<open>SetFile\<close> updates in place goes wrong: when a file is published in a directory of
  depth two or more that the cache does not have yet, the loop over the ancestors stops after the
  first one. The listing of the root stays as it was, so a new user does not appear there; and the
  parent lists the directory once more, so a directory that was listed already is listed twice.
\<close>

theorem sqlite_cache_update_wrong:
  assumes "sql_engine sql rows" and "dirCache d = Some c" and "parts ds" and "2 \<le> length ds"
    and "map_of c (joinWith ''/'' ds) = None" and "sqlite_SetFile sql d (ds @ [f]) (Some fi) ow = Return (d', None)"
    and "snd (sqlite_GetDir sql d' (joinWith ''/'' p)) = Inr (fs, dirs)" and "parts p" and "p \<noteq> ds"
  shows "dirs = (if p = butlast ds then listed c p @ [last ds] else listed c p)"
proof -
  have "dirCache d' = Some (rememberDir (ds @ [f]) c)"
    using sql_engine.SetFile_rows(2) [OF assms(1,6)] assms(2) by simp
  then have "dirs = listed (rememberDir (ds @ [f]) c) p"
    using assms(7) by (simp add: sqlite_GetDir_def listed_def split: sum.splits)
  then show ?thesis using rememberDir_listed [OF assms(3-5,8), of f] assms(9) by simp
qed

theorem sqlite_cache_update_wrong_witness:
  "\<exists>d' fs. sqlite_SetFile tableSql \<lparr>sdb = [], dirCache = Some []\<rparr> [''al'', ''d'', ''x''] (Some demo_fi) ''al@a'' = Return (d', None)
     \<and> snd (sqlite_GetDir tableSql d' []) = Inr (fs, [])"
proof -
  let ?d = "\<lparr>sdb = [], dirCache = Some []\<rparr>"
  let ?d' = "\<lparr>sdb = [((''al/d'', ''x'', ''al@a''), (3, 1, ''h''))], dirCache = Some [(''al'', [''d'']), (''al/d'', [])]\<rparr>"
  have s: "sqlite_SetFile tableSql ?d ([''al'', ''d''] @ [''x'']) (Some demo_fi) ''al@a'' = Return (?d', None)" by code_simp
  obtain fs dirs where g: "snd (sqlite_GetDir tableSql ?d' (joinWith ''/'' [])) = Inr (fs, dirs)"
    by (simp add: sqlite_GetDir_def tableSql_def)
  from sqlite_cache_update_wrong [OF table.sql_engine_axioms _ _ _ _ s g, of "[]"] have "dirs = []" by (simp add: listed_def)
  then show ?thesis using s g by auto
qed

end
