(* ===== verification/Database_Bolt.thy ===== *)
theory Database_Bolt
  imports Database_Api
begin

text \<open>
  The Bolt implementation of the database, \<^verbatim>\<open>database_bolt.go\<close>: nested buckets \<^verbatim>\<open>files\<close>, one for each
  directory, with the encoded metadata of each file; \<^verbatim>\<open>byHash\<close> with the owners of each hash in one
  value; \<^verbatim>\<open>byOwner\<close> with a bucket of file names for each peer.

  The Bolt library is third-party code. A bucket is addressed by the path of bucket names that leads
  to it (the empty path is the transaction itself), and the operations of the library that the code calls are the fields of the record
  \<open>bolt_ops\<close> on the state \<open>'t\<close> of a transaction. The locale \<open>bolt_store\<close> states their documented
  behaviour on the two things a store consists of, the buckets and the values; \<open>memBolt\<close>, a store in
  memory, is an interpretation of it. The JSON encoding of the metadata is an argument, too.
\<close>

section \<open>The library\<close>

record 't bolt_ops =
  hasBucket :: "'t \<Rightarrow> string list \<Rightarrow> bool"
  createBucket :: "string list \<Rightarrow> 't \<Rightarrow> go_error + 't"
  deleteBucket :: "string list \<Rightarrow> 't \<Rightarrow> go_error + 't"
  bget :: "'t \<Rightarrow> string list \<Rightarrow> string \<Rightarrow> string option"
  bput :: "string list \<Rightarrow> string \<Rightarrow> string \<Rightarrow> 't \<Rightarrow> go_error + 't"
  bdel :: "string list \<Rightarrow> string \<Rightarrow> 't \<Rightarrow> go_error + 't"
  cursor :: "'t \<Rightarrow> string list \<Rightarrow> (string \<times> string option) list"

record json_codec =
  encodeJson :: "FileInfo \<Rightarrow> go_error + string"
  decodeJson :: "string \<Rightarrow> go_error + FileInfo"

text \<open>A step of a transaction fails with an error or panics.\<close>

type_synonym 't tx = "'t \<Rightarrow> (go_error + 't) go"

definition tx_bind :: "(go_error + 'a) go \<Rightarrow> ('a \<Rightarrow> (go_error + 'b) go) \<Rightarrow> (go_error + 'b) go" where
  "tx_bind m f = go_bind m (\<lambda>r. case r of Inl e \<Rightarrow> Return (Inl e) | Inr x \<Rightarrow> f x)"

lemma tx_bind_simps [simp]:
  "tx_bind (Return (Inl e)) f = Return (Inl e)" "tx_bind (Return (Inr x)) f = f x" "tx_bind Panic f = Panic"
  by (simp_all add: tx_bind_def)

text \<open>\<^verbatim>\<open>db.Update\<close>: the changes of a transaction whose function returns an error are rolled back.\<close>

definition boltUpdate :: "'t tx \<Rightarrow> 't \<Rightarrow> ('t \<times> go_error option) go" where
  "boltUpdate f t =
     go_bind (f t) (\<lambda>r. Return (case r of Inl e \<Rightarrow> (t, Some e) | Inr t' \<Rightarrow> (t', None)))"

section \<open>Creation\<close>

text \<open>\<^verbatim>\<open>newDatabase\<close> drops the error of the transaction that makes the three buckets.\<close>

definition bolt_newDatabase :: "'t bolt_ops \<Rightarrow> string go \<Rightarrow> (string \<Rightarrow> go_error + 't) \<Rightarrow> (go_error + 't) go" where
  "bolt_newDatabase ops path boltOpen =
     go_bind path (\<lambda>fn.
     case boltOpen fn of
       Inl e \<Rightarrow> Return (Inl e)
     | Inr t \<Rightarrow>
         go_bind (boltUpdate (\<lambda>t.
             tx_bind (Return (createBucket ops [''files''] t)) (\<lambda>t.
             tx_bind (Return (createBucket ops [''byHash''] t)) (\<lambda>t.
             Return (createBucket ops [''byOwner''] t)))) t) (\<lambda>(t', err).
         Return (Inr t')))"

text \<open>\<^verbatim>\<open>tx.Bucket\<close> yields nil for a bucket that does not exist, and a method of the nil bucket panics.\<close>

definition topBucket :: "'t bolt_ops \<Rightarrow> string \<Rightarrow> 't \<Rightarrow> string list go" where
  "topBucket ops n t = (if hasBucket ops t [n] then Return [n] else Panic)"

section \<open>SetFile\<close>

text \<open>
  A value that cannot be encoded panics; \<^verbatim>\<open>json.Marshal\<close> fails for a time whose year is not between 0
  and 9999.
\<close>

definition encodeFileInfo :: "json_codec \<Rightarrow> FileInfo \<Rightarrow> string go" where
  "encodeFileInfo js fi = (case encodeJson js fi of Inl e \<Rightarrow> Panic | Inr buf \<Rightarrow> Return buf)"

text \<open>A value that does not decode panics; a missing value is nil, which decodes as the empty string.\<close>

definition decodeFileInfo :: "json_codec \<Rightarrow> string option \<Rightarrow> FileInfo go" where
  "decodeFileInfo js buf =
     (case decodeJson js (case buf of None \<Rightarrow> [] | Some b \<Rightarrow> b) of Inl e \<Rightarrow> Panic | Inr fi \<Rightarrow> Return fi)"

definition updateByOwner :: "'t bolt_ops \<Rightarrow> string list \<Rightarrow> FileInfo option \<Rightarrow> string \<Rightarrow> 't tx" where
  "updateByOwner ops fnEx fi owner t =
     go_bind (topBucket ops ''byOwner'' t) (\<lambda>b.
      let ob = b @ [owner]; name = joinWith ''/'' fnEx in
      case fi of
        Some _ \<Rightarrow>
          tx_bind (Return (if hasBucket ops t ob then Inr t else createBucket ops ob t)) (\<lambda>t.
          Return (bput ops ob name [] t))
      | None \<Rightarrow> Return (if hasBucket ops t ob then bdel ops ob name t else Inr t))"

text \<open>The deep dive through the directories; missing ones are created, also by a deletion.\<close>

fun enterBuckets :: "'t bolt_ops \<Rightarrow> string list \<Rightarrow> string list \<Rightarrow> 't \<Rightarrow> go_error + 't" where
  "enterBuckets ops b [] t = Inr t"
| "enterBuckets ops b (dn # dns) t =
     (case (if hasBucket ops t (b @ [dn]) then Inr t else createBucket ops (b @ [dn]) t) of
        Inl e \<Rightarrow> Inl e
      | Inr t' \<Rightarrow> enterBuckets ops (b @ [dn]) dns t')"

text \<open>The loop that deletes the directories that became empty, from \<open>n\<close> parents upwards.\<close>

fun pruneUp :: "'t bolt_ops \<Rightarrow> string list \<Rightarrow> nat \<Rightarrow> 't \<Rightarrow> go_error + 't" where
  "pruneUp ops dirs 0 t = Inr t"
| "pruneUp ops dirs (Suc n) t =
     (let b = ''files'' # take (Suc n) dirs in
      if cursor ops t b = []
      then (case deleteBucket ops b t of Inl e \<Rightarrow> Inl e | Inr t' \<Rightarrow> pruneUp ops dirs n t')
      else Inr t)"

definition updateFiles :: "'t bolt_ops \<Rightarrow> json_codec \<Rightarrow> string list \<Rightarrow> FileInfo option \<Rightarrow> 't \<Rightarrow> (go_error + 't \<times> string) go" where
  "updateFiles ops js fnEx fi t =
     (if fnEx = [] then Panic
      else
        go_bind (topBucket ops ''files'' t) (\<lambda>root.
        let dirs = butlast fnEx; fn = last fnEx; b = root @ dirs in
        tx_bind (Return (enterBuckets ops root dirs t)) (\<lambda>t.
        case fi of
          None \<Rightarrow>
            go_bind (decodeFileInfo js (bget ops t b fn)) (\<lambda>oldFi.
            tx_bind (Return (bdel ops b fn t)) (\<lambda>t.
            tx_bind (Return (pruneUp ops dirs (length dirs) t)) (\<lambda>t.
            Return (Inr (t, Hash oldFi)))))
        | Some i \<Rightarrow>
            go_bind (encodeFileInfo js i) (\<lambda>buf.
            tx_bind (Return (bput ops b fn buf t)) (\<lambda>t. Return (Inr (t, Hash i)))))))"

definition updateByHash :: "'t bolt_ops \<Rightarrow> FileInfo option \<Rightarrow> string \<Rightarrow> string \<Rightarrow> 't tx" where
  "updateByHash ops fi owner hashB t =
     go_bind (topBucket ops ''byHash'' t) (\<lambda>b.
      let owners = (case bget ops t b hashB of None \<Rightarrow> [] | Some v \<Rightarrow> v);
          owners' =
            (case fi of
               None \<Rightarrow> if owners \<noteq> [] then joinWith [NUL] (filter (\<lambda>x. x \<noteq> owner) (splitOn NUL owners)) else owners
             | Some _ \<Rightarrow> if owners = [] then owner else owners @ [NUL] @ owner)
      in Return (if owners' = [] then bdel ops b hashB t else bput ops b hashB owners' t))"

definition bolt_SetFile ::
  "'t bolt_ops \<Rightarrow> json_codec \<Rightarrow> 't \<Rightarrow> string list \<Rightarrow> FileInfo option \<Rightarrow> string \<Rightarrow> ('t \<times> go_error option) go"
where
  "bolt_SetFile ops js d fnEx fi owner =
     boltUpdate (\<lambda>t.
       tx_bind (updateByOwner ops fnEx fi owner t) (\<lambda>t.
       tx_bind (updateFiles ops js fnEx fi t) (\<lambda>(t, hashB).
       updateByHash ops fi owner hashB t))) d"

section \<open>The other operations\<close>

definition deleteOne ::
  "'t bolt_ops \<Rightarrow> json_codec \<Rightarrow> string \<Rightarrow> string \<Rightarrow> 't \<times> go_error option \<Rightarrow> ('t \<times> go_error option) go"
where
  "deleteOne ops js owner fn = (\<lambda>(d, lastErr).
     go_bind (bolt_SetFile ops js d (splitOn (CHR ''/'') fn) None owner) (\<lambda>(d', err).
     Return (d', case err of Some e \<Rightarrow> Some e | None \<Rightarrow> lastErr)))"

definition bolt_PeerDisconnected :: "'t bolt_ops \<Rightarrow> json_codec \<Rightarrow> 't \<Rightarrow> string \<Rightarrow> ('t \<times> go_error option) go" where
  "bolt_PeerDisconnected ops js d owner =
     go_bind (topBucket ops ''byOwner'' d) (\<lambda>byOwner.
      let b = byOwner @ [owner];
          fls = (if hasBucket ops d b then map fst (cursor ops d b) else [])
      in go_fold (deleteOne ops js owner) fls (d, None))"

definition bolt_GetOwners :: "'t bolt_ops \<Rightarrow> 't \<Rightarrow> string \<Rightarrow> (go_error + string list) go" where
  "bolt_GetOwners ops d h =
     go_bind (topBucket ops ''byHash'' d) (\<lambda>b. Return
       (case bget ops d b h of
          None \<Rightarrow> Inl (HashNotFound h)
        | Some v \<Rightarrow> if length v = 0 then Inl (HashNotFound h) else Inr (splitOn (CHR ''/'') v)))"

fun findBucket :: "'t bolt_ops \<Rightarrow> 't \<Rightarrow> string list \<Rightarrow> string list \<Rightarrow> string list option" where
  "findBucket ops d b [] = Some b"
| "findBucket ops d b (dn # dns) =
     (if hasBucket ops d (b @ [dn]) then findBucket ops d (b @ [dn]) dns else None)"

definition listOne ::
  "json_codec \<Rightarrow> string \<times> string option \<Rightarrow> (string, FileInfo) gomap \<times> string list \<Rightarrow> ((string, FileInfo) gomap \<times> string list) go"
where
  "listOne js = (\<lambda>(k, v) (fls, dirs).
     case v of
       None \<Rightarrow> Return (fls, dirs @ [k])
     | Some b \<Rightarrow> go_bind (decodeFileInfo js (Some b)) (\<lambda>fi. Return (AList.update k fi fls, dirs)))"

definition bolt_GetDir ::
  "'t bolt_ops \<Rightarrow> json_codec \<Rightarrow> 't \<Rightarrow> string \<Rightarrow> (go_error + (string, FileInfo) gomap \<times> string list) go"
where
  "bolt_GetDir ops js d dir =
     go_bind (topBucket ops ''files'' d) (\<lambda>root.
      let fnEx = (if dir = [] then [] else splitOn (CHR ''/'') dir) in
      case findBucket ops d root fnEx of
        None \<Rightarrow> Return (Inl ENOENT)
      | Some b \<Rightarrow> go_bind (go_fold (listOne js) (cursor ops d b) ([], [])) (\<lambda>r. Return (Inr r)))"

section \<open>The contract of the library\<close>

text \<open>The limits of a key and of a value.\<close>

definition key_ok :: "string \<Rightarrow> bool" where
  "key_ok k \<longleftrightarrow> k \<noteq> [] \<and> length k \<le> 32768"

definition val_ok :: "string \<Rightarrow> bool" where
  "val_ok v \<longleftrightarrow> length v \<le> 2147483646"

locale bolt_store =
  fixes ops :: "'t bolt_ops" and buckets :: "'t \<Rightarrow> string list set" and vals :: "'t \<Rightarrow> string list \<Rightarrow> string \<Rightarrow> string option"
  assumes has_bucket: "hasBucket ops t b \<longleftrightarrow> b \<in> buckets t"
    and get_vals: "bget ops t b k = vals t b k"
    and vals_in: "vals t b k \<noteq> None \<Longrightarrow> b \<in> buckets t"
    and create: "b \<in> buckets t \<Longrightarrow> b @ [n] \<notin> buckets t \<Longrightarrow> vals t b n = None \<Longrightarrow> key_ok n \<Longrightarrow>
      \<exists>t'. createBucket ops (b @ [n]) t = Inr t' \<and> buckets t' = insert (b @ [n]) (buckets t) \<and> vals t' = vals t"
    and root: "[] \<in> buckets t"
    and put: "b \<noteq> [] \<Longrightarrow> b \<in> buckets t \<Longrightarrow> b @ [k] \<notin> buckets t \<Longrightarrow> key_ok k \<Longrightarrow> val_ok v \<Longrightarrow>
      \<exists>t'. bput ops b k v t = Inr t' \<and> buckets t' = buckets t \<and> vals t' = (vals t)(b := (vals t b)(k \<mapsto> v))"
    and del: "b \<noteq> [] \<Longrightarrow> b \<in> buckets t \<Longrightarrow> b @ [k] \<notin> buckets t \<Longrightarrow>
      \<exists>t'. bdel ops b k t = Inr t' \<and> buckets t' = buckets t \<and> vals t' = (vals t)(b := (vals t b)(k := None))"
    and drop: "b @ [n] \<in> buckets t \<Longrightarrow>
      \<exists>t'. deleteBucket ops (b @ [n]) t = Inr t' \<and> buckets t' = {q \<in> buckets t. \<not> prefix (b @ [n]) q} \<and>
        vals t' = (\<lambda>q k. if prefix (b @ [n]) q then None else vals t q k)"
    and cursor_set: "b \<noteq> [] \<Longrightarrow> b \<in> buckets t \<Longrightarrow>
      set (cursor ops t b) = {(k, Some v) | k v. vals t b k = Some v} \<union> {(n, None) | n. b @ [n] \<in> buckets t}"

section \<open>A store in memory\<close>

record mem_store =
  m_buckets :: "string list list"
  m_vals :: "((string list \<times> string) \<times> string) list"

definition mem_vals :: "mem_store \<Rightarrow> string list \<Rightarrow> string \<Rightarrow> string option" where
  "mem_vals t b k = (if b \<in> set (m_buckets t) then map_of (m_vals t) (b, k) else None)"

definition boltErr :: go_error where
  "boltErr = OsError ''bolt''"

definition memBolt :: "mem_store bolt_ops" where
  "memBolt = \<lparr>
     hasBucket = (\<lambda>t b. b \<in> insert [] (set (m_buckets t))),
     createBucket = (\<lambda>b t.
       if b = [] \<or> b \<in> set (m_buckets t) \<or> \<not> key_ok (last b) \<or> mem_vals t (butlast b) (last b) \<noteq> None
         \<or> butlast b \<notin> insert [] (set (m_buckets t)) then Inl boltErr
       else Inr \<lparr>m_buckets = m_buckets t @ [b], m_vals = filter (\<lambda>((q, k), v). q \<noteq> b) (m_vals t)\<rparr>),
     deleteBucket = (\<lambda>b t.
       if b \<notin> set (m_buckets t) then Inl boltErr
       else Inr \<lparr>m_buckets = filter (\<lambda>q. \<not> prefix b q) (m_buckets t), m_vals = m_vals t\<rparr>),
     bget = mem_vals,
     bput = (\<lambda>b k v t.
       if b \<notin> set (m_buckets t) \<or> b @ [k] \<in> set (m_buckets t) \<or> \<not> key_ok k \<or> \<not> val_ok v then Inl boltErr
       else Inr (t\<lparr>m_vals := AList.update (b, k) v (m_vals t)\<rparr>)),
     bdel = (\<lambda>b k t.
       if b \<notin> set (m_buckets t) \<or> b @ [k] \<in> set (m_buckets t) then Inl boltErr
       else Inr (t\<lparr>m_vals := AList.delete (b, k) (m_vals t)\<rparr>)),
     cursor = (\<lambda>t b.
       map (\<lambda>((q, k), v). (k, Some v)) (filter (\<lambda>((q, k), v). q = b) (AList.clearjunk (m_vals t))) @
       map (\<lambda>q. (last q, None)) (filter (\<lambda>q. q \<noteq> [] \<and> butlast q = b) (m_buckets t)))\<rparr>"


lemma map_of_filter_bucket:
  "map_of (filter (\<lambda>((q, k), v). q \<noteq> b) m) (q, k) = (if q = b then None else map_of m (q, k))"
  by (induction m) auto

lemma cursor_vals:
  "set (map (\<lambda>((q, k), v). (k, Some v)) (filter (\<lambda>((q, k), v). q = b) (AList.clearjunk m))) =
     {(k, Some v) | k v. map_of m (b, k) = Some v}" (is "set ?l = _")
proof -
  have l: "(x, y) \<in> set (map (\<lambda>((q, k), v). (k, Some v)) (filter (\<lambda>((q, k), v). q = b) l)) \<longleftrightarrow>
      (\<exists>v. y = Some v \<and> ((b, x), v) \<in> set l)" for x y l by (induction l) auto
  have m: "((b, x), v) \<in> set (AList.clearjunk m) \<longleftrightarrow> map_of m (b, x) = Some v" for x v
    by (metis distinct_clearjunk map_of_clearjunk map_of_eq_Some_iff)
  have "z \<in> set ?l \<longleftrightarrow> z \<in> {(k, Some v) | k v. map_of m (b, k) = Some v}" for z
    using l [of "fst z" "snd z" "AList.clearjunk m"] unfolding m prod.collapse by (cases z) auto
  then show ?thesis by (rule set_eqI)
qed

interpretation mem: bolt_store memBolt "\<lambda>t. insert [] (set (m_buckets t))" mem_vals
proof
  fix t :: mem_store and b :: "string list" and k n v :: string
  show "hasBucket memBolt t b \<longleftrightarrow> b \<in> insert [] (set (m_buckets t))" by (simp add: memBolt_def)
  show "bget memBolt t b k = mem_vals t b k" by (simp add: memBolt_def)
  show "b \<in> insert [] (set (m_buckets t))" if "mem_vals t b k \<noteq> None"
    using that by (auto simp: mem_vals_def split: if_splits)
  show "[] \<in> insert [] (set (m_buckets t))" by simp
  show "\<exists>t'. createBucket memBolt (b @ [n]) t = Inr t' \<and>
      insert [] (set (m_buckets t')) = insert (b @ [n]) (insert [] (set (m_buckets t))) \<and> mem_vals t' = mem_vals t"
    if "b \<in> insert [] (set (m_buckets t))" "b @ [n] \<notin> insert [] (set (m_buckets t))" "mem_vals t b n = None" "key_ok n"
    using that by (auto simp: memBolt_def mem_vals_def fun_eq_iff map_of_filter_bucket split: if_splits)
  show "\<exists>t'. bput memBolt b k v t = Inr t' \<and> insert [] (set (m_buckets t')) = insert [] (set (m_buckets t)) \<and>
      mem_vals t' = (mem_vals t)(b := (mem_vals t b)(k \<mapsto> v))"
    if "b \<noteq> []" "b \<in> insert [] (set (m_buckets t))" "b @ [k] \<notin> insert [] (set (m_buckets t))" "key_ok k" "val_ok v"
    using that by (auto simp: memBolt_def mem_vals_def fun_eq_iff)
  show "\<exists>t'. bdel memBolt b k t = Inr t' \<and> insert [] (set (m_buckets t')) = insert [] (set (m_buckets t)) \<and>
      mem_vals t' = (mem_vals t)(b := (mem_vals t b)(k := None))"
    if "b \<noteq> []" "b \<in> insert [] (set (m_buckets t))" "b @ [k] \<notin> insert [] (set (m_buckets t))"
    using that by (auto simp: memBolt_def mem_vals_def fun_eq_iff)
  show "\<exists>t'. deleteBucket memBolt (b @ [n]) t = Inr t' \<and>
      insert [] (set (m_buckets t')) = {q \<in> insert [] (set (m_buckets t)). \<not> prefix (b @ [n]) q} \<and>
      mem_vals t' = (\<lambda>q k. if prefix (b @ [n]) q then None else mem_vals t q k)"
    if "b @ [n] \<in> insert [] (set (m_buckets t))"
    using that by (auto simp: memBolt_def mem_vals_def fun_eq_iff)
  show "set (cursor memBolt t b) = {(k, Some v) | k v. mem_vals t b k = Some v} \<union> {(n, None) | n. b @ [n] \<in> insert [] (set (m_buckets t))}"
    if "b \<noteq> []" "b \<in> insert [] (set (m_buckets t))"
  proof -
    have "set (map (\<lambda>q. (last q, None :: string option)) (filter (\<lambda>q. q \<noteq> [] \<and> butlast q = b) (m_buckets t))) = {(n, None) | n. b @ [n] \<in> set (m_buckets t)}"
      by (force simp: image_iff)
    moreover have "cursor memBolt t b = map (\<lambda>((q, k), v). (k, Some v)) (filter (\<lambda>((q, k), v). q = b) (AList.clearjunk (m_vals t))) @
        map (\<lambda>q. (last q, None)) (filter (\<lambda>q. q \<noteq> [] \<and> butlast q = b) (m_buckets t))" by (simp add: memBolt_def)
    ultimately have "set (cursor memBolt t b) = {(k, Some v) | k v. map_of (m_vals t) (b, k) = Some v} \<union> {(n, None) | n. b @ [n] \<in> set (m_buckets t)}"
      by (simp only: set_append cursor_vals)
    then show ?thesis using that by (simp add: mem_vals_def)
  qed
qed

section \<open>What a publication does to the store\<close>

text \<open>
  The shape of the store: the three buckets exist, \<^verbatim>\<open>byOwner\<close> holds only buckets without buckets in
  them, \<^verbatim>\<open>byHash\<close> holds no buckets, and what is stored below \<^verbatim>\<open>files\<close> can be decoded.
\<close>

definition bolt_inv ::
  "json_codec \<Rightarrow> ('t \<Rightarrow> string list set) \<Rightarrow> ('t \<Rightarrow> string list \<Rightarrow> string \<Rightarrow> string option) \<Rightarrow> 't \<Rightarrow> bool"
where
  "bolt_inv js buckets vals t \<longleftrightarrow> {[''files''], [''byHash''], [''byOwner'']} \<subseteq> buckets t
     \<and> (\<forall>k. vals t [''byOwner''] k = None) \<and> (\<forall>k. [''byHash'', k] \<notin> buckets t) \<and> (\<forall>ow k. [''byOwner'', ow, k] \<notin> buckets t)
     \<and> (\<forall>q k v. vals t (''files'' # q) k = Some v \<longrightarrow> (\<exists>fi. decodeJson js v = Inr fi))"

text \<open>
  A path for a file: keys of admissible length, no file where a directory has to be, no directory
  where the file has to be.
\<close>

definition path_free ::
  "('t \<Rightarrow> string list set) \<Rightarrow> ('t \<Rightarrow> string list \<Rightarrow> string \<Rightarrow> string option) \<Rightarrow> 't \<Rightarrow> string list \<Rightarrow> string \<Rightarrow> bool"
where
  "path_free buckets vals t ds f \<longleftrightarrow> (\<forall>x \<in> set (ds @ [f]). key_ok x) \<and> key_ok (joinWith ''/'' (ds @ [f]))
     \<and> (\<forall>j < length ds. vals t (''files'' # take j ds) (ds ! j) = None) \<and> ''files'' # ds @ [f] \<notin> buckets t"

definition prefixes_of :: "string list \<Rightarrow> string list \<Rightarrow> string list set" where
  "prefixes_of b ds = (\<lambda>j. b @ take j ds) ` {..length ds}"

lemma prefixes_of_Cons: "prefixes_of b (d # ds) = insert b (prefixes_of (b @ [d]) ds)"
  unfolding prefixes_of_def by (simp add: atMost_Suc_eq_insert_0 image_image)

lemma prefixes_of_hd: "q \<in> prefixes_of [x] ds \<Longrightarrow> \<exists>r. q = x # r"
  by (auto simp: prefixes_of_def)

lemma prefixes_of_self: "b @ ds \<in> prefixes_of b ds" and prefixes_of_base: "b \<in> prefixes_of b ds"
  by (force simp: prefixes_of_def)+

lemma prefixes_of_length: "q \<in> prefixes_of b ds \<Longrightarrow> length q \<le> length b + length ds"
  by (auto simp: prefixes_of_def)

text \<open>The value of the owners of a hash after one more owner.\<close>

definition moreOwners :: "string option \<Rightarrow> string \<Rightarrow> string" where
  "moreOwners old ow = (case old of None \<Rightarrow> ow | Some v \<Rightarrow> if v = [] then ow else v @ [NUL] @ ow)"

context bolt_store
begin

lemma topBucket_ok: "[n] \<in> buckets t \<Longrightarrow> topBucket ops n t = Return [n]"
  by (simp add: topBucket_def has_bucket)

lemma enterBuckets_ok:
  assumes "b \<in> buckets t" and "\<forall>x \<in> set ds. key_ok x" and "\<forall>j < length ds. vals t (b @ take j ds) (ds ! j) = None"
  shows "\<exists>t'. enterBuckets ops b ds t = Inr t' \<and> buckets t' = buckets t \<union> prefixes_of b ds \<and> vals t' = vals t"
  using assms
proof (induction ds arbitrary: b t)
  case Nil
  then show ?case by (auto simp: prefixes_of_def)
next
  case (Cons d ds)
  have v: "vals t b d = None" using Cons.prems(3) [rule_format, of 0] by simp
  obtain t1 where t1: "(if hasBucket ops t (b @ [d]) then Inr t else createBucket ops (b @ [d]) t) = Inr t1"
    "buckets t1 = insert (b @ [d]) (buckets t)" "vals t1 = vals t"
    using create [OF Cons.prems(1) _ v] Cons.prems(2) has_bucket [of t "b @ [d]"]
    by (cases "hasBucket ops t (b @ [d])") auto
  have "\<forall>j < length ds. vals t1 ((b @ [d]) @ take j ds) (ds ! j) = None"
  proof (intro allI impI)
    fix j assume "j < length ds"
    then show "vals t1 ((b @ [d]) @ take j ds) (ds ! j) = None" using Cons.prems(3) [rule_format, of "Suc j"] t1(3) by simp
  qed
  then obtain t' where "enterBuckets ops (b @ [d]) ds t1 = Inr t'" "buckets t' = buckets t1 \<union> prefixes_of (b @ [d]) ds" "vals t' = vals t1"
    using Cons.IH [of "b @ [d]" t1] Cons.prems(2) t1(2) by auto
  then show ?case using t1 Cons.prems(1) prefixes_of_base [of "b @ [d]" ds] by (auto simp: prefixes_of_Cons)
qed

lemma updateByOwner_put:
  assumes "bolt_inv js buckets vals t" and "key_ok ow" and "key_ok (joinWith ''/'' p)"
  shows "\<exists>t'. updateByOwner ops p (Some fi) ow t = Return (Inr t') \<and> buckets t' = insert [''byOwner'', ow] (buckets t)
    \<and> vals t' = (vals t)([''byOwner'', ow] := (vals t [''byOwner'', ow])(joinWith ''/'' p \<mapsto> []))"
proof -
  let ?ob = "[''byOwner'', ow]"
  have base: "[''byOwner''] \<in> buckets t" "vals t [''byOwner''] ow = None" using assms(1) by (auto simp: bolt_inv_def)
  have no: "?ob @ [joinWith ''/'' p] \<notin> buckets t" using assms(1) by (auto simp: bolt_inv_def)
  obtain t1 where t1: "(if hasBucket ops t ?ob then Inr t else createBucket ops ?ob t) = Inr t1"
    "buckets t1 = insert ?ob (buckets t)" "vals t1 = vals t"
    using create [OF base(1) _ base(2) assms(2)] has_bucket [of t ?ob] by (cases "hasBucket ops t ?ob") auto
  obtain t' where "bput ops ?ob (joinWith ''/'' p) [] t1 = Inr t'" "buckets t' = buckets t1"
    "vals t' = (vals t1)(?ob := (vals t1 ?ob)(joinWith ''/'' p \<mapsto> []))"
    using put [of ?ob t1 "joinWith ''/'' p" "[]"] t1(2) no assms(3) by (auto simp: val_ok_def)
  then show ?thesis using t1 topBucket_ok [OF base(1)] by (auto simp: updateByOwner_def Let_def split: if_splits)
qed

lemma updateFiles_put:
  assumes "[''files''] \<in> buckets t" and "path_free buckets vals t ds f" and "encodeJson js fi = Inr e" and "val_ok e"
  shows "\<exists>t'. updateFiles ops js (ds @ [f]) (Some fi) t = Return (Inr (t', Hash fi))
    \<and> buckets t' = buckets t \<union> prefixes_of [''files''] ds
    \<and> vals t' = (vals t)(''files'' # ds := (vals t (''files'' # ds))(f \<mapsto> e))"
proof -
  obtain t1 where t1: "enterBuckets ops [''files''] ds t = Inr t1" "buckets t1 = buckets t \<union> prefixes_of [''files''] ds" "vals t1 = vals t"
    using enterBuckets_ok [OF assms(1), of ds] assms(2) by (auto simp: path_free_def)
  have "''files'' # ds @ [f] \<notin> prefixes_of [''files''] ds" using prefixes_of_length by fastforce
  then have "(''files'' # ds) @ [f] \<notin> buckets t1" using assms(2) t1(2) by (simp add: path_free_def)
  moreover have "''files'' # ds \<in> buckets t1" using prefixes_of_self [of "[''files'']" ds] t1(2) by simp
  ultimately obtain t' where "bput ops (''files'' # ds) f e t1 = Inr t'" "buckets t' = buckets t1"
    "vals t' = (vals t1)(''files'' # ds := (vals t1 (''files'' # ds))(f \<mapsto> e))"
    using put [of "''files'' # ds" t1 f e] assms(2,4) by (auto simp: path_free_def)
  then show ?thesis using t1 topBucket_ok [OF assms(1)] assms(3) by (simp add: updateFiles_def Let_def encodeFileInfo_def)
qed

lemma SetFile_encode_error:
  assumes "bolt_inv js buckets vals t" and "path_free buckets vals t ds f" and "key_ok ow" and "encodeJson js fi = Inl e"
  shows "bolt_SetFile ops js t (ds @ [f]) (Some fi) ow = Panic"
proof -
  obtain t1 where t1: "updateByOwner ops (ds @ [f]) (Some fi) ow t = Return (Inr t1)" "buckets t1 = insert [''byOwner'', ow] (buckets t)"
    "vals t1 = (vals t)([''byOwner'', ow] := (vals t [''byOwner'', ow])(joinWith ''/'' (ds @ [f]) \<mapsto> []))"
    using updateByOwner_put [OF assms(1,3), of "ds @ [f]" fi] assms(2) unfolding path_free_def by blast
  have files: "[''files''] \<in> buckets t1" using assms(1) t1(2) by (simp add: bolt_inv_def)
  have "path_free buckets vals t1 ds f" using assms(2) t1(2,3) by (auto simp: path_free_def)
  then obtain t2 where "enterBuckets ops [''files''] ds t1 = Inr t2"
    using enterBuckets_ok [OF files, of ds] by (auto simp: path_free_def)
  then have "updateFiles ops js (ds @ [f]) (Some fi) t1 = Panic"
    using topBucket_ok [OF files] assms(4) by (simp add: updateFiles_def Let_def encodeFileInfo_def)
  then show ?thesis using t1(1) by (simp add: bolt_SetFile_def boltUpdate_def)
qed

lemma updateByHash_put:
  assumes "[''byHash''] \<in> buckets t" and "[''byHash'', h] \<notin> buckets t" and "key_ok h" and "ow \<noteq> []"
    and "val_ok (moreOwners (vals t [''byHash''] h) ow)"
  shows "\<exists>t'. updateByHash ops (Some fi) ow h t = Return (Inr t') \<and> buckets t' = buckets t
    \<and> vals t' = (vals t)([''byHash''] := (vals t [''byHash''])(h \<mapsto> moreOwners (vals t [''byHash''] h) ow))"
proof -
  let ?v = "moreOwners (vals t [''byHash''] h) ow"
  have "?v \<noteq> []" using assms(4) by (auto simp: moreOwners_def split: option.splits)
  moreover obtain t' where "bput ops [''byHash''] h ?v t = Inr t'" "buckets t' = buckets t"
    "vals t' = (vals t)([''byHash''] := (vals t [''byHash''])(h \<mapsto> ?v))"
    using put [of "[''byHash'']" t h ?v] assms by auto
  ultimately show ?thesis using topBucket_ok [OF assms(1)]
    by (cases "vals t [''byHash''] h") (auto simp: updateByHash_def Let_def get_vals moreOwners_def)
qed

lemma SetFile_put:
  assumes "bolt_inv js buckets vals t" and "path_free buckets vals t ds f" and "key_ok ow" and "key_ok (Hash fi)"
    and "encodeJson js fi = Inr e" and "val_ok e" and "val_ok (moreOwners (vals t [''byHash''] (Hash fi)) ow)" and "decodeJson js e = Inr fi"
  obtains t' where "bolt_SetFile ops js t (ds @ [f]) (Some fi) ow = Return (t', None)" and "bolt_inv js buckets vals t'"
    and "prefixes_of [''files''] ds \<subseteq> buckets t'" and "vals t' (''files'' # ds) f = Some e"
    and "vals t' [''byHash''] (Hash fi) = Some (moreOwners (vals t [''byHash''] (Hash fi)) ow)"
proof -
  let ?h = "Hash fi"
  note inv = assms(1) [unfolded bolt_inv_def]
  obtain t1 where t1: "updateByOwner ops (ds @ [f]) (Some fi) ow t = Return (Inr t1)" "buckets t1 = insert [''byOwner'', ow] (buckets t)"
    "vals t1 = (vals t)([''byOwner'', ow] := (vals t [''byOwner'', ow])(joinWith ''/'' (ds @ [f]) \<mapsto> []))"
    using updateByOwner_put [OF assms(1,3), of "ds @ [f]" fi] assms(2) unfolding path_free_def by blast
  have pf: "path_free buckets vals t1 ds f" using assms(2) t1(2,3) by (auto simp: path_free_def)
  obtain t2 where t2: "updateFiles ops js (ds @ [f]) (Some fi) t1 = Return (Inr (t2, ?h))"
    "buckets t2 = buckets t1 \<union> prefixes_of [''files''] ds"
    "vals t2 = (vals t1)(''files'' # ds := (vals t1 (''files'' # ds))(f \<mapsto> e))"
    using updateFiles_put [OF _ pf assms(5,6)] inv t1(2) by auto
  have own: "vals t2 [''byHash''] ?h = vals t [''byHash''] ?h" using t1(3) t2(3) by simp
  have "[''byHash''] \<in> buckets t2" "[''byHash'', ?h] \<notin> buckets t2"
    using inv t1(2) t2(2) prefixes_of_hd [of "[''byHash'', ?h]" "''files''" ds] by auto
  moreover have "ow \<noteq> []" using assms(3) by (simp add: key_ok_def)
  ultimately obtain t3 where t3: "updateByHash ops (Some fi) ow ?h t2 = Return (Inr t3)" "buckets t3 = buckets t2"
    "vals t3 = (vals t2)([''byHash''] := (vals t2 [''byHash''])(?h \<mapsto> moreOwners (vals t [''byHash''] ?h) ow))"
    using updateByHash_put [of t2 ?h ow fi] assms(4,7) own by auto
  have "bolt_SetFile ops js t (ds @ [f]) (Some fi) ow = Return (t3, None)"
    using t1(1) t2(1) t3(1) by (simp add: bolt_SetFile_def boltUpdate_def)
  moreover have "bolt_inv js buckets vals t3"
    unfolding bolt_inv_def using inv t1(2,3) t2(2,3) t3(2,3) assms(8)
    by (auto dest: prefixes_of_hd split: if_splits)
  ultimately show ?thesis using that [of t3] t2(2,3) t3(2,3) by auto
qed

section \<open>Listings\<close>

lemma findBucket_ok: "prefixes_of b ds \<subseteq> buckets t \<Longrightarrow> findBucket ops t b ds = Some (b @ ds)"
proof (induction ds arbitrary: b)
  case (Cons d ds)
  then have p: "prefixes_of (b @ [d]) ds \<subseteq> buckets t" by (simp add: prefixes_of_Cons)
  then have "b @ [d] \<in> buckets t" using prefixes_of_base by blast
  then show ?case using Cons.IH [OF p] has_bucket by simp
qed simp

end

lemma listOne_fold:
  assumes "\<forall>(k, v) \<in> set l. v \<noteq> None \<longrightarrow> (\<exists>fi. decodeJson js (the v) = Inr fi)"
  shows "\<exists>fls dirs. go_fold (listOne js) l (fls0, dirs0) = Return (fls, dirs0 @ dirs) \<and> set dirs = {k. (k, None) \<in> set l}
    \<and> (\<forall>k fi. (\<exists>v. (k, Some v) \<in> set l) \<longrightarrow> (\<forall>v. (k, Some v) \<in> set l \<longrightarrow> decodeJson js v = Inr fi) \<longrightarrow> map_of fls k = Some fi)
    \<and> (\<forall>k. (\<nexists>v. (k, Some v) \<in> set l) \<longrightarrow> map_of fls k = map_of fls0 k)"
  using assms
proof (induction l arbitrary: fls0 dirs0)
  case (Cons x l)
  obtain k v where x: "x = (k, v)" by fastforce
  show ?case
  proof (cases v)
    case None
    obtain fls dirs where "go_fold (listOne js) l (fls0, dirs0 @ [k]) = Return (fls, (dirs0 @ [k]) @ dirs)" "set dirs = {k. (k, None) \<in> set l}"
      "\<forall>k fi. (\<exists>v. (k, Some v) \<in> set l) \<longrightarrow> (\<forall>v. (k, Some v) \<in> set l \<longrightarrow> decodeJson js v = Inr fi) \<longrightarrow> map_of fls k = Some fi"
      "\<forall>k. (\<nexists>v. (k, Some v) \<in> set l) \<longrightarrow> map_of fls k = map_of fls0 k"
      using Cons.IH [of fls0 "dirs0 @ [k]"] Cons.prems by auto
    then show ?thesis using x None by (intro exI [of _ fls] exI [of _ "k # dirs"]) (auto simp: listOne_def)
  next
    case (Some b)
    then obtain fi where fi: "decodeJson js b = Inr fi" using Cons.prems x by auto
    let ?fls = "AList.update k fi fls0"
    obtain fls dirs where r: "go_fold (listOne js) l (?fls, dirs0) = Return (fls, dirs0 @ dirs)" "set dirs = {k. (k, None) \<in> set l}"
      "\<forall>k fi. (\<exists>v. (k, Some v) \<in> set l) \<longrightarrow> (\<forall>v. (k, Some v) \<in> set l \<longrightarrow> decodeJson js v = Inr fi) \<longrightarrow> map_of fls k = Some fi"
      "\<forall>k. (\<nexists>v. (k, Some v) \<in> set l) \<longrightarrow> map_of fls k = map_of ?fls k"
      using Cons.IH [of ?fls dirs0] Cons.prems by auto
    have "map_of fls k' = Some fi'"
      if "\<exists>v. (k', Some v) \<in> set (x # l)" "\<forall>v. (k', Some v) \<in> set (x # l) \<longrightarrow> decodeJson js v = Inr fi'" for k' fi'
    proof (cases "\<exists>v. (k', Some v) \<in> set l")
      case True
      then show ?thesis using r(3) that(2) by auto
    next
      case False
      then have "k' = k" using that(1) x by auto
      then show ?thesis using r(4) False that(2) x Some fi by auto
    qed
    then show ?thesis using r x Some fi by (intro exI [of _ fls] exI [of _ dirs]) (auto simp: listOne_def decodeFileInfo_def)
  qed
qed simp

section \<open>Properties\<close>

lemma bolt_put_listed:
  assumes "bolt_store ops buckets vals" and "bolt_inv js buckets vals t" and "path_free buckets vals t ds f" and "key_ok ow" and "key_ok (Hash fi)"
    and "encodeJson js fi = Inr v" and "val_ok v" and "val_ok (moreOwners (vals t [''byHash''] (Hash fi)) ow)" and "decodeJson js v = Inr fi"
    and "\<forall>x \<in> set ds. CHR ''/'' \<notin> set x" and "ds \<noteq> []"
  shows "\<exists>t' fls dirs. bolt_SetFile ops js t (ds @ [f]) (Some fi) ow = Return (t', None) \<and> bolt_inv js buckets vals t'
    \<and> bolt_GetDir ops js t' (joinWith ''/'' ds) = Return (Inr (fls, dirs)) \<and> map_of fls f = Some fi"
proof -
  obtain t' where t': "bolt_SetFile ops js t (ds @ [f]) (Some fi) ow = Return (t', None)" "bolt_inv js buckets vals t'"
    "prefixes_of [''files''] ds \<subseteq> buckets t'" "vals t' (''files'' # ds) f = Some v"
    by (rule bolt_store.SetFile_put [of ops buckets vals js t ds f ow fi, OF assms(1-9)])
  let ?b = "''files'' # ds"
  have find: "findBucket ops t' [''files''] ds = Some ?b" using bolt_store.findBucket_ok [OF assms(1) t'(3)] by simp
  have b: "?b \<in> buckets t'" using t'(3) prefixes_of_self [of "[''files'']" ds] by auto
  have cur: "set (cursor ops t' ?b) = {(k, Some v) | k v. vals t' ?b k = Some v} \<union> {(n, None) | n. ?b @ [n] \<in> buckets t'}"
    by (rule bolt_store.cursor_set [OF assms(1) _ b]) simp
  have "\<forall>(k, v) \<in> set (cursor ops t' ?b). v \<noteq> None \<longrightarrow> (\<exists>fi. decodeJson js (the v) = Inr fi)"
    unfolding cur using t'(2) by (auto simp: bolt_inv_def)
  from listOne_fold [OF this, of "[]" "[]"] obtain fls dirs where
    l: "go_fold (listOne js) (cursor ops t' ?b) ([], []) = Return (fls, dirs)"
    and m: "\<forall>k fi. (\<exists>v. (k, Some v) \<in> set (cursor ops t' ?b)) \<longrightarrow>
      (\<forall>v. (k, Some v) \<in> set (cursor ops t' ?b) \<longrightarrow> decodeJson js v = Inr fi) \<longrightarrow> map_of fls k = Some fi" by auto
  have "map_of fls f = Some fi" using m t'(4) assms(9) unfolding cur by auto
  moreover have "joinWith ''/'' ds \<noteq> []" using joinWith_ends [of ds "CHR ''/''"] assms(3,10,11) by (auto simp: path_free_def key_ok_def)
  moreover have "splitOn (CHR ''/'') (joinWith ''/'' ds) = ds" by (rule splitOn_joinWith) (use assms(10,11) in auto)
  moreover have "topBucket ops ''files'' t' = Return [''files'']"
    by (rule bolt_store.topBucket_ok [OF assms(1)]) (use t'(2) in \<open>simp add: bolt_inv_def\<close>)
  ultimately show ?thesis using t'(1,2) find l by (simp add: bolt_GetDir_def)
qed

text \<open>
  C14. Publishing in the Bolt database, on a store of the expected shape and for a path with no file in
  the place of one of its directories: if the metadata can be encoded as JSON, \<^verbatim>\<open>SetFile\<close> succeeds and
  keeps the shape, and the listing of the directory then has the file with exactly the published
  metadata, relying on the round trip of the encoding; if it cannot be encoded, \<^verbatim>\<open>SetFile\<close> panics.
\<close>

theorem bolt_publish_listed:
  assumes "bolt_store ops buckets vals" and "bolt_inv js buckets vals t" and "path_free buckets vals t ds f" and "key_ok ow" and "key_ok (Hash fi)"
    and "val_ok (moreOwners (vals t [''byHash''] (Hash fi)) ow)" and "\<forall>x \<in> set ds. CHR ''/'' \<notin> set x" and "ds \<noteq> []"
  shows "case encodeJson js fi of
      Inl e \<Rightarrow> bolt_SetFile ops js t (ds @ [f]) (Some fi) ow = Panic
    | Inr v \<Rightarrow> val_ok v \<and> decodeJson js v = Inr fi \<longrightarrow>
        (\<exists>t' fls dirs. bolt_SetFile ops js t (ds @ [f]) (Some fi) ow = Return (t', None) \<and> bolt_inv js buckets vals t'
          \<and> bolt_GetDir ops js t' (joinWith ''/'' ds) = Return (Inr (fls, dirs)) \<and> map_of fls f = Some fi)"
proof (cases "encodeJson js fi")
  case (Inl e)
  then show ?thesis using bolt_store.SetFile_encode_error [OF assms(1-4) Inl] by simp
next
  case (Inr v)
  have "\<exists>t' fls dirs. bolt_SetFile ops js t (ds @ [f]) (Some fi) ow = Return (t', None) \<and> bolt_inv js buckets vals t'
      \<and> bolt_GetDir ops js t' (joinWith ''/'' ds) = Return (Inr (fls, dirs)) \<and> map_of fls f = Some fi"
    if "val_ok v" "decodeJson js v = Inr fi"
    by (rule bolt_put_listed [of ops buckets vals js t ds f ow fi v, OF assms(1-5) Inr that(1) assms(6) that(2) assms(7,8)])
  then show ?thesis using Inr by simp
qed

text \<open>
  C39. The owners that the Bolt database returns are useless once a hash has two of them: they are stored
  with NUL between them but taken apart at slashes, so after a second peer published a hash
  \<^verbatim>\<open>GetOwners\<close> yields a single entry that consists of both names and is the identity of neither.
\<close>

theorem bolt_owners_glued:
  assumes "bolt_store ops buckets vals" and "bolt_inv js buckets vals t" and "path_free buckets vals t ds f" and "key_ok ow" and "key_ok (Hash fi)"
    and "encodeJson js fi = Inr v" and "val_ok v" and "val_ok (ow' @ [NUL] @ ow)" and "decodeJson js v = Inr fi"
    and "bolt_GetOwners ops t (Hash fi) = Return (Inr [ow'])" and "CHR ''/'' \<notin> set ow"
  shows "\<exists>t'. bolt_SetFile ops js t (ds @ [f]) (Some fi) ow = Return (t', None)
    \<and> bolt_GetOwners ops t' (Hash fi) = Return (Inr [ow' @ [NUL] @ ow]) \<and> ow \<notin> set [ow' @ [NUL] @ ow] \<and> ow' \<notin> set [ow' @ [NUL] @ ow]"
proof -
  have old: "vals t [''byHash''] (Hash fi) = Some ow'" "ow' \<noteq> []" "CHR ''/'' \<notin> set ow'"
  proof -
    obtain v where v: "vals t [''byHash''] (Hash fi) = Some v" "v \<noteq> []" "splitOn (CHR ''/'') v = [ow']"
      using assms(10) bolt_store.get_vals [OF assms(1)] by (auto simp: bolt_GetOwners_def topBucket_def split: option.splits if_splits)
    moreover have "v = ow'" using joinWith_splitOn [of "CHR ''/''" v] v(3) by simp
    moreover have "CHR ''/'' \<notin> set ow'" using splitOn_parts [of ow' "CHR ''/''" v] v(3) by simp
    ultimately show "vals t [''byHash''] (Hash fi) = Some ow'" "ow' \<noteq> []" "CHR ''/'' \<notin> set ow'" by auto
  qed
  then have more: "moreOwners (vals t [''byHash''] (Hash fi)) ow = ow' @ [NUL] @ ow" by (simp add: moreOwners_def)
  obtain t' where t': "bolt_SetFile ops js t (ds @ [f]) (Some fi) ow = Return (t', None)" "bolt_inv js buckets vals t'"
    "vals t' [''byHash''] (Hash fi) = Some (ow' @ [NUL] @ ow)"
    using bolt_store.SetFile_put [of ops buckets vals js t ds f ow fi, OF assms(1-7)] assms(8,9) unfolding more by blast
  have "splitOn (CHR ''/'') (ow' @ [NUL] @ ow) = [ow' @ [NUL] @ ow]" using old(3) assms(11) by (intro splitOn_no_sep) simp
  moreover have "topBucket ops ''byHash'' t' = Return [''byHash'']"
    by (rule bolt_store.topBucket_ok [OF assms(1)]) (use t'(2) in \<open>simp add: bolt_inv_def\<close>)
  ultimately show ?thesis using t'(1,3) bolt_store.get_vals [OF assms(1)] by (auto simp: bolt_GetOwners_def)
qed

text \<open>
  C40. Deleting a file that the Bolt database does not have panics, because the missing value is decoded
  to find its hash: a peer ends the master by withdrawing a file twice.
\<close>

theorem bolt_delete_missing_panics:
  assumes "bolt_store ops buckets vals" and "bolt_inv js buckets vals t" and "\<forall>x \<in> set ds. key_ok x"
    and "\<forall>j < length ds. vals t (''files'' # take j ds) (ds ! j) = None" and "vals t (''files'' # ds) f = None"
    and "decodeJson js [] = Inl e"
  shows "bolt_SetFile ops js t (ds @ [f]) None ow = Panic"
proof -
  let ?ob = "[''byOwner'', ow]"
  note inv = assms(2) [unfolded bolt_inv_def]
  have top: "topBucket ops ''byOwner'' t = Return [''byOwner'']"
    by (rule bolt_store.topBucket_ok [OF assms(1)]) (use inv in simp)
  obtain t1 where t1: "updateByOwner ops (ds @ [f]) None ow t = Return (Inr t1)" "buckets t1 = buckets t"
    "\<forall>q. vals t1 (''files'' # q) = vals t (''files'' # q)"
  proof (cases "?ob \<in> buckets t")
    case True
    then obtain t1 where "bdel ops ?ob (joinWith ''/'' (ds @ [f])) t = Inr t1" "buckets t1 = buckets t"
      "vals t1 = (vals t)(?ob := (vals t ?ob)(joinWith ''/'' (ds @ [f]) := None))"
      using bolt_store.del [OF assms(1), of ?ob t "joinWith ''/'' (ds @ [f])"] inv by auto
    then show ?thesis using that [of t1] True top bolt_store.has_bucket [OF assms(1)] by (simp add: updateByOwner_def)
  next
    case False
    then show ?thesis using that [of t] top bolt_store.has_bucket [OF assms(1)] by (simp add: updateByOwner_def)
  qed
  have "\<forall>j < length ds. vals t1 ([''files''] @ take j ds) (ds ! j) = None" using assms(4) t1(3) by simp
  then obtain t2 where t2: "enterBuckets ops [''files''] ds t1 = Inr t2" "vals t2 = vals t1"
    using bolt_store.enterBuckets_ok [OF assms(1) _ assms(3), of "[''files'']" t1] inv t1(2) by auto
  have "bget ops t2 (''files'' # ds) f = None"
    using bolt_store.get_vals [OF assms(1)] t2(2) t1(3) assms(5) by simp
  moreover have "topBucket ops ''files'' t1 = Return [''files'']"
    by (rule bolt_store.topBucket_ok [OF assms(1)]) (use inv t1(2) in simp)
  ultimately have "updateFiles ops js (ds @ [f]) None t1 = Panic"
    using t2(1) assms(6) by (simp add: updateFiles_def decodeFileInfo_def)
  then show ?thesis using t1(1) by (simp add: bolt_SetFile_def boltUpdate_def)
qed

text \<open>A store that \<^verbatim>\<open>newDatabase\<close> made, and one with a published file; a codec for three fields.\<close>

definition demo_codec :: json_codec where
  "demo_codec = \<lparr>encodeJson = (\<lambda>fi. if Mtime fi < 0 then Inl (OsError ''year outside of range'')
       else Inr ((if Size fi = 3 then ''3'' else ''0'') @ Hash fi)),
     decodeJson = (\<lambda>s. case s of [] \<Rightarrow> Inl (OsError ''unexpected end of JSON input'')
       | c # h \<Rightarrow> Inr \<lparr>Size = if c = CHR ''3'' then 3 else 0, Hash = h, Mtime = 0\<rparr>)\<rparr>"

definition demo_bolt_fi :: FileInfo where
  "demo_bolt_fi = \<lparr>Size = 3, Hash = ''h'', Mtime = 0\<rparr>"

definition demo_store :: mem_store where
  "demo_store = \<lparr>m_buckets = [[''files''], [''byHash''], [''byOwner'']], m_vals = []\<rparr>"

definition demo_store1 :: mem_store where
  "demo_store1 = \<lparr>m_buckets = [[''files''], [''byHash''], [''byOwner''], [''byOwner'', ''al@a''], [''files'', ''al'']],
     m_vals = [(([''byOwner'', ''al@a''], ''al/x''), []), (([''files'', ''al''], ''x''), ''3h''), (([''byHash''], ''h''), ''al@a'')]\<rparr>"

abbreviation "mem_buckets \<equiv> \<lambda>t. insert [] (set (m_buckets t))"

lemma demo_store_made: "bolt_newDatabase memBolt (Return ''/db'') (\<lambda>fn. Inr \<lparr>m_buckets = [], m_vals = []\<rparr>) = Return (Inr demo_store)"
  by (simp add: bolt_newDatabase_def boltUpdate_def memBolt_def key_ok_def mem_vals_def demo_store_def)

lemma demo_store_inv: "bolt_inv demo_codec mem_buckets mem_vals demo_store" "bolt_inv demo_codec mem_buckets mem_vals demo_store1"
  by (auto simp: bolt_inv_def demo_store_def demo_store1_def mem_vals_def demo_codec_def split: if_splits)

lemma demo_codec_ok:
  "encodeJson demo_codec demo_bolt_fi = Inr ''3h''" "decodeJson demo_codec ''3h'' = Inr demo_bolt_fi" "val_ok ''3h''"
  "key_ok (Hash demo_bolt_fi)"
  by (simp_all add: demo_codec_def demo_bolt_fi_def val_ok_def key_ok_def)

lemma demo_path_free:
  "path_free mem_buckets mem_vals demo_store [''al''] ''x''" "path_free mem_buckets mem_vals demo_store1 [''bo''] ''x''"
  by (simp_all add: path_free_def key_ok_def demo_store_def demo_store1_def mem_vals_def)

theorem bolt_publish_listed_witness:
  "\<exists>t' fls dirs. bolt_SetFile memBolt demo_codec demo_store [''al'', ''x''] (Some demo_bolt_fi) ''al@a'' = Return (t', None)
     \<and> bolt_GetDir memBolt demo_codec t' ''al'' = Return (Inr (fls, dirs)) \<and> map_of fls ''x'' = Some demo_bolt_fi"
proof -
  have "key_ok ''al@a''" "val_ok (moreOwners (mem_vals demo_store [''byHash''] (Hash demo_bolt_fi)) ''al@a'')"
    by (simp_all add: key_ok_def val_ok_def moreOwners_def demo_store_def mem_vals_def)
  from bolt_publish_listed [of memBolt mem_buckets mem_vals demo_codec demo_store "[''al'']" "''x''" "''al@a''" demo_bolt_fi,
      OF mem.bolt_store_axioms demo_store_inv(1) demo_path_free(1) this(1) demo_codec_ok(4) this(2)]
  show ?thesis using demo_codec_ok(1-3) by auto
qed

theorem bolt_owners_glued_witness:
  "\<exists>t'. bolt_SetFile memBolt demo_codec demo_store1 [''bo'', ''x''] (Some demo_bolt_fi) ''bo@b'' = Return (t', None)
     \<and> bolt_GetOwners memBolt t' ''h'' = Return (Inr [''al@a'' @ [NUL] @ ''bo@b''])"
proof -
  have "bolt_GetOwners memBolt demo_store1 (Hash demo_bolt_fi) = Return (Inr [''al@a''])" by code_simp
  from bolt_owners_glued [OF mem.bolt_store_axioms demo_store_inv(2) demo_path_free(2) _ demo_codec_ok(4,1,3) _ demo_codec_ok(2) this, of "''bo@b''"]
  show ?thesis by (auto simp: key_ok_def val_ok_def demo_bolt_fi_def)
qed

theorem bolt_delete_missing_panics_witness:
  "bolt_SetFile memBolt demo_codec demo_store1 [''al'', ''y''] None ''al@a'' = Panic"
  using bolt_delete_missing_panics [OF mem.bolt_store_axioms demo_store_inv(2), of "[''al'']" "''y''" _ "''al@a''"]
  by (simp add: key_ok_def demo_store1_def mem_vals_def demo_codec_def)

end
