(* ===== verification/Spec2Isabelle.thy ===== *)
theory Spec2Isabelle
  imports Master_Service Peer_Server Frontend_Lib Rpc_Client Main_Program Database_Sqlite Database_Bolt
begin

text \<open>
  A verification development of RUFS, a peer-to-peer file sharing program written in Go.

  \<^bold>\<open>The program.\<close> A master (\<^verbatim>\<open>master.go\<close>) keeps a database of the files that its peers share: for every
  path \<open>user/share/...\<close> the metadata, and for every content hash the peers that hold it. A peer (\<^verbatim>\<open>server.go\<close>) scans its
  shared directories (\<^verbatim>\<open>filescanner/filescanner.go\<close>), announces every change to the master over an RPC
  connection that it re-establishes when it is lost (\<^verbatim>\<open>types.go\<close>), and serves the contents by hash to
  other peers. The front ends, an FTP server (\<^verbatim>\<open>ftp.go\<close>) and a FUSE file system (\<^verbatim>\<open>fuse.go\<close>) over a cache of
  listings (\<^verbatim>\<open>felib.go\<close>), list directories at the master, ask it for the owners of a hash and fetch
  the blocks of the content from them (\<^verbatim>\<open>fetch.go\<close>). There are three implementations of the database
  behind one interface (\<^verbatim>\<open>database_inmem.go\<close>, \<^verbatim>\<open>database_sqlite.go\<close>, \<^verbatim>\<open>database_bolt.go\<close>). Peers are
  identified by certificates that the master issues (\<^verbatim>\<open>crypto.go\<close>). \<^verbatim>\<open>main.go\<close> starts these modules.

  \<^bold>\<open>The theories and the code.\<close>
  \<^item> \<^verbatim>\<open>Go_Prelude\<close>: the outcome type \<open>go\<close> (a value or a panic) with its bind and fold, Go maps as
    association lists, and the functions of \<^verbatim>\<open>strings\<close> and \<^verbatim>\<open>net\<close> that the code uses. \<^verbatim>\<open>Go_Path\<close>: the
    functions of \<^verbatim>\<open>path/filepath\<close>. \<^verbatim>\<open>Rufs_Types\<close>: the shared records of \<^verbatim>\<open>common/types.go\<close> and \<^verbatim>\<open>types.go\<close>, and one
    datatype of all errors. \<^verbatim>\<open>Program_Flags\<close>: the flags and \<^verbatim>\<open>getPath\<close> of \<^verbatim>\<open>main.go\<close>.
  \<^item> \<^verbatim>\<open>Database_Api\<close>: the record \<open>db_ops\<close> of database operations and the locale \<open>database\<close>, the contract
    that the master relies on. \<^verbatim>\<open>Database_Inmem\<close> models \<^verbatim>\<open>database_inmem.go\<close> (the directory tree, the owner
    counts and every loop of \<^verbatim>\<open>setFileLocked\<close> and \<^verbatim>\<open>searchAndDestroy\<close>) and interprets the locale.
  \<^item> \<^verbatim>\<open>Database_Sqlite\<close> and \<^verbatim>\<open>Database_Bolt\<close> model the other two databases. The SQL engine and the Bolt
    library are records of operations with their documented behaviour as the locales \<open>sql_engine\<close> and
    \<open>bolt_store\<close>, each interpreted on an executable store.
  \<^item> \<^verbatim>\<open>Crypto\<close>: \<^verbatim>\<open>crypto.go\<close>, over a record of the primitives of the standard library.
  \<^item> \<^verbatim>\<open>Master_Service\<close>: the RPC handlers of \<^verbatim>\<open>master.go\<close> and its accept loop as the step relation
    \<open>master_step\<close>; a step is a new connection, a whole handler, or the end of a connection.
  \<^item> \<^verbatim>\<open>File_Scanner\<close>: the walk, the passes, the hash cache on disk, and the listeners, with the locales
    \<open>scan_changes\<close> and \<open>scan_listener\<close> for what a listener promises. A callback gets a pointer to metadata
    (\<open>info_ptr\<close>), with the values that the variable takes later: the initial export hands out the address
    of its loop variable.
  \<^item> \<^verbatim>\<open>Peer_Server\<close>: \<^verbatim>\<open>server.go\<close>, that is the share flag, start-up, the index of shared files, the queue of
    requests (with their pointers; \<open>encodes\<close> relates them to what is sent) and the four goroutines that send
    them (\<open>worker_step\<close>), and the handler \<^verbatim>\<open>Read\<close> with its single, possibly short, read of the file.
  \<^item> \<^verbatim>\<open>Rpc_Client\<close>: \<^verbatim>\<open>types.go\<close>, both clients with their reconnects, run against the model of the master
    (\<open>masterNet\<close>), and several goroutines on one client as \<open>call_step\<close>. A call whose re-export blocks for
    ever has the result \<open>None\<close>.
  \<^item> \<^verbatim>\<open>Block_Fetcher\<close>: \<^verbatim>\<open>fetch.go\<close> with its block table, channels and goroutines; \<open>fetch_step\<close> interleaves
    any number of readers and fetching goroutines, \<open>pfRead\<close> is a read that nobody interferes with.
  \<^item> \<^verbatim>\<open>Frontend_Lib\<close>: \<^verbatim>\<open>felib.go\<close>, \<^verbatim>\<open>ftp.go\<close> and \<^verbatim>\<open>fuse.go\<close>, with one locale for the two copies of the cache.
  \<^item> \<^verbatim>\<open>Main_Program\<close>: the start of \<^verbatim>\<open>main.go\<close> and \<^verbatim>\<open>master.go\<close>, and the collection of the results of the modules
    with the cancelled context as \<open>main_step\<close>.
  \<^item> This theory: properties that span components.

  Every function keeps the name it has in the code where HOL allows it; a prefix tells apart the
  methods of different types with one name (\<open>rpc_SetFile\<close>, \<open>server_SetFile\<close>, \<open>client_SetFile\<close>,
  \<open>bolt_SetFile\<close>). Errors are values of \<open>go_error\<close>, a panic is \<open>Panic\<close>, state is passed explicitly. Integers
  whose width matters (block arithmetic on int64) are wrapped with \<open>i64\<close>; other Go integers are \<open>int\<close>.

  \<^bold>\<open>What is shown.\<close>
  \<^item> End to end: a published file is found, opened and read by a user with exactly its content, under
    conditions that are spelled out there (\<open>published_file_is_read\<close>); what a scanner announces the master
    accepts, but for one case (\<open>announced_paths_accepted\<close>); and a queued request is stored or logged as
    failed (\<open>workers_publish\<close>).
  \<^item> The databases: \<open>inmem_refines\<close> and \<open>sqlite_refines\<close> relate runs of operations to an abstract map of
    published files; round trips of publishing and listing for the in-memory and the Bolt database; the
    exact effect of a disconnect; the inputs that crash each database or corrupt its answers.
  \<^item> The master: invariants of all reachable states on stored paths and session identities, isolation
    of users, refusal of connections that did not sign in, registration only against a token.
  \<^item> The scanner and the server: a pass leaves exactly the visible regular files in the table, over
    restarts too; the index and the requests follow the table; after a reconnect every file is announced
    again, but possibly with the metadata of another one (\<open>reconnect_reannounces\<close>).
  \<^item> The fetcher: reads return exactly the requested slice under any interleaving or nothing with an
    error, channels are closed once, streams end; and the run in which data is lost silently.
  \<^item> The clients and the program: a request survives the loss of its connection; concurrent reconnects
    can lose the callback; the program exits, with the right code, if its modules heed the cancelled
    context, and hangs otherwise.

  \<^bold>\<open>Bounds and fuel.\<close> \<open>getPathRec\<close> is a partial function, its divergence is characterised (\<open>getPath_result\<close>).
  \<open>streamCopy\<close> takes fuel, one unit for each buffer; \<open>stream_copies_rest\<close> and \<open>published_file_is_read\<close> show that
  enough buffers to reach past the end suffice. The theorems on the fetcher assume that offsets stay
  below \<open>2 ^ 63\<close> (a file size plus the read-ahead). \<open>maxAlloc\<close> is the largest slice that the runtime allocates.
  \<open>main_exits\<close> bounds the number of steps by a measure. One read of the operating system asks for at most
  \<open>maxRW\<close> bytes.

  \<^bold>\<open>Not modelled.\<close> \<^verbatim>\<open>LogRPC\<close> (\<^verbatim>\<open>common.go\<close>) and all other logging, which has no effect on the state. The TLS,
  RPC, FTP and FUSE libraries, the SQL engine, Bolt, JSON, and \<^verbatim>\<open>crypto/*\<close> are arguments of the model.
  \<^verbatim>\<open>Close\<close> of a database or a client only releases resources. A handler of
  the master is one step, which for the in-memory database is what its lock gives; so is a lookup in
  the directory cache together with its call to the master. The moment at which the context of a
  listener is cancelled during a pass of the scanner is not modelled. A goroutine that encodes a
  request reads the metadata at one moment: a torn read of it in a data race is not modelled. The
  goroutines that send requests are modelled against the handler of the master, not interleaved with the
  scanner that fills the queue. A second signal during the shutdown ends the process at once and is
  not a step of \<open>main_step\<close>.
\<close>

section \<open>From the scanner to the master\<close>


text \<open>The components of the path of a request, as the master checks them.\<close>

definition acceptable :: "string \<Rightarrow> bool" where
  "acceptable path \<longleftrightarrow> (\<forall>x \<in> set (splitOn (CHR ''/'') path). \<not> bad_part x)"

lemma rpc_SetFile_acceptable:
  "acceptable (sf_Path q) \<Longrightarrow> address p \<noteq> [] \<Longrightarrow> \<not> bad_part (user p) \<Longrightarrow>
   rpc_SetFile ops d p q = op_SetFile ops d (user p # splitOn (CHR ''/'') (sf_Path q)) (sf_Info q) (ident p)"
  using find_None [of bad_part "splitOn (CHR ''/'') (sf_Path q)"] by (simp add: acceptable_def rpc_SetFile_def Let_def)

lemma not_bad_part: "plain_part x \<Longrightarrow> \<not> hidden x \<Longrightarrow> \<not> bad_part x"
  by (simp add: plain_part_def hidden_def bad_part_def)

lemma acceptable_joined:
  "ns \<noteq> [] \<Longrightarrow> \<forall>n \<in> set ns. plain_part n \<and> \<not> hidden n \<Longrightarrow> acceptable (joinWith ''/'' ns)"
  unfolding acceptable_def using splitOn_joinWith [of ns SLASH] not_bad_part by (auto simp: plain_part_def)

text \<open>What a share called \<open>sh\<close> announces for the paths of a scan; \<open>.\<close> is a shared directory that is a regular file.\<close>

lemma share_path_acceptable:
  assumes "scan_path p" and "sh = [] \<or> plain_part sh \<and> \<not> hidden sh"
  shows "sh = [] \<and> joinPath [sh, p] = ''.'' \<or> acceptable (joinPath [sh, p])"
proof -
  obtain ns where p: "p = relName ns" and ns: "\<forall>n \<in> set ns. plain_part n \<and> \<not> hidden n"
    using assms(1) unfolding scan_path_def by blast
  let ?xs = "if sh = [] then ns else sh # ns"
  have j: "joinPath [sh, p] = relName ?xs" unfolding p by (rule joinPath_relName) (use assms(2) ns in auto)
  show ?thesis
  proof (cases "?xs = []")
    case True
    then show ?thesis unfolding j by (simp add: relName_def split: if_splits)
  next
    case False
    have "\<forall>n \<in> set ?xs. plain_part n \<and> \<not> hidden n" using ns assms(2) by auto
    then have "acceptable (joinWith ''/'' ?xs)" by (rule acceptable_joined [OF False])
    then show ?thesis unfolding j relName_def using False by simp
  qed
qed

definition requests_ok :: "string \<Rightarrow> (string \<Rightarrow> FileInfo option) \<Rightarrow> 'cert server_world \<Rightarrow> bool" where
  "requests_ok sh m w \<longleftrightarrow> (sh = [] \<or> plain_part sh \<and> \<not> hidden sh) \<and>
     (\<forall>q \<in> set (setFileRequestChan (srv w)). sh = [] \<and> q_Path q = ''.'' \<or> acceptable (q_Path q))"

lemma requests_ok_callback:
  "requests_ok sh m w \<Longrightarrow> scan_path p \<Longrightarrow> requests_ok sh m' (setFileCallback sh c p fi old w)"
  using share_path_acceptable [of p sh] by (auto simp: requests_ok_def setFileCallback_def server_SetFile_def Let_def split: if_splits)

text \<open>The server's callback keeps the requests acceptable: a second contract of the same listener.\<close>

interpretation announcer: scan_listener "serverScanEnv h ce ee cf re" "setFileCallback sh" "requests_ok sh"
  for h ce ee cf re sh
proof
  fix m :: "string \<Rightarrow> FileInfo option" and w :: "'a server_world" and p fi c f old ptr later
  show "isDone (serverScanEnv h ce ee cf re) (setFileCallback sh c p ptr old w) = isDone (serverScanEnv h ce ee cf re) w"
    by (rule callback_contexts)
  assume ok: "requests_ok sh m w" and paths: "\<And>q. m q \<noteq> None \<Longrightarrow> scan_path q"
  show "requests_ok sh (m(p := fi))
      (setFileCallback sh c p (map_option fresh fi) (Some (case m p of None \<Rightarrow> zeroInfo | Some f \<Rightarrow> f)) w)"
    if "scan_path p" by (rule requests_ok_callback [OF ok that])
  show "requests_ok sh m (setFileCallback sh c p (Some (InfoPtr f later)) None w)" if "m p = Some f"
    by (rule requests_ok_callback [OF ok paths]) (simp add: that)
qed

text \<open>The master's answer to what a request becomes on the wire.\<close>

lemma rpc_SetFile_announced:
  assumes "requests_ok sh m w" and "q \<in> set (setFileRequestChan (srv w))" and "encodes q r"
    and "address p \<noteq> []" and "\<not> bad_part (user p)"
  shows "rpc_SetFile ops d p r =
    (if sh = [] \<and> sf_Path r = ''.'' then Return (d, Some (InvalidPart ''.''))
     else op_SetFile ops d (user p # splitOn (CHR ''/'') (sf_Path r)) (sf_Info r) (ident p))"
proof (cases "sh = [] \<and> sf_Path r = ''.''")
  case True
  moreover have "splitOn (CHR ''/'') ''.'' = [''.'']" "bad_part ''.''" by (simp_all add: bad_part_def)
  ultimately show ?thesis using assms(4,5) by (simp add: rpc_SetFile_def)
next
  case False
  moreover have "sf_Path r = q_Path q" using assms(3) by (simp add: encodes_def)
  ultimately have "acceptable (sf_Path r)" using assms(1,2) unfolding requests_ok_def by auto
  then show ?thesis using rpc_SetFile_acceptable [OF _ assms(4,5)] False by auto
qed

text \<open>
  C8. What a share announces, the master accepts: the scanner and the master have the same idea of a
  valid path. A share with a visible name without a slash (or the single unnamed share) is started and
  scanned, over any number of passes of any directory contents; every request it queues then, as it is
  sent, passes the master's check of the path, for every signed-in user with a valid name, and is handed
  to the database. The only exception is the unnamed share of a path that is a regular file, which is
  announced as \<open>.\<close>: the master refuses it as an invalid part of a path.
\<close>

theorem announced_paths_accepted:
  assumes "sh = [] \<or> plain_part sh \<and> \<not> hidden sh" and "setFileRequestChan (srv w) = []"
    and "ectx \<notin> set (cancelled w)" and "base \<noteq> []"
    and "wf_tree (tree snapF)" and "wf_tree (tree snapN)" and "\<forall>snap \<in> set snaps. wf_tree (tree snap)"
    and "address p \<noteq> []" and "\<not> bad_part (user p)"
  shows "\<exists>s. scanner_Run (serverScanEnv h ce ee cf re) snapF ticks snapN snaps
          (startShare (serverScanEnv h ce ee cf re) sh base storage ectx fs w) = Return s
    \<and> (\<forall>q \<in> set (setFileRequestChan (srv (world s))). \<forall>r. encodes q r \<longrightarrow>
         rpc_SetFile ops d p r =
           (if sh = [] \<and> sf_Path r = ''.'' then Return (d, Some (InvalidPart ''.''))
            else op_SetFile ops d (user p # splitOn (CHR ''/'') (sf_Path r)) (sf_Info r) (ident p)))"
proof -
  let ?env = "serverScanEnv h ce ee cf re"
  have "tracked ?env (setFileCallback sh) (requests_ok sh) (startShare ?env sh base storage ectx fs w)"
    unfolding startShare_def
    by (rule announcer.ContinuousExport_tracked)
      (use assms(1-3) in \<open>auto simp: quiet_def New_def requests_ok_def live_def serverScanEnv_def ctxDone_def\<close>)
  from announcer.Run_tracked [OF this _ assms(5-7)] assms(4) obtain s where
    s: "scanner_Run ?env snapF ticks snapN snaps (startShare ?env sh base storage ectx fs w) = Return s"
    and "tracked ?env (setFileCallback sh) (requests_ok sh) s" unfolding startShare_base by blast
  then have ok: "requests_ok sh (map_of (fileCache (sc s))) (world s)" by (simp add: tracked_def quiet_def)
  show ?thesis by (intro exI [of _ s] conjI s ballI allI impI) (rule rpc_SetFile_announced [OF ok _ _ assms(8,9)])
qed

theorem announced_paths_accepted_witness:
  "\<exists>s. scanner_Run (serverScanEnv rev None None False None) demo_snap (\<lambda>n. n = 1) demo_snap [demo_snap]
      (startShare (serverScanEnv rev None None False None) ''docs'' ''/srv'' ''/var'' 1 [] Peer_Server.demo_world) = Return s
    \<and> (\<forall>q \<in> set (setFileRequestChan (srv (world s))). \<forall>r. encodes q r \<longrightarrow>
         rpc_SetFile inmem_ops newDatabase demo_peer r =
           SetFile newDatabase (''al'' # splitOn (CHR ''/'') (sf_Path r)) (sf_Info r) ''al@1.2.3.4:1667'')"
proof -
  have wf: "wf_tree (tree demo_snap)" using wf_demo_tree by (simp add: demo_snap_def)
  have "plain_part ''docs''" "\<not> hidden ''docs''" by (simp_all add: plain_part_def hidden_def)
  then show ?thesis
    using announced_paths_accepted [of "''docs''" Peer_Server.demo_world 1 "''/srv''" demo_snap demo_snap "[demo_snap]" demo_peer
        rev None None False None "\<lambda>n. n = 1" "''/var''" "[]" inmem_ops newDatabase] wf
    by (simp add: Peer_Server.demo_world_def demo_peer_def bad_part_def inmem_ops_def)
qed

section \<open>From the queue to the database\<close>

text \<open>The path under which the master stores a queued request.\<close>

definition storedPath :: "Peer \<Rightarrow> queued \<Rightarrow> string list" where
  "storedPath p q = user p # splitOn (CHR ''/'') (q_Path q)"

lemma storedPath_inj: "storedPath p q = storedPath p q' \<Longrightarrow> q_Path q = q_Path q'"
  unfolding storedPath_def by (metis joinWith_splitOn list.inject)

lemma accounted_paths:
  assumes "accounted qs s" and "distinct (map q_Path qs)" and "q \<in> set (busy s)" and "(q', e) \<in> set (finished s)"
  shows "q_Path q \<noteq> q_Path q'"
proof -
  let ?all = "pending s @ busy s @ map fst (finished s)"
  have "mset (map q_Path ?all) = mset (map q_Path qs)"
    using arg_cong [of _ _ "image_mset q_Path", OF conjunct1 [OF assms(1) [unfolded accounted_def]]]
    by (simp add: multiset.map_comp add.assoc)
  then have "distinct (map q_Path ?all)" using assms(2) by (metis mset_eq_imp_distinct_iff)
  then have "q_Path ` set (busy s) \<inter> q_Path ` fst ` set (finished s) = {}" by (auto simp: image_image)
  then show ?thesis using assms(3,4) by force
qed

text \<open>What holds of the goroutines at every moment, over any database.\<close>

definition published ::
  "('db \<Rightarrow> bool) \<Rightarrow> ('db \<Rightarrow> string list \<Rightarrow> FileInfo option) \<Rightarrow> Peer \<Rightarrow> queued list \<Rightarrow> 'db \<Rightarrow> 'db workers \<Rightarrow> bool"
where
  "published invar look p qs d0 s \<longleftrightarrow> accounted qs s \<and> invar (remote s)
     \<and> (\<forall>q. (q, None) \<in> set (finished s) \<longrightarrow> (\<exists>r. encodes q r \<and> look (remote s) (storedPath p q) = sf_Info r))
     \<and> (\<forall>path. path \<notin> storedPath p ` set qs \<longrightarrow> look (remote s) path = look d0 path)"

context database
begin

lemma rpc_SetFile_stores:
  assumes "invar d" and "rpc_SetFile ops d p r = Return (d', e)" and "encodes q r"
  shows "invar d'" and "path \<noteq> storedPath p q \<Longrightarrow> look d' path = look d path"
    and "e = None \<Longrightarrow> look d' (storedPath p q) = sf_Info r"
proof -
  have ex: "user p # splitOn (CHR ''/'') (sf_Path r) = storedPath p q"
    using assms(3) by (simp add: encodes_def storedPath_def)
  have ne: "storedPath p q \<noteq> []" by (simp add: storedPath_def)
  from assms(2) have "invar d' \<and> (path \<noteq> storedPath p q \<longrightarrow> look d' path = look d path)
      \<and> (e = None \<longrightarrow> look d' (storedPath p q) = sf_Info r)"
  proof (cases rule: rpc_SetFile_cases)
    case (stored ex')
    then have set: "op_SetFile ops d (storedPath p q) (sf_Info r) (ident p) = Return (d', e)" using ex by simp
    moreover have "look d' (storedPath p q) = sf_Info r" if "e = None"
    proof (cases "sf_Info r")
      case None
      then show ?thesis using set_delete [OF assms(1) ne] set that by simp
    next
      case (Some fi)
      then show ?thesis using publish [OF assms(1) ne, of fi "ident p"] set that by auto
    qed
    ultimately show ?thesis using set_invar [OF assms(1) ne set] set_frame [OF assms(1) ne set, of path] by blast
  qed (use assms(1) in auto)
  then show "invar d'" and "path \<noteq> storedPath p q \<Longrightarrow> look d' path = look d path"
    and "e = None \<Longrightarrow> look d' (storedPath p q) = sf_Info r" by auto
qed

lemma published_step:
  assumes "worker_step (\<lambda>r d. rpc_SetFile ops d p r) s t" and "published invar look p qs d0 s" and "distinct (map q_Path qs)"
  shows "published invar look p qs d0 t"
proof -
  note pub = assms(2) [unfolded published_def]
  have acc: "accounted qs t" using workers_accounted [OF assms(1)] pub by blast
  have busy: "q \<in> set qs" if "q \<in> set (busy s)" for q
  proof -
    have "q \<in># mset (pending s) + mset (busy s) + image_mset fst (mset (finished s))" using that by simp
    then show ?thesis using pub by (metis accounted_def set_mset_mset)
  qed
  have keep: "(\<forall>q'. (q', None) \<in> set (finished s) \<longrightarrow> (\<exists>r. encodes q' r \<and> look d' (storedPath p q') = sf_Info r))
      \<and> (\<forall>path. path \<notin> storedPath p ` set qs \<longrightarrow> look d' path = look d0 path) \<and> invar d'"
    if "q \<in> set (busy s)" "encodes q r" "rpc_SetFile ops (remote s) p r = Return (d', e)" for q r d' e
  proof -
    note stores = rpc_SetFile_stores [OF _ that(3,2)]
    have "storedPath p q' \<noteq> storedPath p q" if "(q', x) \<in> set (finished s)" for q' x
      using accounted_paths [OF _ assms(3) \<open>q \<in> set (busy s)\<close> that] pub storedPath_inj by metis
    then show ?thesis using stores(1,2) pub busy [OF that(1)] by (metis imageI)
  qed
  from assms(1) show ?thesis
  proof (cases rule: worker_step.cases)
    case (handled q r m e)
    then show ?thesis using keep [OF handled(2-4)] acc unfolding published_def by simp
  next
    case (answered as q bs r m e)
    then have q: "q \<in> set (busy s)" by simp
    have "look m (storedPath p q) = sf_Info r" if "e = None"
      using rpc_SetFile_stores(3) [OF _ answered(4,3) that] pub by blast
    then show ?thesis using keep [OF q answered(3,4)] acc answered(1,3) unfolding published_def by auto
  qed (use pub acc in \<open>auto simp: published_def\<close>)
qed

lemma published_run:
  assumes "(worker_step (\<lambda>r d. rpc_SetFile ops d p r))\<^sup>*\<^sup>* (startSetFileThreads qs d0) t" and "invar d0" and "distinct (map q_Path qs)"
  shows "published invar look p qs d0 t"
  using assms(1)
proof (induction rule: rtranclp_induct)
  case base
  then show ?case using assms(2) by (simp add: published_def accounted_def startSetFileThreads_def)
next
  case (step t u)
  then show ?case using published_step assms(3) by blast
qed

end

text \<open>
  C30. The goroutines that send the queued requests, on requests for different paths, over any
  interleaving, with repeated and failing calls: at every moment each request is waiting, being sent (at
  most four at a time) or finished, exactly once. A request whose call returned without an error is
  stored: the master's in-memory database has for its path what the request was encoded with. All the
  others that are finished were logged as failed, and no other path of the database has changed.
\<close>

theorem workers_publish:
  assumes "(worker_step (\<lambda>r d. rpc_SetFile inmem_ops d p r))\<^sup>*\<^sup>* (startSetFileThreads qs d) t" and "inmem_inv d"
    and "distinct (map q_Path qs)"
  shows "mset (pending t) + mset (busy t) + image_mset fst (mset (finished t)) = mset qs \<and> length (busy t) \<le> 4
    \<and> (\<forall>q. (q, None) \<in> set (finished t) \<longrightarrow>
         (\<exists>r. encodes q r \<and> lookupFile (fileTree (remote t)) (user p # splitOn (CHR ''/'') (q_Path q)) = sf_Info r))
    \<and> (\<forall>path. path \<notin> (\<lambda>q. user p # splitOn (CHR ''/'') (q_Path q)) ` set qs \<longrightarrow>
         lookupFile (fileTree (remote t)) path = lookupFile (fileTree d) path)"
  using inmem.published_run [OF assms] unfolding published_def accounted_def storedPath_def by blast

definition demo_queue :: "queued list" where
  "demo_queue = [\<lparr>q_Path = ''d/x'', q_Info = Some (fresh demo_info)\<rparr>, \<lparr>q_Path = ''d/y'', q_Info = Some (fresh demo_info)\<rparr>]"

lemma demo_publish:
  assumes "inmem_inv d" and "path = ''d/x'' \<or> path = ''d/y''"
  shows "\<exists>d'. rpc_SetFile inmem_ops d demo_peer \<lparr>sf_Path = path, sf_Info = Some demo_info\<rparr> = Return (d', None) \<and> inmem_inv d'"
proof -
  have "acceptable path" using assms(2) by (auto simp: acceptable_def bad_part_def)
  moreover have "address demo_peer \<noteq> []" "\<not> bad_part (user demo_peer)" by (simp_all add: demo_peer_def bad_part_def)
  ultimately show ?thesis
    using rpc_SetFile_acceptable [of "\<lparr>sf_Path = path, sf_Info = Some demo_info\<rparr>" demo_peer inmem_ops d]
      inmem.publish [OF assms(1), of "user demo_peer # splitOn (CHR ''/'') path" demo_info "ident demo_peer"]
      inmem.set_invar [OF assms(1)] by fastforce
qed

theorem workers_publish_witness:
  "\<exists>t. (worker_step (\<lambda>r d. rpc_SetFile inmem_ops d demo_peer r))\<^sup>*\<^sup>* (startSetFileThreads demo_queue newDatabase) t
     \<and> pending t = [] \<and> busy t = [] \<and> lookupFile (fileTree (remote t)) [''al'', ''d'', ''y''] = Some demo_info"
proof -
  have inv: "inmem_inv newDatabase" by (simp add: inmem_inv_def newDatabase_def)
  obtain d1 where d1: "rpc_SetFile inmem_ops newDatabase demo_peer \<lparr>sf_Path = ''d/y'', sf_Info = Some demo_info\<rparr> = Return (d1, None)"
    "inmem_inv d1" using demo_publish [OF inv] by blast
  obtain d2 where d2: "rpc_SetFile inmem_ops d1 demo_peer \<lparr>sf_Path = ''d/x'', sf_Info = Some demo_info\<rparr> = Return (d2, None)"
    using demo_publish [OF d1(2)] by blast
  let ?x = "\<lparr>q_Path = ''d/x'', q_Info = Some (fresh demo_info)\<rparr>" and ?y = "\<lparr>q_Path = ''d/y'', q_Info = Some (fresh demo_info)\<rparr>"
  let ?t = "\<lparr>pending = [], busy = [], finished = [(?y, None), (?x, None)], remote = d2\<rparr>"
  have run: "(worker_step (\<lambda>r d. rpc_SetFile inmem_ops d demo_peer r))\<^sup>*\<^sup>* (startSetFileThreads demo_queue newDatabase) ?t"
    unfolding demo_queue_def by (rule workers_swap [OF _ _ d1(1) d2]) (simp_all add: encodes_def fresh_def)
  have "distinct (map q_Path demo_queue)" by (simp add: demo_queue_def)
  note all = workers_publish [OF run inv this]
  have "(?y, None) \<in> set (finished ?t)" by simp
  then obtain r where r: "encodes ?y r"
    and "lookupFile (fileTree (remote ?t)) (user demo_peer # splitOn (CHR ''/'') (q_Path ?y)) = sf_Info r"
    using all by blast
  moreover have "sf_Info r = Some demo_info" using r by (simp add: encodes_def fresh_def)
  moreover have "user demo_peer # splitOn (CHR ''/'') (q_Path ?y) = [''al'', ''d'', ''y'']" by (simp add: demo_peer_def)
  ultimately have "lookupFile (fileTree (remote ?t)) [''al'', ''d'', ''y''] = Some demo_info" by metis
  moreover have "pending ?t = []" "busy ?t = []" by simp_all
  ultimately show ?thesis using run by blast
qed

section \<open>From a published file to its reader\<close>







section \<open>The database behind a publication\<close>



section \<open>Publishing, listing and reading a file\<close>






end
